(* ===== verification/GoBase.thy ===== *)
theory GoBase
  imports Main "HOL-Library.Sublist" "HOL-Library.Char_ord" "HOL-Library.List_Lexorder"
    "HOL-Library.Signed_Division"
begin

text \<open>
  The prelude: the parts of the Go language and of its standard library the packages use.
  Byte strings are HOL strings (lists of 8-bit characters), machine integers are \<open>int\<close> with the
  two's-complement wrap-around written out as \<open>i64\<close>, errors are values of \<open>gerr\<close>, an instant is
  the number of nanoseconds since Go's zero time and a duration is a number of nanoseconds. The
  named collections \<open>go_defs\<close>, \<open>frame\<close> and \<open>laws\<close> gather the unfoldings, the frame facts and the
  laws of the stores that component proofs share.
\<close>

named_theorems go_defs "unfoldings of small Go helpers"
named_theorems frame "what an operation leaves unchanged"
named_theorems laws "laws the implementation of an interface satisfies"

section \<open>Strings and byte slices\<close>

type_synonym bytes = string

definition HasPrefix :: "string \<Rightarrow> string \<Rightarrow> bool" where
  "HasPrefix s p \<longleftrightarrow> prefix p s"

fun contains_str :: "string \<Rightarrow> string \<Rightarrow> bool" where
  "contains_str [] p = (p = [])"
| "contains_str (c # s) p = (prefix p (c # s) \<or> contains_str s p)"

text \<open>The UTF-8 encodings of the runes for which \<open>unicode.IsSpace\<close> holds.\<close>

definition space_runes :: "string list" where
  "space_runes =
     [[CHR 0x09], [CHR 0x0A], [CHR 0x0B], [CHR 0x0C], [CHR 0x0D], [CHR 0x20],
      [CHR 0xC2, CHR 0x85], [CHR 0xC2, CHR 0xA0], [CHR 0xE1, CHR 0x9A, CHR 0x80],
      [CHR 0xE2, CHR 0x80, CHR 0x80], [CHR 0xE2, CHR 0x80, CHR 0x81],
      [CHR 0xE2, CHR 0x80, CHR 0x82], [CHR 0xE2, CHR 0x80, CHR 0x83],
      [CHR 0xE2, CHR 0x80, CHR 0x84], [CHR 0xE2, CHR 0x80, CHR 0x85],
      [CHR 0xE2, CHR 0x80, CHR 0x86], [CHR 0xE2, CHR 0x80, CHR 0x87],
      [CHR 0xE2, CHR 0x80, CHR 0x88], [CHR 0xE2, CHR 0x80, CHR 0x89],
      [CHR 0xE2, CHR 0x80, CHR 0x8A], [CHR 0xE2, CHR 0x80, CHR 0xA8],
      [CHR 0xE2, CHR 0x80, CHR 0xA9], [CHR 0xE2, CHR 0x80, CHR 0xAF],
      [CHR 0xE2, CHR 0x81, CHR 0x9F], [CHR 0xE3, CHR 0x80, CHR 0x80]]"

text \<open>Drop leading occurrences of the given (nonempty) encodings.\<close>

function trim_enc :: "string list \<Rightarrow> string \<Rightarrow> string" where
  "trim_enc ps s =
     (case find (\<lambda>p. p \<noteq> [] \<and> prefix p s) ps of
        None \<Rightarrow> s
      | Some p \<Rightarrow> trim_enc ps (drop (length p) s))"
  by pat_completeness auto
termination
proof (relation "measure (\<lambda>(ps, s). length s)")
  show "wf (measure (\<lambda>(ps :: string list, s :: string). length s))" by simp
next
  fix ps s p
  assume "find (\<lambda>p. p \<noteq> [] \<and> prefix p s) ps = Some p"
  then have "p \<noteq> []" and "prefix p s" by (auto simp: find_Some_iff)
  then show "((ps, drop (length p) s), (ps, s)) \<in> measure (\<lambda>(ps, s). length s)"
    by (auto simp: prefix_def)
qed

declare trim_enc.simps [simp del]

definition TrimSpace :: "string \<Rightarrow> string" where
  "TrimSpace s = rev (trim_enc (map rev space_runes) (rev (trim_enc space_runes s)))"

lemma trim_enc_suffix: "suffix (trim_enc ps s) s"
proof (induction ps s rule: trim_enc.induct)
  case (1 ps s)
  show ?case
  proof (cases "find (\<lambda>p. p \<noteq> [] \<and> prefix p s) ps")
    case None
    then show ?thesis by (simp add: trim_enc.simps [of ps s])
  next
    case (Some p)
    with 1 have "suffix (trim_enc ps (drop (length p) s)) (drop (length p) s)" by simp
    with Some show ?thesis
      by (simp add: trim_enc.simps [of ps s]) (meson suffix_drop suffix_order.trans)
  qed
qed

lemma trim_enc_fixed:
  "\<forall>p\<in>set ps. p \<noteq> [] \<longrightarrow> \<not> prefix p s \<Longrightarrow> trim_enc ps s = s"
  by (subst trim_enc.simps) (use find_None_iff [of "\<lambda>p. p \<noteq> [] \<and> prefix p s" ps] in auto)

lemma trim_enc_Nil [simp]: "trim_enc ps [] = []"
  by (rule trim_enc_fixed) auto

lemma TrimSpace_Nil [simp]: "TrimSpace [] = []"
  by (simp add: TrimSpace_def)

lemma trim_enc_idem: "trim_enc ps (trim_enc ps s) = trim_enc ps s"
proof (induction ps s rule: trim_enc.induct)
  case (1 ps s)
  show ?case
  proof (cases "find (\<lambda>p. p \<noteq> [] \<and> prefix p s) ps")
    case None
    then show ?thesis by (simp add: trim_enc.simps [of ps s])
  next
    case (Some p)
    with 1 show ?thesis by (simp add: trim_enc.simps [of ps s])
  qed
qed

text \<open>Text that begins and ends with a visible ASCII character is left as it is.\<close>

definition visible :: "char \<Rightarrow> bool" where
  "visible c \<longleftrightarrow> 0x20 < (of_char c :: nat) \<and> (of_char c :: nat) < 0x80"

lemma trim_enc_visible:
  "\<forall>p\<in>set ps. p \<noteq> [] \<longrightarrow> \<not> visible (hd p) \<Longrightarrow> s \<noteq> [] \<Longrightarrow> visible (hd s) \<Longrightarrow> trim_enc ps s = s"
  by (rule trim_enc_fixed) (auto simp: prefix_def)

lemma space_runes_ends:
  "\<forall>p\<in>set space_runes. p \<noteq> [] \<and> \<not> visible (hd p) \<and> \<not> visible (last p)"
  by (simp add: space_runes_def visible_def)

lemma TrimSpace_visible: "s \<noteq> [] \<Longrightarrow> visible (hd s) \<Longrightarrow> visible (last s) \<Longrightarrow> TrimSpace s = s"
  using space_runes_ends by (auto simp: TrimSpace_def trim_enc_visible hd_rev)

lemma TrimSpace_length: "length (TrimSpace s) \<le> length s"
proof -
  have "length (trim_enc ps t) \<le> length t" for ps t
    using trim_enc_suffix [of ps t] by (rule suffix_length_le)
  then show ?thesis unfolding TrimSpace_def by (metis length_rev order_trans)
qed

section \<open>Searching a list\<close>

lemma find_Some_props: "find P xs = Some r \<Longrightarrow> r \<in> set xs \<and> P r"
  by (auto simp: find_Some_iff)

lemma find_append_list:
  "find P (xs @ ys) = (case find P xs of None \<Rightarrow> find P ys | Some x \<Rightarrow> Some x)"
  by (induction xs) auto

lemma option_eqI: "(\<And>v. x = Some v \<longleftrightarrow> y = Some v) \<Longrightarrow> x = y"
  by (metis not_Some_eq)

section \<open>Errors\<close>

text \<open>
  The package-level error variables (one constructor each, as \<open>errors.New\<close> makes each of them a
  value of its own), errors that wrap another (\<open>fmt.Errorf\<close> with the \<open>w\<close> verb), and the errors
  that come from code outside the repository.
\<close>

datatype sentinel =
    Users_ErrNotFound
  | Authflow_ErrUsernameTaken | Authflow_ErrBadCredentials
  | Authflow_ErrWeakPassword | Authflow_ErrEmptyUsername
  | Authtoken_ErrInvalidToken | Authtoken_ErrWeakPassword
  | Captcha_ErrFailed
  | Sql_ErrNoRows
  | Strconv_ErrSyntax | Strconv_ErrRange

datatype gerr = Sentinel sentinel | Wrapf string gerr | Foreign string

fun errors_Is :: "gerr \<Rightarrow> gerr \<Rightarrow> bool" where
  "errors_Is (Wrapf m e) t = (Wrapf m e = t \<or> errors_Is e t)"
| "errors_Is e t = (e = t)"

fun sentinel_text :: "sentinel \<Rightarrow> string" where
  "sentinel_text Users_ErrNotFound = ''users: not found''"
| "sentinel_text Authflow_ErrUsernameTaken = ''username is already taken''"
| "sentinel_text Authflow_ErrBadCredentials = ''invalid username or password''"
| "sentinel_text Authflow_ErrWeakPassword = ''password is too short''"
| "sentinel_text Authflow_ErrEmptyUsername = ''username is required''"
| "sentinel_text Authtoken_ErrInvalidToken = ''authtoken: invalid or expired token''"
| "sentinel_text Authtoken_ErrWeakPassword = ''authtoken: password too short''"
| "sentinel_text Captcha_ErrFailed = ''captcha: verification failed''"
| "sentinel_text Sql_ErrNoRows = ''sql: no rows in result set''"
| "sentinel_text Strconv_ErrSyntax = ''invalid syntax''"
| "sentinel_text Strconv_ErrRange = ''value out of range''"

fun error_text :: "gerr \<Rightarrow> string" where
  "error_text (Sentinel x) = sentinel_text x"
| "error_text (Wrapf m e) = m @ error_text e"
| "error_text (Foreign m) = m"

lemma errors_Is_refl [simp]: "errors_Is e e"
  by (cases e) auto

text \<open>What a fallible call returns (\<open>Inl\<close> the error), with the state it leaves behind.\<close>

type_synonym ('s, 'a) call = "'s \<Rightarrow> (gerr + 'a) \<times> 's"

section \<open>Machine integers\<close>

definition i64 :: "int \<Rightarrow> int" where
  "i64 x = (x + 2 ^ 63) mod 2 ^ 64 - 2 ^ 63"

definition i64_ok :: "int \<Rightarrow> bool" where
  "i64_ok x \<longleftrightarrow> - (2 ^ 63) \<le> x \<and> x < 2 ^ 63"

abbreviation (input) "max_i64 \<equiv> (2 ^ 63 - 1 :: int)"
abbreviation (input) "min_i64 \<equiv> (- (2 ^ 63) :: int)"

lemma i64_id [simp]: "i64_ok x \<Longrightarrow> i64 x = x"
  by (simp add: i64_def i64_ok_def)

lemma i64_range [simp, intro]: "i64_ok (i64 x)"
proof -
  have "0 \<le> (x + 2 ^ 63) mod 2 ^ 64" and "(x + 2 ^ 63) mod 2 ^ 64 < (2 ^ 64 :: int)"
    by simp_all
  then show ?thesis by (simp add: i64_def i64_ok_def)
qed

end
