(* ===== verification/GoNum.thy ===== *)
theory GoNum
  imports Complex_Main GoBase
begin

text \<open>
  Numbers, durations and instants of Go's standard library: \<open>strconv.Itoa\<close>, \<open>strconv.Atoi\<close> and
  \<open>strconv.ParseInt\<close> in base ten with their syntax and range errors, the binary64 rounding
  behind \<open>Duration.Seconds\<close> and its kin, and \<open>time.Time\<close> as nanoseconds since the zero time.
\<close>

section \<open>Decimal text\<close>

definition digit_char :: "nat \<Rightarrow> char" where
  "digit_char d = char_of (48 + d)"

definition is_digit :: "char \<Rightarrow> bool" where
  "is_digit c \<longleftrightarrow> 48 \<le> (of_char c :: nat) \<and> (of_char c :: nat) \<le> 57"

definition ascii_lower :: "char \<Rightarrow> char" where
  "ascii_lower c = (let n = (of_char c :: nat) in if 65 \<le> n \<and> n \<le> 90 then char_of (n + 32) else c)"

definition digit_val :: "char \<Rightarrow> int" where
  "digit_val c = of_char c - 48"

fun utoa :: "nat \<Rightarrow> string" where
  "utoa n = (if n < 10 then [digit_char n] else utoa (n div 10) @ [digit_char (n mod 10)])"

declare utoa.simps [simp del]

definition Itoa :: "int \<Rightarrow> string" where
  "Itoa i = (if i < 0 then CHR ''-'' # utoa (nat (- i)) else utoa (nat i))"

text \<open>
  \<open>ParseUint\<close> with 64 bits: the digits are scanned from the left, a character that is no digit
  is a syntax error, and the first overflow stops the scan with a range error and the largest
  value.
\<close>

fun parse_u64 :: "int \<Rightarrow> string \<Rightarrow> int \<times> gerr option" where
  "parse_u64 n [] = (n, None)"
| "parse_u64 n (c # cs) =
     (if \<not> is_digit c then (0, Some (Sentinel Strconv_ErrSyntax))
      else if n \<ge> (2 ^ 64 - 1) div 10 + 1 then (2 ^ 64 - 1, Some (Sentinel Strconv_ErrRange))
      else if n * 10 + digit_val c \<ge> 2 ^ 64 then (2 ^ 64 - 1, Some (Sentinel Strconv_ErrRange))
      else parse_u64 (n * 10 + digit_val c) cs)"

definition ParseInt :: "string \<Rightarrow> int \<times> gerr option" where
  "ParseInt s =
     (if s = [] then (0, Some (Sentinel Strconv_ErrSyntax))
      else
        let neg = (hd s = CHR ''-'');
            ds = (if hd s = CHR ''+'' \<or> neg then tl s else s)
        in if ds = [] then (0, Some (Sentinel Strconv_ErrSyntax))
           else
             let (un, err) = parse_u64 0 ds
             in if err \<noteq> None \<and> err \<noteq> Some (Sentinel Strconv_ErrRange) then (0, err)
                else if \<not> neg \<and> un \<ge> 2 ^ 63 then (2 ^ 63 - 1, Some (Sentinel Strconv_ErrRange))
                else if neg \<and> un > 2 ^ 63 then (- (2 ^ 63), Some (Sentinel Strconv_ErrRange))
                else (if neg then - un else un, None))"

text \<open>\<open>strconv.Atoi\<close> is the same function at the 64-bit width of \<open>int\<close>.\<close>

definition Atoi :: "string \<Rightarrow> int \<times> gerr option" where
  "Atoi s = ParseInt s"

lemma is_digit_char [simp]: "d < 10 \<Longrightarrow> is_digit (digit_char d)"
  by (simp add: is_digit_def digit_char_def of_char_of)

lemma digit_val_char [simp]: "d < 10 \<Longrightarrow> digit_val (digit_char d) = int d"
proof -
  assume "d < 10"
  then have "of_char (digit_char d) = 48 + d" by (simp add: digit_char_def of_char_of)
  then show ?thesis unfolding digit_val_def
    by (metis add_diff_cancel_left' of_nat_add of_nat_numeral of_nat_of_char)
qed

lemma utoa_nonempty [simp]: "utoa n \<noteq> []"
  by (subst utoa.simps) simp

lemma utoa_digits: "c \<in> set (utoa n) \<Longrightarrow> is_digit c"
proof (induction n rule: utoa.induct)
  case (1 n)
  then show ?case by (cases "n < 10") (auto simp: utoa.simps [of n])
qed

lemma parse_u64_append:
  "parse_u64 n xs = (m, None) \<Longrightarrow> parse_u64 n (xs @ ys) = parse_u64 m ys"
  by (induction n xs rule: parse_u64.induct) (auto split: if_splits)

lemma parse_u64_utoa: "int n < 2 ^ 64 \<Longrightarrow> parse_u64 0 (utoa n) = (int n, None)"
proof (induction n rule: utoa.induct)
  case (1 n)
  show ?case
  proof (cases "n < 10")
    case True
    then show ?thesis by (simp add: utoa.simps [of n])
  next
    case False
    have le: "int (n div 10) * 10 + int (n mod 10) = int n"
      by (metis div_mult_mod_eq of_nat_add of_nat_mult of_nat_numeral)
    moreover have "int (n div 10) < (2 ^ 64 - 1) div 10 + 1" using "1.prems" by simp
    moreover have "parse_u64 0 (utoa (n div 10)) = (int (n div 10), None)"
      using "1.IH" [OF False] "1.prems" by simp
    ultimately show ?thesis using False "1.prems"
      by (simp add: utoa.simps [of n] parse_u64_append)
  qed
qed

lemma utoa_value: "foldl (\<lambda>a c. a * 10 + (of_char c - 48)) 0 (utoa n) = n"
proof (induction n rule: utoa.induct)
  case (1 n)
  have "of_char (digit_char d) = 48 + d" if "d < 10" for d
    using that by (simp add: digit_char_def of_char_of)
  with 1 show ?case by (simp add: utoa.simps [of n])
qed

lemma utoa_inj: "utoa m = utoa n \<longleftrightarrow> m = n"
  by (metis utoa_value)

lemma Itoa_inj: "Itoa i = Itoa j \<longleftrightarrow> i = j"
proof
  have sgn: "CHR ''-'' # t \<noteq> utoa n" for n t
  proof
    assume "CHR ''-'' # t = utoa n"
    then have "CHR ''-'' \<in> set (utoa n)" by (metis list.set_intros(1))
    then show False using utoa_digits [of "CHR ''-''" n] by (simp add: is_digit_def)
  qed
  assume e: "Itoa i = Itoa j"
  show "i = j"
  proof (cases "i < 0"; cases "j < 0")
    assume "i < 0" "j < 0"
    with e have "nat (- i) = nat (- j)" by (simp add: Itoa_def utoa_inj)
    with \<open>i < 0\<close> \<open>j < 0\<close> show ?thesis by simp
  next
    assume "\<not> i < 0" "\<not> j < 0"
    with e have "nat i = nat j" by (simp add: Itoa_def utoa_inj)
    with \<open>\<not> i < 0\<close> \<open>\<not> j < 0\<close> show ?thesis by simp
  next
    assume "i < 0" "\<not> j < 0"
    with e have "CHR ''-'' # utoa (nat (- i)) = utoa (nat j)" by (simp add: Itoa_def)
    with sgn show ?thesis by blast
  next
    assume "\<not> i < 0" "j < 0"
    with e have "CHR ''-'' # utoa (nat (- j)) = utoa (nat i)" by (simp add: Itoa_def)
    with sgn show ?thesis by blast
  qed
qed simp

lemma Itoa_nonempty [simp]: "Itoa i \<noteq> []"
  by (simp add: Itoa_def)

theorem ParseInt_Itoa: "i64_ok i \<Longrightarrow> ParseInt (Itoa i) = (i, None)"
proof -
  assume ok: "i64_ok i"
  have hd: "hd (utoa n) \<noteq> CHR ''-''" "hd (utoa n) \<noteq> CHR ''+''" for n
    using utoa_digits [of "hd (utoa n)" n] by (auto simp: is_digit_def)
  show ?thesis
  proof (cases "i < 0")
    case True
    with ok show ?thesis
      by (simp add: ParseInt_def Itoa_def Let_def parse_u64_utoa i64_ok_def)
  next
    case False
    with ok hd show ?thesis
      by (simp add: ParseInt_def Itoa_def Let_def parse_u64_utoa i64_ok_def)
  qed
qed

lemma parse_u64_bounds:
  "0 \<le> n \<Longrightarrow> n < 2 ^ 64 \<Longrightarrow> 0 \<le> fst (parse_u64 n s) \<and> fst (parse_u64 n s) < 2 ^ 64"
proof (induction n s rule: parse_u64.induct)
  case (2 n c cs)
  have "is_digit c \<Longrightarrow> 0 \<le> digit_val c"
    by (simp add: is_digit_def digit_val_def) (metis of_nat_le_iff of_nat_numeral of_nat_of_char)
  with 2 show ?case by auto
qed simp

lemma ParseInt_range: "i64_ok (fst (ParseInt s))"
proof -
  define neg ds where "neg \<longleftrightarrow> hd s = CHR ''-''" and "ds = (if hd s = CHR ''+'' \<or> neg then tl s else s)"
  obtain un err where p: "parse_u64 0 ds = (un, err)" by fastforce
  with parse_u64_bounds [of 0 ds] have un: "0 \<le> un" by simp
  have "ParseInt s = (if s = [] then (0, Some (Sentinel Strconv_ErrSyntax))
      else if ds = [] then (0, Some (Sentinel Strconv_ErrSyntax))
      else if err \<noteq> None \<and> err \<noteq> Some (Sentinel Strconv_ErrRange) then (0, err)
      else if \<not> neg \<and> un \<ge> 2 ^ 63 then (2 ^ 63 - 1, Some (Sentinel Strconv_ErrRange))
      else if neg \<and> un > 2 ^ 63 then (- (2 ^ 63), Some (Sentinel Strconv_ErrRange))
      else (if neg then - un else un, None))"
    by (simp add: ParseInt_def Let_def neg_def [symmetric] ds_def [symmetric] p)
  with un show ?thesis by (simp add: i64_ok_def)
qed

section \<open>Binary64 rounding\<close>

text \<open>
  \<open>f64 x\<close> is the binary64 number nearest to \<open>x\<close>, ties to even, for values in the normal range:
  53 significant bits, with the exponent of \<open>x\<close> read off its integer part or its inverse's.
\<close>

function bit_width :: "int \<Rightarrow> int" where
  "bit_width n = (if n \<le> 0 then 0 else 1 + bit_width (n div 2))"
  by pat_completeness auto
termination by (relation "measure nat") auto

declare bit_width.simps [simp del]

definition f64_exp :: "rat \<Rightarrow> int" where
  "f64_exp x = (if 1 \<le> x then bit_width \<lfloor>x\<rfloor> - 1
                else - bit_width (\<lceil>1 / x\<rceil> - 1))"

definition pow2 :: "int \<Rightarrow> rat" where
  "pow2 e = (if 0 \<le> e then 2 ^ nat e else 1 / 2 ^ nat (- e))"

definition round_even :: "rat \<Rightarrow> int" where
  "round_even y =
     (let f = \<lfloor>y\<rfloor>; r = y - of_int f
      in if r < 1 / 2 then f else if r > 1 / 2 then f + 1 else if even f then f else f + 1)"

definition f64 :: "rat \<Rightarrow> rat" where
  "f64 x = (if x = 0 then 0
            else let u = pow2 (f64_exp \<bar>x\<bar> - 52) in sgn x * (of_int (round_even (\<bar>x\<bar> / u)) * u))"

text \<open>Conversion of a float to an integer truncates towards zero.\<close>

definition float_to_int :: "rat \<Rightarrow> int" where
  "float_to_int x = (if 0 \<le> x then \<lfloor>x\<rfloor> else \<lceil>x\<rceil>)"

lemma bit_width_le: "n < 2 ^ k \<Longrightarrow> bit_width n \<le> int k"
proof (induction n arbitrary: k rule: bit_width.induct)
  case (1 n)
  show ?case
  proof (cases "n \<le> 0")
    case True
    then show ?thesis by (simp add: bit_width.simps)
  next
    case False
    with "1.prems" obtain j where k: "k = Suc j" by (cases k) auto
    with "1.prems" have "n div 2 < 2 ^ j" by auto
    with "1.IH" [OF False] k False show ?thesis by (simp add: bit_width.simps [of n])
  qed
qed

lemma round_even_int [simp]: "round_even (of_int k) = k"
  by (simp add: round_even_def Let_def)

lemma f64_int_pos: "0 < k \<Longrightarrow> k < 2 ^ 53 \<Longrightarrow> f64 (of_int k) = of_int k"
proof -
  assume k: "0 < k" "k < (2 ^ 53 :: int)"
  define e where "e = f64_exp \<bar>of_int k\<bar> - 52"
  have "bit_width k \<le> 53" using bit_width_le [of k 53] k by simp
  then have e: "e \<le> 0" using k by (simp add: e_def f64_exp_def)
  then have p: "pow2 e = 1 / 2 ^ nat (- e)" by (cases "e = 0") (auto simp: pow2_def)
  have "of_int k / pow2 e = of_int (k * 2 ^ nat (- e))" by (simp add: p)
  then have "round_even (of_int k / pow2 e) = k * 2 ^ nat (- e)" by (simp only: round_even_int)
  moreover have "\<bar>rat_of_int k\<bar> = of_int k" using k by simp
  ultimately show ?thesis using k unfolding f64_def Let_def e_def [symmetric]
    by (simp add: p)
qed

lemma f64_minus: "f64 (- x) = - f64 x"
  by (simp add: f64_def Let_def)

lemma f64_int: "\<bar>k\<bar> < 2 ^ 53 \<Longrightarrow> f64 (of_int k) = of_int k"
proof -
  assume k: "\<bar>k\<bar> < (2 ^ 53 :: int)"
  consider "k = 0" | "0 < k" | "0 < - k" by linarith
  then show ?thesis
  proof cases
    case 1
    then show ?thesis by (simp add: f64_def)
  next
    case 2
    with k show ?thesis by (simp add: f64_int_pos)
  next
    case 3
    with k have "f64 (of_int (- k)) = of_int (- k)" by (intro f64_int_pos) auto
    then show ?thesis by (simp add: f64_minus)
  qed
qed

section \<open>Durations and instants\<close>

type_synonym duration = int
type_synonym time = int

abbreviation (input) "Second \<equiv> (1000000000 :: int)"
abbreviation (input) "Minute \<equiv> (60000000000 :: int)"
abbreviation (input) "Hour \<equiv> (3600000000000 :: int)"

text \<open>\<open>d.Seconds()\<close>, \<open>d.Minutes()\<close> and \<open>d.Hours()\<close> for the unit \<open>u\<close> in nanoseconds.\<close>

definition dur_float :: "int \<Rightarrow> duration \<Rightarrow> rat" where
  "dur_float u d = f64 (f64 (of_int (d sdiv u)) + f64 (f64 (of_int (d smod u)) / of_int u))"

definition dur_int :: "int \<Rightarrow> duration \<Rightarrow> int" where
  "dur_int u d = float_to_int (dur_float u d)"

lemma dur_int_whole: "0 < u \<Longrightarrow> \<bar>k\<bar> < 2 ^ 53 \<Longrightarrow> dur_int u (k * u) = k"
proof -
  assume u: "0 < u" and k: "\<bar>k\<bar> < (2 ^ 53 :: int)"
  have "sgn k * \<bar>k\<bar> = k" by (rule sgn_mult_abs)
  moreover have "\<bar>k * u\<bar> div \<bar>u\<bar> = \<bar>k\<bar>" using u by (simp add: abs_mult)
  ultimately have "k * u sdiv u = k"
    using u by (simp add: signed_divide_int_def sgn_mult)
  moreover from this have "k * u smod u = 0" by (simp add: signed_modulo_int_def)
  moreover have "f64 0 = 0" by (simp add: f64_def)
  ultimately show ?thesis using k by (simp add: dur_int_def dur_float_def f64_int float_to_int_def)
qed

text \<open>
  An instant is the number of nanoseconds since January 1 of year 1 (UTC), so the zero time is
  0 and \<open>t.Add\<close>, \<open>t.After\<close>, \<open>t.Before\<close> are arithmetic; \<open>t.Sub\<close> saturates at the ends of the
  duration range; \<open>t.Unix()\<close> counts seconds from 1970.
\<close>

definition IsZero :: "time \<Rightarrow> bool" where
  "IsZero t \<longleftrightarrow> t = 0"

definition time_Sub :: "time \<Rightarrow> time \<Rightarrow> duration" where
  "time_Sub t u = max min_i64 (min max_i64 (t - u))"

definition unix_epoch :: int where
  "unix_epoch = 62135596800"

definition Unix :: "time \<Rightarrow> int" where
  "Unix t = t div Second - unix_epoch"

lemma Unix_mono: "s \<le> t \<Longrightarrow> Unix s \<le> Unix t"
  by (simp add: Unix_def zdiv_mono1)

end
