(* ===== verification/Gin.thy ===== *)
theory Gin
  imports GoNum
begin

text \<open>
  What the packages use of the web framework and of the host framework's core package: the
  current-user record and the role constants (their values are those of the \<open>user_display\<close> view
  in users/pgstore.go), and a request context. A context holds the parts of the request that
  handlers read, the session of the request, the keys set on it, and a log of the calls a handler
  makes on it: the framework itself is not modelled, a handler is judged by what it asks of it.
\<close>

section \<open>Users and roles of the core package\<close>

type_synonym role = int

abbreviation (input) "RoleBanned \<equiv> (-2 :: role)"
abbreviation (input) "RoleDisabled \<equiv> (-1 :: role)"
abbreviation (input) "RoleUser \<equiv> (0 :: role)"
abbreviation (input) "RoleContributor \<equiv> (1 :: role)"
abbreviation (input) "RoleMod \<equiv> (2 :: role)"
abbreviation (input) "RoleAdmin \<equiv> (3 :: role)"

record core_user =
  cu_ID :: int
  cu_Username :: string
  cu_Email :: string
  cu_Role :: role
  cu_CreatedAt :: time

section \<open>Sessions of the framework\<close>

text \<open>
  A session is a map of named values (\<open>sessions.Session\<close>): the handlers work on \<open>s_vals\<close>, and
  \<open>Save\<close> makes it what the next request starts from, unless the store refuses with the error of
  \<open>s_fault\<close>.
\<close>

datatype sval = SInt64 int | SInt int | SStr string

record sess =
  s_vals :: "string \<Rightarrow> sval option"
  s_saved :: "string \<Rightarrow> sval option"
  s_fault :: "gerr option"

definition s_Clear :: "sess \<Rightarrow> sess" where
  "s_Clear s = s\<lparr>s_vals := Map.empty\<rparr>"

definition s_Set :: "string \<Rightarrow> sval \<Rightarrow> sess \<Rightarrow> sess" where
  "s_Set k v s = s\<lparr>s_vals := (s_vals s)(k \<mapsto> v)\<rparr>"

definition s_Save :: "sess \<Rightarrow> gerr option \<times> sess" where
  "s_Save s = (case s_fault s of
                 Some e \<Rightarrow> (Some e, s)
               | None \<Rightarrow> (None, s\<lparr>s_saved := s_vals s\<rparr>))"

text \<open>The session a later request of the same client sees.\<close>

definition next_request :: "sess \<Rightarrow> sess" where
  "next_request s = s\<lparr>s_vals := s_saved s\<rparr>"

lemmas session_ops [go_defs] = s_Clear_def s_Set_def s_Save_def next_request_def

section \<open>Request contexts\<close>

datatype ctx_val = VUser core_user | VInt int

datatype gin_call =
    CNext
  | CAbort
  | CAbortJSON int string
  | CRedirect int string
  | CHeader string string
  | CString int string
  | CData int string bytes
  | COnLimit duration
  | CEnrich core_user

record gctx =
  g_sess :: sess
  g_keys :: "string \<Rightarrow> ctx_val option"
  g_header :: "string \<Rightarrow> string"
  g_form :: "string \<Rightarrow> string"
  g_query :: "string \<Rightarrow> string"
  g_ip :: string
  g_log :: "gin_call list"

definition call :: "gin_call \<Rightarrow> gctx \<Rightarrow> gctx" where
  "call x c = c\<lparr>g_log := g_log c @ [x]\<rparr>"

definition c_Set :: "string \<Rightarrow> ctx_val \<Rightarrow> gctx \<Rightarrow> gctx" where
  "c_Set k v c = c\<lparr>g_keys := (g_keys c)(k \<mapsto> v)\<rparr>"

text \<open>The calls a handler made on a context that it was given with log \<open>l\<close>.\<close>

definition calls_since :: "gctx \<Rightarrow> gctx \<Rightarrow> gin_call list" where
  "calls_since c c' = drop (length (g_log c)) (g_log c')"

definition fresh_ctx :: "sess \<Rightarrow> gctx" where
  "fresh_ctx s = \<lparr>g_sess = s, g_keys = Map.empty, g_header = (\<lambda>_. []), g_form = (\<lambda>_. []),
     g_query = (\<lambda>_. []), g_ip = [], g_log = []\<rparr>"

lemma call_simps [simp]:
  "g_sess (call x c) = g_sess c" "g_keys (call x c) = g_keys c" "g_header (call x c) = g_header c"
  "g_form (call x c) = g_form c" "g_query (call x c) = g_query c" "g_ip (call x c) = g_ip c"
  "g_log (call x c) = g_log c @ [x]"
  by (simp_all add: call_def)

lemma call_inj [simp]: "call x c = call y c \<longleftrightarrow> x = y"
  by (auto simp: call_def dest!: arg_cong [where f = g_log])

lemma c_Set_simps [simp]:
  "g_sess (c_Set k v c) = g_sess c" "g_keys (c_Set k v c) = (g_keys c)(k \<mapsto> v)"
  "g_header (c_Set k v c) = g_header c" "g_form (c_Set k v c) = g_form c"
  "g_query (c_Set k v c) = g_query c" "g_ip (c_Set k v c) = g_ip c" "g_log (c_Set k v c) = g_log c"
  by (simp_all add: c_Set_def)

lemma g_sess_update_simps [simp]:
  "g_keys (c\<lparr>g_sess := s\<rparr>) = g_keys c" "g_log (c\<lparr>g_sess := s\<rparr>) = g_log c"
  by simp_all

definition calls :: "(gctx \<Rightarrow> gctx) \<Rightarrow> gctx \<Rightarrow> gin_call list" where
  "calls h c = g_log (h (c\<lparr>g_log := []\<rparr>))"

end
