(* ===== verification/Session.thy ===== *)
theory Session
  imports Gin
begin

text \<open>
  session/session.go: the configuration and its defaults, the choice of the store and its cookie
  options, the login stamp \<open>Issue\<close>, \<open>Clear\<close> and \<open>Read\<close>. The two store constructors belong to
  third-party packages: a store is the data they are given, and whether the Redis store can be
  built is the argument \<open>dial\<close> of \<open>Store\<close>.
\<close>

section \<open>Configuration\<close>

record sess_config =
  Secret :: bytes
  Name :: string
  MaxAge :: duration
  Secure :: bool
  RedisAddr :: string
  RedisPassword :: string
  RedisDB :: int

definition cfg_name :: "sess_config \<Rightarrow> string" where
  "cfg_name cfg = (if Name cfg = [] then ''mysession'' else Name cfg)"

definition MaxAgeD :: "sess_config \<Rightarrow> duration" where
  "MaxAgeD cfg = (if MaxAge cfg \<le> 0 then 7 * 24 * Hour else MaxAge cfg)"

record options =
  o_Path :: string
  o_MaxAge :: int
  o_HttpOnly :: bool
  o_Secure :: bool
  o_SameSite :: string

datatype backend =
    CookieStore bytes
  | RedisStore int string string string string string bytes

record session_store =
  st_backend :: backend
  st_options :: options

definition Store ::
    "(backend \<Rightarrow> gerr option) \<Rightarrow> sess_config \<Rightarrow> gerr + session_store" where
  "Store dial cfg =
     (let opts = \<lparr>o_Path = ''/'', o_MaxAge = dur_int Second (MaxAgeD cfg), o_HttpOnly = True,
                  o_Secure = Secure cfg, o_SameSite = ''Lax''\<rparr>
      in if RedisAddr cfg \<noteq> []
         then (let rs = RedisStore 10 ''tcp'' (RedisAddr cfg) [] (RedisPassword cfg)
                          (Itoa (RedisDB cfg)) (Secret cfg)
               in case dial rs of
                    Some err \<Rightarrow> Inl (Wrapf (''session: redis store at '' @ RedisAddr cfg @ '': '') err)
                  | None \<Rightarrow> Inr \<lparr>st_backend = rs, st_options = opts\<rparr>)
         else Inr \<lparr>st_backend = CookieStore (Secret cfg), st_options = opts\<rparr>)"

text \<open>The middleware panics (\<open>Inl\<close>) when the store cannot be built.\<close>

definition Middleware ::
    "(backend \<Rightarrow> gerr option) \<Rightarrow> sess_config \<Rightarrow> gerr + (string \<times> session_store)" where
  "Middleware dial cfg =
     (case Store dial cfg of Inl err \<Rightarrow> Inl err | Inr store \<Rightarrow> Inr (cfg_name cfg, store))"

section \<open>Login stamp\<close>

definition Issue :: "time \<Rightarrow> int \<Rightarrow> string \<Rightarrow> int \<Rightarrow> sess \<Rightarrow> gerr option \<times> sess" where
  "Issue now userID ipHash pwChangedAt s =
     (let s = s_Clear s;
          s = s_Set ''user_id'' (SInt64 userID) s;
          s = s_Set ''login_at'' (SInt64 (Unix now)) s;
          s = (if ipHash \<noteq> [] then s_Set ''login_ip'' (SStr ipHash) s else s);
          s = s_Set ''password_changed_at'' (SInt64 pwChangedAt) s
      in s_Save s)"

definition Clear :: "sess \<Rightarrow> gerr option \<times> sess" where
  "Clear s = s_Save (s_Clear s)"

record Claims =
  UserID :: int
  LoginAt :: int
  LoginIP :: string
  PasswordChangedAt :: int

text \<open>The coercions of a stored value; a failed type assertion leaves the zero value.\<close>

fun idFromAny :: "sval option \<Rightarrow> int" where
  "idFromAny (Some (SInt64 n)) = n"
| "idFromAny (Some (SInt n)) = n"
| "idFromAny _ = 0"

fun as_int64 :: "sval option \<Rightarrow> int" where
  "as_int64 (Some (SInt64 n)) = n"
| "as_int64 _ = 0"

fun as_string :: "sval option \<Rightarrow> string" where
  "as_string (Some (SStr x)) = x"
| "as_string _ = []"

definition Read :: "sess \<Rightarrow> Claims option" where
  "Read s =
     (let uid = idFromAny (s_vals s ''user_id'')
      in if uid = 0 then None
         else Some \<lparr>UserID = uid,
                    LoginAt = as_int64 (s_vals s ''login_at''),
                    LoginIP = as_string (s_vals s ''login_ip''),
                    PasswordChangedAt = idFromAny (s_vals s ''password_changed_at'')\<rparr>)"

section \<open>Lemmas\<close>

lemma MaxAgeD_pos [simp]: "0 < MaxAgeD cfg"
  by (simp add: MaxAgeD_def)

lemma MaxAgeD_default: "MaxAge cfg \<le> 0 \<Longrightarrow> dur_int Second (MaxAgeD cfg) = 604800"
  using dur_int_whole [of Second 604800] by (simp add: MaxAgeD_def)

lemma Issue_vals:
  "s_vals (snd (Issue now uid ip pw s)) =
     [''user_id'' \<mapsto> SInt64 uid, ''login_at'' \<mapsto> SInt64 (Unix now), ''password_changed_at'' \<mapsto> SInt64 pw]
       (''login_ip'' := (if ip = [] then None else Some (SStr ip)))"
  by (auto simp: Issue_def Let_def session_ops fun_eq_iff split: option.splits)

lemma Issue_saved:
  "s_fault s = None \<Longrightarrow>
     fst (Issue now uid ip pw s) = None \<and>
     s_saved (snd (Issue now uid ip pw s)) = s_vals (snd (Issue now uid ip pw s))"
  by (simp add: Issue_def Let_def session_ops)

lemma Issue_fault:
  "s_fault s = Some e \<Longrightarrow>
     fst (Issue now uid ip pw s) = Some e \<and> s_saved (snd (Issue now uid ip pw s)) = s_saved s"
  by (simp add: Issue_def Let_def session_ops)

lemma s_fault_ops [simp]:
  "s_fault (snd (Issue now uid ip pw s)) = s_fault s" "s_fault (snd (Clear s)) = s_fault s"
  by (simp_all add: Issue_def Clear_def Let_def session_ops split: option.splits)

lemma Clear_vals [simp]: "s_vals (snd (Clear s)) = Map.empty"
  by (simp add: Clear_def session_ops split: option.splits)

lemma Clear_saved: "s_fault s = None \<Longrightarrow> s_saved (snd (Clear s)) = Map.empty"
  by (simp add: Clear_def session_ops)

lemma Read_vals: "s_vals s = s_vals s' \<Longrightarrow> Read s = Read s'"
  by (simp add: Read_def Let_def)

lemma Read_empty [simp]: "s_vals s = Map.empty \<Longrightarrow> Read s = None"
  by (simp add: Read_def)

lemma Read_Issue:
  "Read (snd (Issue now uid ip pw s)) =
     (if uid = 0 then None
      else Some \<lparr>UserID = uid, LoginAt = Unix now, LoginIP = ip, PasswordChangedAt = pw\<rparr>)"
  by (simp add: Read_def Issue_vals)

lemma Read_next_request: "s_saved s = s_vals s \<Longrightarrow> Read (next_request s) = Read s"
  by (simp add: Read_def next_request_def)

section \<open>Properties\<close>

text \<open>
  C29. Login round trip and session fixation: whatever session a client arrives with, the session
  after \<open>Issue\<close> holds exactly the stamped keys (nothing of the old one survives), the next request
  reads back exactly the claims that were stamped (none for user id 0), and when the store refuses
  to save, the error is returned and the client keeps the session it had.
\<close>

theorem Issue_then_Read:
  shows "s_vals (snd (Issue now uid ip pw s)) = s_vals (snd (Issue now uid ip pw s'))
    \<and> dom (s_vals (snd (Issue now uid ip pw s)))
        = {''user_id'', ''login_at'', ''password_changed_at''} \<union> (if ip = [] then {} else {''login_ip''})
    \<and> (case s_fault s of
         None \<Rightarrow> fst (Issue now uid ip pw s) = None
           \<and> Read (next_request (snd (Issue now uid ip pw s)))
             = (if uid = 0 then None
                else Some \<lparr>UserID = uid, LoginAt = Unix now, LoginIP = ip, PasswordChangedAt = pw\<rparr>)
       | Some e \<Rightarrow> fst (Issue now uid ip pw s) = Some e
           \<and> s_saved (snd (Issue now uid ip pw s)) = s_saved s)"
proof (cases "s_fault s")
  case None
  then show ?thesis by (auto simp: Issue_vals Issue_saved Read_next_request Read_Issue split: if_splits)
next
  case (Some e)
  then show ?thesis by (auto simp: Issue_vals Issue_fault split: if_splits)
qed

end
