(* ===== verification/Webauth.thy ===== *)
theory Webauth
  imports Session
begin

text \<open>
  webauth/webauth.go and webauth/adapter.go: the check chain \<open>resolve\<close>, the gates \<open>Soft\<close>,
  \<open>Require\<close> and \<open>RequireExact\<close> built on it, \<open>Current\<close>, and the adapter that hands them to the
  core package. The host's resolver, its IP hash and its enrich hook are fields of \<open>auth\<close>, as in
  the source; the clock is the argument \<open>now\<close> (unix seconds).
\<close>

section \<open>The middleware bundle\<close>

record auth =
  a_Session :: sess_config
  a_Resolve :: "int \<Rightarrow> core_user option \<times> int \<times> bool"
  a_LoginPath :: string
  a_IPHash :: "(gctx \<Rightarrow> string) option"
  a_Enrich :: bool

definition login :: "auth \<Rightarrow> string" where
  "login a = (if a_LoginPath a = [] then ''/login'' else a_LoginPath a)"

datatype authFail =
  failNone | failNoSession | failExpired | failNoUser | failPasswordChanged | failIPChanged

fun loginQuery :: "authFail \<Rightarrow> string" where
  "loginQuery failPasswordChanged = ''?reason=password_changed''"
| "loginQuery failIPChanged = ''?reason=ip_changed''"
| "loginQuery _ = []"

definition clear_session :: "gctx \<Rightarrow> gctx" where
  "clear_session c = c\<lparr>g_sess := snd (Clear (g_sess c))\<rparr>"

definition resolve :: "int \<Rightarrow> auth \<Rightarrow> gctx \<Rightarrow> core_user option \<times> authFail \<times> gctx" where
  "resolve now a c =
     (case Read (g_sess c) of
        None \<Rightarrow> (None, failNoSession, c)
      | Some claims \<Rightarrow>
          if LoginAt claims = 0 \<or> i64 (now - LoginAt claims) > dur_int Second (MaxAgeD (a_Session a))
          then (None, failExpired, clear_session c)
          else
            case a_Resolve a (UserID claims) of
              (None, _, _) \<Rightarrow> (None, failNoUser, clear_session c)
            | (Some u, changed, ok) \<Rightarrow>
                if \<not> ok then (None, failNoUser, clear_session c)
                else if changed \<noteq> 0 \<and> PasswordChangedAt claims < changed
                then (None, failPasswordChanged, clear_session c)
                else if (case a_IPHash a of
                           None \<Rightarrow> False
                         | Some iphash \<Rightarrow> cu_Role u = RoleAdmin \<and> LoginIP claims \<noteq> []
                                          \<and> LoginIP claims \<noteq> iphash c)
                then (None, failIPChanged, clear_session c)
                else (Some u, failNone, c))"

definition ctxUser :: string where
  "ctxUser = ''loon.user''"

definition enrich :: "auth \<Rightarrow> core_user \<Rightarrow> gctx \<Rightarrow> gctx" where
  "enrich a u c = (if a_Enrich a then call (CEnrich u) c else c)"

definition set_user :: "core_user \<Rightarrow> gctx \<Rightarrow> gctx" where
  "set_user u c = c_Set ''userID'' (VInt (cu_ID u)) (c_Set ctxUser (VUser u) c)"

section \<open>Gates\<close>

definition Soft :: "int \<Rightarrow> auth \<Rightarrow> gctx \<Rightarrow> gctx" where
  "Soft now a c =
     (case resolve now a c of
        (Some u, failNone, c) \<Rightarrow> call CNext (enrich a u (set_user u c))
      | (_, _, c) \<Rightarrow> call CNext c)"

definition wantsHTML :: "gctx \<Rightarrow> bool" where
  "wantsHTML c \<longleftrightarrow> contains_str (g_header c ''Accept'') ''text/html''"

definition Require :: "int \<Rightarrow> auth \<Rightarrow> role \<Rightarrow> gctx \<Rightarrow> gctx" where
  "Require now a minRole c =
     (case resolve now a c of
        (Some u, failNone, c) \<Rightarrow>
          if cu_Role u < minRole then call (CAbortJSON 403 ''insufficient role'') c
          else call CNext (enrich a u (set_user u c))
      | (_, fail, c) \<Rightarrow>
          if wantsHTML c then call CAbort (call (CRedirect 303 (login a @ loginQuery fail)) c)
          else call (CAbortJSON 401 ''log in first'') c)"

definition RequireExact :: "int \<Rightarrow> auth \<Rightarrow> role \<Rightarrow> gctx \<Rightarrow> gctx" where
  "RequireExact now a r c =
     (case resolve now a c of
        (Some u, failNone, c) \<Rightarrow>
          if cu_Role u \<noteq> r then call (CAbortJSON 403 ''wrong role'') c
          else call CNext (c_Set ctxUser (VUser u) c)
      | (_, _, c) \<Rightarrow> call (CAbortJSON 403 ''wrong role'') c)"

definition Current :: "int \<Rightarrow> auth \<Rightarrow> gctx \<Rightarrow> core_user option \<times> bool \<times> gctx" where
  "Current now a c =
     (case g_keys c ctxUser of
        Some (VUser u) \<Rightarrow> (Some u, True, c)
      | _ \<Rightarrow> (case resolve now a c of (u, fail, c) \<Rightarrow> (u, fail = failNone, c)))"

record core_auth =
  OptionalFn :: "(gctx \<Rightarrow> gctx) list"
  AuthenticateFn :: "(gctx \<Rightarrow> gctx) list"
  RequireUserFn :: "role \<Rightarrow> (gctx \<Rightarrow> gctx) list"
  RequireRoleFn :: "role \<Rightarrow> (gctx \<Rightarrow> gctx) list"
  CurrentUserFn :: "gctx \<Rightarrow> core_user option \<times> bool \<times> gctx"

definition CoreAuth :: "int \<Rightarrow> auth \<Rightarrow> core_auth" where
  "CoreAuth now a =
     \<lparr>OptionalFn = [Soft now a], AuthenticateFn = [Soft now a],
      RequireUserFn = (\<lambda>r. [Require now a r]), RequireRoleFn = (\<lambda>r. [RequireExact now a r]),
      CurrentUserFn = Current now a\<rparr>"

section \<open>The check chain\<close>

text \<open>What a session must satisfy to act as the user \<open>u\<close>.\<close>

definition valid_claims :: "int \<Rightarrow> auth \<Rightarrow> gctx \<Rightarrow> Claims \<Rightarrow> core_user \<Rightarrow> bool" where
  "valid_claims now a c cl u \<longleftrightarrow>
     LoginAt cl \<noteq> 0 \<and> i64 (now - LoginAt cl) \<le> dur_int Second (MaxAgeD (a_Session a))
     \<and> (\<exists>changed. a_Resolve a (UserID cl) = (Some u, changed, True)
          \<and> (changed = 0 \<or> changed \<le> PasswordChangedAt cl))
     \<and> (\<forall>iphash. a_IPHash a = Some iphash \<and> cu_Role u = RoleAdmin
          \<longrightarrow> LoginIP cl = [] \<or> LoginIP cl = iphash c)"

lemma clear_session_simps [simp]:
  "g_keys (clear_session c) = g_keys c" "g_log (clear_session c) = g_log c"
  "g_header (clear_session c) = g_header c"
  "s_vals (g_sess (clear_session c)) = Map.empty"
  "s_fault (g_sess (clear_session c)) = s_fault (g_sess c)"
  by (simp_all add: clear_session_def)

lemma clear_session_saved:
  "s_fault (g_sess c) = None \<Longrightarrow> s_saved (g_sess (clear_session c)) = Map.empty"
  by (simp add: clear_session_def Clear_saved)

text \<open>The four ways \<open>resolve\<close> ends.\<close>

lemma resolve_cases:
  obtains (granted) u cl where "resolve now a c = (Some u, failNone, c)"
      "Read (g_sess c) = Some cl" "valid_claims now a c cl u"
  | (anonymous) "resolve now a c = (None, failNoSession, c)" "Read (g_sess c) = None"
  | (rejected) fail cl where "resolve now a c = (None, fail, clear_session c)"
      "fail \<notin> {failNone, failNoSession}" "Read (g_sess c) = Some cl" "\<nexists>u. valid_claims now a c cl u"
proof (cases "Read (g_sess c)")
  case None
  then show ?thesis using anonymous by (simp add: resolve_def)
next
  case (Some cl)
  obtain uo changed ok where r: "a_Resolve a (UserID cl) = (uo, changed, ok)"
    using prod_cases3 by blast
  show ?thesis
  proof (cases "\<exists>u. valid_claims now a c cl u")
    case True
    then obtain u where u: "valid_claims now a c cl u" by blast
    then have "resolve now a c = (Some u, failNone, c)" using Some r
      by (auto simp: resolve_def valid_claims_def split: option.splits)
    with granted Some u show ?thesis by blast
  next
    case False
    then have "\<exists>fail. resolve now a c = (None, fail, clear_session c) \<and> fail \<notin> {failNone, failNoSession}"
      using Some r by (auto simp: resolve_def valid_claims_def split: option.splits)
    with rejected Some False show ?thesis by blast
  qed
qed

lemma resolve_granted_iff:
  "fst (snd (resolve now a c)) = failNone \<longleftrightarrow>
     (\<exists>cl u. Read (g_sess c) = Some cl \<and> valid_claims now a c cl u)"
  by (cases rule: resolve_cases [of now a c]) auto

lemma resolve_granted:
  "Read (g_sess c) = Some cl \<Longrightarrow> valid_claims now a c cl u \<Longrightarrow> resolve now a c = (Some u, failNone, c)"
  by (cases rule: resolve_cases [of now a c]) (auto simp: valid_claims_def)

lemma resolve_frame [frame]:
  "g_log (snd (snd (resolve now a c))) = g_log c" "g_keys (snd (snd (resolve now a c))) = g_keys c"
  "g_header (snd (snd (resolve now a c))) = g_header c"
  by (cases rule: resolve_cases [of now a c]; simp)+

lemma enrich_simps [simp]:
  "g_sess (enrich a u c) = g_sess c" "g_keys (enrich a u c) = g_keys c"
  "g_log (enrich a u c) = g_log c @ (if a_Enrich a then [CEnrich u] else [])"
  by (simp_all add: enrich_def)

lemma set_user_simps [simp]:
  "g_sess (set_user u c) = g_sess c" "g_log (set_user u c) = g_log c"
  "g_keys (set_user u c) ctxUser = Some (VUser u)"
  by (simp_all add: set_user_def ctxUser_def)

text \<open>What a gate lets through, and what it leaves on the context.\<close>

definition passes :: "(gctx \<Rightarrow> gctx) \<Rightarrow> gctx \<Rightarrow> bool" where
  "passes h c \<longleftrightarrow> CNext \<in> set (calls_since c (h c))"

definition rejections :: "gctx \<Rightarrow> gctx \<Rightarrow> nat" where
  "rejections c c' =
     length (filter (\<lambda>x. case x of CAbortJSON _ _ \<Rightarrow> True | CRedirect _ _ \<Rightarrow> True | _ \<Rightarrow> False)
       (calls_since c c'))"

lemma Require_granted:
  "resolve now a c = (Some u, failNone, c) \<Longrightarrow>
     Require now a r c = (if cu_Role u < r then call (CAbortJSON 403 ''insufficient role'') c
                          else call CNext (enrich a u (set_user u c)))"
  by (simp add: Require_def)

lemma Require_refused:
  "resolve now a c = (None, fail, c') \<Longrightarrow>
     Require now a r c = (if wantsHTML c' then call CAbort (call (CRedirect 303 (login a @ loginQuery fail)) c')
                          else call (CAbortJSON 401 ''log in first'') c')"
  by (simp add: Require_def)

lemma RequireExact_granted:
  "resolve now a c = (Some u, failNone, c) \<Longrightarrow>
     RequireExact now a r c = (if cu_Role u \<noteq> r then call (CAbortJSON 403 ''wrong role'') c
                               else call CNext (c_Set ctxUser (VUser u) c))"
  by (simp add: RequireExact_def)

lemma RequireExact_refused:
  "resolve now a c = (None, fail, c') \<Longrightarrow>
     RequireExact now a r c = call (CAbortJSON 403 ''wrong role'') c'"
  by (simp add: RequireExact_def)

lemmas gate_eqs = Require_granted Require_refused RequireExact_granted RequireExact_refused

lemma Require_passes_iff:
  "passes (Require now a r) c \<longleftrightarrow>
     (\<exists>cl u. Read (g_sess c) = Some cl \<and> valid_claims now a c cl u \<and> r \<le> cu_Role u)"
  by (cases rule: resolve_cases [of now a c])
    (auto simp: passes_def calls_since_def gate_eqs valid_claims_def)

lemma RequireExact_passes_iff:
  "passes (RequireExact now a r) c \<longleftrightarrow>
     (\<exists>cl u. Read (g_sess c) = Some cl \<and> valid_claims now a c cl u \<and> cu_Role u = r)"
  by (cases rule: resolve_cases [of now a c])
    (auto simp: passes_def calls_since_def gate_eqs valid_claims_def)

definition ex_user :: "int \<Rightarrow> role \<Rightarrow> core_user" where
  "ex_user i r = \<lparr>cu_ID = i, cu_Username = ''bob'', cu_Email = [], cu_Role = r, cu_CreatedAt = 1\<rparr>"

definition ex_auth :: "role \<Rightarrow> int \<Rightarrow> auth" where
  "ex_auth r changed =
     \<lparr>a_Session = \<lparr>Secret = ''k'', Name = [], MaxAge = 0, Secure = False, RedisAddr = [],
        RedisPassword = [], RedisDB = 0\<rparr>,
      a_Resolve = (\<lambda>i. if i = 7 then (Some (ex_user 7 r), changed, True) else (None, 0, False)),
      a_LoginPath = [], a_IPHash = Some (\<lambda>_. ''h''), a_Enrich = False\<rparr>"

definition empty_sess :: sess where
  "empty_sess = \<lparr>s_vals = Map.empty, s_saved = Map.empty, s_fault = None\<rparr>"

section \<open>Properties\<close>

text \<open>
  The life of a login. After a successful \<open>Issue\<close> at \<open>t0\<close> the client's requests are accepted
  at \<open>t1\<close> exactly while the session is no older than the configured age, the resolver still knows
  the user, the user's password stamp has not advanced past the stamped one, and an admin under IP
  pinning comes from the stamped address; they are accepted as that user.
\<close>

theorem login_lifetime:
  assumes "s_fault s = None" and "g_sess c = next_request (snd (Issue t0 uid ip pw s))"
    and "uid \<noteq> 0" and "0 < Unix t0" and "Unix t0 \<le> t1" and "t1 < 2 ^ 63"
  shows "resolve t1 a c = (Some u, failNone, c) \<longleftrightarrow>
    t1 - Unix t0 \<le> dur_int Second (MaxAgeD (a_Session a))
    \<and> (\<exists>changed. a_Resolve a uid = (Some u, changed, True) \<and> (changed = 0 \<or> changed \<le> pw))
    \<and> (\<forall>iphash. a_IPHash a = Some iphash \<and> cu_Role u = RoleAdmin \<longrightarrow> ip = [] \<or> ip = iphash c)"
    (is "?granted \<longleftrightarrow> ?valid")
proof -
  have cl: "Read (g_sess c) =
      Some \<lparr>UserID = uid, LoginAt = Unix t0, LoginIP = ip, PasswordChangedAt = pw\<rparr>" (is "_ = Some ?cl")
    using assms(1-3) Issue_saved [OF assms(1)] by (simp add: Read_next_request Read_Issue)
  have "i64 (t1 - Unix t0) = t1 - Unix t0"
    using assms(4-6) by (simp add: i64_ok_def)
  with assms(4) have "valid_claims t1 a c ?cl u \<longleftrightarrow> ?valid" by (simp add: valid_claims_def)
  moreover have "?granted \<longleftrightarrow> valid_claims t1 a c ?cl u"
    using resolve_granted [OF cl] cl by (cases rule: resolve_cases [of t1 a c]) (auto simp: valid_claims_def)
  ultimately show ?thesis by simp
qed

theorem login_lifetime_witness:
  "resolve 1700604800 (ex_auth RoleAdmin 5) (fresh_ctx (next_request
     (snd (Issue 63835596800000000000 7 ''h'' 5 empty_sess))))
   = (Some (ex_user 7 RoleAdmin), failNone, fresh_ctx (next_request
     (snd (Issue 63835596800000000000 7 ''h'' 5 empty_sess))))"
proof -
  have "Unix 63835596800000000000 = 1700000000" by (simp add: Unix_def unix_epoch_def)
  then show ?thesis
    by (subst login_lifetime [where s = empty_sess and ip = "''h''" and uid = 7 and pw = 5
          and ?t0.0 = "63835596800000000000"])
      (simp_all add: empty_sess_def ex_auth_def fresh_ctx_def MaxAgeD_default)
qed

text \<open>
  C28. A rejected session does not come back, and nothing else touches a session. The chain accepts a
  session (\<open>failNone\<close>) exactly when it hands a user on; an accepted request and an anonymous one (\<open>failNoSession\<close>)
  leave the context as it was. Every other outcome is a session that carried a user id and failed a
  check: it is wiped, and when the store accepts the save, the next request of that client is
  anonymous, at any later time and under any configuration.
\<close>

theorem rejection_clears_session:
  assumes "resolve now a c = (u, fail, c')"
  shows "(fail = failNone \<longleftrightarrow> u \<noteq> None) \<and> (fail = failNoSession \<longleftrightarrow> Read (g_sess c) = None)
    \<and> (fail = failNone \<or> fail = failNoSession \<longrightarrow> c' = c)
    \<and> (fail \<noteq> failNone \<and> fail \<noteq> failNoSession \<longrightarrow> c' = c\<lparr>g_sess := snd (Clear (g_sess c))\<rparr>
        \<and> (s_fault (g_sess c) = None \<and> g_sess c2 = next_request (g_sess c') \<longrightarrow>
             resolve now2 a2 c2 = (None, failNoSession, c2)))"
proof (cases rule: resolve_cases [of now a c])
  case (rejected fail' cl)
  with assms have c': "c' = clear_session c" "u = None" "fail' = fail" by auto
  have "resolve now2 a2 c2 = (None, failNoSession, c2)"
    if "s_fault (g_sess c) = None" "g_sess c2 = next_request (g_sess c')"
  proof -
    have "s_vals (g_sess c2) = Map.empty"
      using clear_session_saved [OF that(1)] that(2) by (simp add: c'(1) next_request_def)
    then have "Read (g_sess c2) = None" by simp
    then show ?thesis by (simp add: resolve_def)
  qed
  with rejected c' show ?thesis by (auto simp: clear_session_def)
qed (use assms in auto)

theorem rejection_clears_session_witness:
  "resolve 1700000001 (ex_auth RoleUser 5) (fresh_ctx (snd (Issue 63835596800000000000 7 ''h'' 5 empty_sess)))
      \<noteq> (None, failNoSession, fresh_ctx (snd (Issue 63835596800000000000 7 ''h'' 5 empty_sess)))
   \<and> resolve 9 (ex_auth RoleUser 6) (fresh_ctx (next_request (snd (Clear (g_sess (fresh_ctx
      (snd (Issue 63835596800000000000 7 ''h'' 5 empty_sess))))))))
   = (None, failNoSession, fresh_ctx (next_request (snd (Clear (g_sess (fresh_ctx
      (snd (Issue 63835596800000000000 7 ''h'' 5 empty_sess))))))))"
proof -
  let ?c = "fresh_ctx (snd (Issue 63835596800000000000 7 ''h'' 5 empty_sess))"
  have u: "Unix 63835596800000000000 = 1700000000" by (simp add: Unix_def unix_epoch_def)
  have rd: "Read (g_sess ?c) = Some \<lparr>UserID = 7, LoginAt = 1700000000, LoginIP = ''h'', PasswordChangedAt = 5\<rparr>"
    by (simp add: fresh_ctx_def Read_Issue u)
  then have r: "resolve 1700000001 (ex_auth RoleUser 6) ?c = (None, failPasswordChanged, clear_session ?c)"
    by (simp add: resolve_def ex_auth_def MaxAgeD_default i64_def)
  have "g_sess (clear_session ?c) = snd (Clear (g_sess ?c))"
    by (simp add: clear_session_def)
  moreover have "resolve 1700000001 (ex_auth RoleUser 5) ?c \<noteq> (None, failNoSession, ?c)"
    using rejection_clears_session [of 1700000001 "ex_auth RoleUser 5" ?c None failNoSession ?c] rd by auto
  ultimately show ?thesis
    using rejection_clears_session [OF r, of "fresh_ctx (next_request (snd (Clear (g_sess ?c))))" 9 "ex_auth RoleUser 6"]
    by (simp add: fresh_ctx_def empty_sess_def)
qed

text \<open>
  C6. The gates admit exactly whom they should. \<open>Require\<close> lets a request on iff its session is
  valid for a user of at least the given role, \<open>RequireExact\<close> iff of exactly that role, \<open>Soft\<close>
  always; a request that is not let on gets exactly one rejecting response, one that is gets none.
\<close>

theorem gates_admit_exactly:
  shows "(passes (Require now a r) c \<longleftrightarrow>
      (\<exists>cl u. Read (g_sess c) = Some cl \<and> valid_claims now a c cl u \<and> r \<le> cu_Role u))
    \<and> (passes (RequireExact now a r) c \<longleftrightarrow>
      (\<exists>cl u. Read (g_sess c) = Some cl \<and> valid_claims now a c cl u \<and> cu_Role u = r))
    \<and> rejections c (Require now a r c) = (if passes (Require now a r) c then 0 else 1)
    \<and> rejections c (RequireExact now a r c) = (if passes (RequireExact now a r) c then 0 else 1)
    \<and> passes (Soft now a) c \<and> rejections c (Soft now a c) = 0"
  unfolding Require_passes_iff [symmetric] RequireExact_passes_iff [symmetric]
  by (cases rule: resolve_cases [of now a c])
    (auto simp: passes_def rejections_def calls_since_def gate_eqs Soft_def)

text \<open>
  A user that a gate resolved is the request's user: after \<open>Require\<close> or \<open>RequireExact\<close> let a
  request on, \<open>Current\<close> returns a user of the demanded role without running the chain again, so
  with the same answer under any later clock and configuration and with the session untouched.
\<close>

theorem Current_after_gate:
  assumes "gate = Require now a r \<or> gate = RequireExact now a r" and "passes gate c"
  shows "\<exists>u. r \<le> cu_Role u \<and> resolve now a c = (Some u, failNone, c)
    \<and> Current now2 a2 (gate c) = (Some u, True, gate c)"
  using assms
  by (cases rule: resolve_cases [of now a c])
    (auto simp: passes_def calls_since_def gate_eqs Current_def split: if_splits)

theorem Current_after_gate_witness:
  "\<exists>u. RoleMod \<le> cu_Role u
    \<and> Current 0 (ex_auth RoleUser 9) (Require 1700000009 (ex_auth RoleAdmin 5) RoleMod
        (fresh_ctx (snd (Issue 63835596800000000000 7 ''h'' 5 empty_sess))))
      = (Some u, True, Require 1700000009 (ex_auth RoleAdmin 5) RoleMod
        (fresh_ctx (snd (Issue 63835596800000000000 7 ''h'' 5 empty_sess))))"
proof -
  let ?c = "fresh_ctx (snd (Issue 63835596800000000000 7 ''h'' 5 empty_sess))"
  have u: "Unix 63835596800000000000 = 1700000000" by (simp add: Unix_def unix_epoch_def)
  have r: "Read (g_sess ?c) = Some \<lparr>UserID = 7, LoginAt = 1700000000, LoginIP = ''h'', PasswordChangedAt = 5\<rparr>"
    by (simp add: fresh_ctx_def Read_Issue u)
  have "passes (Require 1700000009 (ex_auth RoleAdmin 5) RoleMod) ?c"
    unfolding Require_passes_iff r
    by (simp add: valid_claims_def ex_auth_def ex_user_def MaxAgeD_default i64_def)
  with Current_after_gate [of "Require 1700000009 (ex_auth RoleAdmin 5) RoleMod", OF disjI1 [OF refl]]
  show ?thesis by blast
qed

end
