(* ===== verification/Pg.thy ===== *)
theory Pg
  imports GoNum
begin

text \<open>
  The Postgres reference stores run one SQL statement at a time on a table. A table is a list of
  rows with its serial counter and the database clock; \<open>pg_pos\<close> is the physical position of a row,
  so a query without a complete ORDER BY sees the rows in an order the code does not control.
  \<open>pg_script\<close> says how the next statements end: executed, failed before any effect, or executed
  with the reply lost, so that the caller sees an error although the effect is there. A store
  operation is the meaning of its statement wrapped in \<open>stmt\<close>.
\<close>

section \<open>Tables and statements\<close>

datatype outcome = Done | Failed string | Lost string

record 'r pg =
  pg_rows :: "'r list"
  pg_next :: int
  pg_now :: time
  pg_pos :: "'r \<Rightarrow> nat"
  pg_script :: "outcome list"

definition pg_scan :: "'r pg \<Rightarrow> 'r list" where
  "pg_scan db = sort_key (pg_pos db) (pg_rows db)"

definition stmt :: "('r pg, 'a) call \<Rightarrow> ('r pg, 'a) call" where
  "stmt body db =
     (case pg_script db of
        [] \<Rightarrow> body db
      | Done # os \<Rightarrow> body (db\<lparr>pg_script := os\<rparr>)
      | Failed e # os \<Rightarrow> (Inl (Foreign e), db\<lparr>pg_script := os\<rparr>)
      | Lost e # os \<Rightarrow> (Inl (Foreign e), snd (body (db\<lparr>pg_script := os\<rparr>))))"

text \<open>\<open>QueryRow(...).Scan\<close> of the first row that satisfies the WHERE clause.\<close>

definition query_row :: "('r \<Rightarrow> bool) \<Rightarrow> ('r pg, 'r) call" where
  "query_row P = stmt (\<lambda>db. (case find P (pg_scan db) of
                               None \<Rightarrow> Inl (Sentinel Sql_ErrNoRows) | Some r \<Rightarrow> Inr r, db))"

text \<open>UPDATE and DELETE of the rows that satisfy the WHERE clause.\<close>

definition exec_update :: "('r \<Rightarrow> bool) \<Rightarrow> ('r \<Rightarrow> 'r) \<Rightarrow> ('r pg, unit) call" where
  "exec_update P f = stmt (\<lambda>db. (Inr (), db\<lparr>pg_rows := map (\<lambda>r. if P r then f r else r) (pg_rows db)\<rparr>))"

definition exec_delete :: "('r \<Rightarrow> bool) \<Rightarrow> ('r pg, unit) call" where
  "exec_delete P = stmt (\<lambda>db. (Inr (), db\<lparr>pg_rows := filter (\<lambda>r. \<not> P r) (pg_rows db)\<rparr>))"

text \<open>What a column of type INT takes.\<close>

definition i32_ok :: "int \<Rightarrow> bool" where
  "i32_ok x \<longleftrightarrow> - (2 ^ 31) \<le> x \<and> x < 2 ^ 31"

text \<open>A table of a database that answers every statement.\<close>

definition healthy :: "'r pg \<Rightarrow> bool" where
  "healthy db \<longleftrightarrow> list_all (\<lambda>x. x = Done) (pg_script db)"

definition pg_table :: "'r list \<Rightarrow> int \<Rightarrow> time \<Rightarrow> 'r pg" where
  "pg_table rows n now =
     \<lparr>pg_rows = rows, pg_next = n, pg_now = now, pg_pos = (\<lambda>_. 0), pg_script = []\<rparr>"

lemma healthy_table [simp]: "healthy (pg_table rows n now)"
  by (simp add: healthy_def pg_table_def)

lemma set_scan [simp]: "set (pg_scan db) = set (pg_rows db)"
  by (simp add: pg_scan_def)

lemma length_scan [simp]: "length (pg_scan db) = length (pg_rows db)"
  by (simp add: pg_scan_def)

lemma find_scan_None: "find P (pg_scan db) = None \<longleftrightarrow> (\<forall>r\<in>set (pg_rows db). \<not> P r)"
  using find_None_iff [of P "pg_scan db"] by auto

lemma find_scan_Some: "find P (pg_scan db) = Some r \<Longrightarrow> r \<in> set (pg_rows db) \<and> P r"
  using find_Some_props [of P "pg_scan db" r] by simp

lemma find_scan_unique:
  assumes "r \<in> set (pg_rows db)" "P r" "\<And>x. x \<in> set (pg_rows db) \<Longrightarrow> P x \<Longrightarrow> x = r"
  shows "find P (pg_scan db) = Some r"
proof (cases "find P (pg_scan db)")
  case None
  with assms(1,2) show ?thesis by (auto simp: find_scan_None)
next
  case (Some x)
  then show ?thesis using find_scan_Some [OF Some] assms(3) by auto
qed

section \<open>Reasoning about statements\<close>

lemma pg_script_same [simp]: "pg_script db = os \<Longrightarrow> db\<lparr>pg_script := os\<rparr> = db"
  by (cases db) simp

text \<open>How a statement can end.\<close>

lemma stmt_cases:
  assumes "stmt body db = (r, db')"
  obtains (executed) os where "(r, db') = body (db\<lparr>pg_script := os\<rparr>)"
  | (failed) os e where "r = Inl (Foreign e)" "db' = db\<lparr>pg_script := os\<rparr>"
  | (lost) os e where "r = Inl (Foreign e)" "db' = snd (body (db\<lparr>pg_script := os\<rparr>))"
proof (cases "pg_script db")
  case Nil
  with assms show ?thesis using executed [of "[]"] by (simp add: stmt_def)
next
  case (Cons x os)
  show ?thesis
  proof (cases x)
    case Done
    with Cons assms show ?thesis using executed [of os] by (simp add: stmt_def)
  next
    case (Failed e)
    with Cons assms show ?thesis using failed [of e os] by (simp add: stmt_def)
  next
    case (Lost e)
    with Cons assms show ?thesis using lost [of e os] by (simp add: stmt_def)
  qed
qed

text \<open>
  To show something of a statement's result: show it of every execution of the body, of a failure
  without effect, and that it survives the loss of the reply.
\<close>

lemma stmt_rule:
  assumes "stmt body db = (r, db')"
    and "\<And>os q d. body (db\<lparr>pg_script := os\<rparr>) = (q, d) \<Longrightarrow> P q d"
    and "\<And>os e. P (Inl (Foreign e)) (db\<lparr>pg_script := os\<rparr>)"
    and "\<And>q d e. P q d \<Longrightarrow> P (Inl (Foreign e)) d"
  shows "P r db'"
  using assms(1)
proof (cases rule: stmt_cases)
  case (executed os)
  then show ?thesis using assms(2) by metis
next
  case (failed os e)
  then show ?thesis using assms(3) by simp
next
  case (lost os e)
  then show ?thesis using assms(2,4) by (metis prod.collapse)
qed

definition next_stmt :: "'r pg \<Rightarrow> 'r pg" where
  "next_stmt db = db\<lparr>pg_script := tl (pg_script db)\<rparr>"

lemma next_stmt_simps [simp]:
  "pg_rows (next_stmt db) = pg_rows db" "pg_next (next_stmt db) = pg_next db"
  "pg_now (next_stmt db) = pg_now db" "pg_pos (next_stmt db) = pg_pos db"
  "pg_scan (next_stmt db) = pg_scan db" "healthy db \<Longrightarrow> healthy (next_stmt db)"
  by (simp_all add: next_stmt_def pg_scan_def healthy_def) (metis list.pred_inject(2) list.collapse list.sel(2))

lemma healthy_upd [simp]:
  "healthy (db\<lparr>pg_rows := rs\<rparr>) = healthy db" "healthy (db\<lparr>pg_next := n\<rparr>) = healthy db"
  "healthy (db\<lparr>pg_now := t\<rparr>) = healthy db"
  by (simp_all add: healthy_def)

text \<open>A database that answers executes every statement.\<close>

lemma stmt_healthy: "healthy db \<Longrightarrow> stmt body db = body (next_stmt db)"
  by (cases "pg_script db") (auto simp: healthy_def stmt_def next_stmt_def)

text \<open>What every execution of the body keeps, the statement keeps.\<close>

lemma stmt_invariant:
  assumes "\<And>db os. I db \<Longrightarrow> I (db\<lparr>pg_script := os\<rparr>)" and "\<And>db. I db \<Longrightarrow> I (snd (body db))" and "I db"
  shows "I (snd (stmt body db))"
  using assms by (auto simp: stmt_def split: list.splits outcome.splits)

lemma query_row_state [frame]:
  "pg_rows (snd (query_row P db)) = pg_rows db" "pg_next (snd (query_row P db)) = pg_next db"
  "pg_now (snd (query_row P db)) = pg_now db" "pg_pos (snd (query_row P db)) = pg_pos db"
  by (simp_all add: query_row_def stmt_def split: list.splits outcome.splits)

lemma query_row_result:
  "query_row P db = (Inr r, db') \<Longrightarrow> r \<in> set (pg_rows db) \<and> P r"
  "query_row P db = (Inl (Sentinel Sql_ErrNoRows), db') \<Longrightarrow> \<forall>r\<in>set (pg_rows db). \<not> P r"
proof -
  assume "query_row P db = (Inr r, db')"
  then show "r \<in> set (pg_rows db) \<and> P r"
    unfolding query_row_def
    by (cases rule: stmt_cases) (auto split: option.splits dest: find_scan_Some)
next
  assume "query_row P db = (Inl (Sentinel Sql_ErrNoRows), db')"
  then show "\<forall>r\<in>set (pg_rows db). \<not> P r"
    unfolding query_row_def
    by (cases rule: stmt_cases) (auto split: option.splits simp: find_scan_None)
qed

lemma query_row_error:
  "query_row P db = (Inl e, db') \<Longrightarrow> e = Sentinel Sql_ErrNoRows \<or> (\<exists>m. e = Foreign m)"
  unfolding query_row_def
  by (erule stmt_cases) (auto split: option.splits)

lemma query_row_healthy:
  "healthy db \<Longrightarrow> query_row P db =
     (case find P (pg_scan db) of None \<Rightarrow> Inl (Sentinel Sql_ErrNoRows) | Some r \<Rightarrow> Inr r, next_stmt db)"
  by (simp add: query_row_def stmt_healthy)

lemma exec_update_result:
  assumes "exec_update P f db = (r, db')"
  shows "pg_next db' = pg_next db" "pg_now db' = pg_now db" "pg_pos db' = pg_pos db"
    and "pg_rows db' = pg_rows db \<or> pg_rows db' = map (\<lambda>r. if P r then f r else r) (pg_rows db)"
    and "r = Inr u \<Longrightarrow> pg_rows db' = map (\<lambda>r. if P r then f r else r) (pg_rows db)"
  using assms unfolding exec_update_def
  by (auto simp: stmt_def split: list.splits outcome.splits)

lemma exec_update_healthy:
  "healthy db \<Longrightarrow> exec_update P f db =
     (Inr (), (next_stmt db)\<lparr>pg_rows := map (\<lambda>r. if P r then f r else r) (pg_rows db)\<rparr>)"
  by (simp add: exec_update_def stmt_healthy)

lemma exec_delete_healthy:
  "healthy db \<Longrightarrow> exec_delete P db =
     (Inr (), (next_stmt db)\<lparr>pg_rows := filter (\<lambda>r. \<not> P r) (pg_rows db)\<rparr>)"
  by (simp add: exec_delete_def stmt_healthy)

end
