(* ===== verification/Users.thy ===== *)
theory Users
  imports Pg Gin
begin

text \<open>
  users/users.go and users/pgstore.go: the host-side user record, its projection to the core
  package's user, the store interface as a record of operations, and the Postgres reference store
  over a table of users. \<open>lower\<close> is the case folding of the database's collation. The locale
  \<open>users_store\<close> states what the account flows rely on of any store; it is interpreted on the
  Postgres store.
\<close>

section \<open>Users and the store interface\<close>

record user =
  u_ID :: int
  u_Username :: string
  u_Email :: string
  u_PasswordHash :: string
  u_Role :: role
  u_EmailVerified :: bool
  u_CreatedAt :: time

fun ToCore :: "user option \<Rightarrow> core_user option" where
  "ToCore None = None"
| "ToCore (Some u) = Some \<lparr>cu_ID = u_ID u, cu_Username = u_Username u, cu_Email = u_Email u,
     cu_Role = u_Role u, cu_CreatedAt = u_CreatedAt u\<rparr>"

record 's users_ops =
  us_Create :: "user \<Rightarrow> ('s, int) call"
  us_ByID :: "int \<Rightarrow> ('s, user) call"
  us_ByUsername :: "string \<Rightarrow> ('s, user) call"
  us_ByEmail :: "string \<Rightarrow> ('s, user) call"
  us_IDByName :: "string \<Rightarrow> ('s, int) call"
  us_UpdatePasswordHash :: "int \<Rightarrow> string \<Rightarrow> ('s, unit) call"
  us_SetRole :: "int \<Rightarrow> role \<Rightarrow> ('s, unit) call"
  us_SetEmailVerified :: "int \<Rightarrow> bool \<Rightarrow> ('s, unit) call"
  us_List :: "int \<Rightarrow> int \<Rightarrow> ('s, user list \<times> int) call"

section \<open>The Postgres store\<close>

type_synonym users_db = "user pg"

fun scanUser :: "gerr + user \<Rightarrow> gerr + user" where
  "scanUser (Inl err) = (if err = Sentinel Sql_ErrNoRows then Inl (Sentinel Users_ErrNotFound) else Inl err)"
| "scanUser (Inr u) = Inr u"

definition Create :: "user \<Rightarrow> (users_db, int) call" where
  "Create u = stmt (\<lambda>db.
     let id = pg_next db;
         row = \<lparr>u_ID = id, u_Username = u_Username u, u_Email = u_Email u,
                u_PasswordHash = u_PasswordHash u, u_Role = u_Role u, u_EmailVerified = False,
                u_CreatedAt = pg_now db\<rparr>
     in if \<not> i32_ok (u_Role u) then (Inl (Foreign ''value is out of range for type integer''), db)
        else if u_Username u \<in> u_Username ` set (pg_rows db)
        then (Inl (Foreign ''duplicate key value violates unique constraint''), db\<lparr>pg_next := id + 1\<rparr>)
        else (Inr id, db\<lparr>pg_rows := pg_rows db @ [row], pg_next := id + 1\<rparr>))"

definition ByID :: "int \<Rightarrow> (users_db, user) call" where
  "ByID uid db = (case query_row (\<lambda>u. u_ID u = uid) db of (r, db) \<Rightarrow> (scanUser r, db))"

definition ByUsername :: "(string \<Rightarrow> string) \<Rightarrow> string \<Rightarrow> (users_db, user) call" where
  "ByUsername lower username db =
     (case query_row (\<lambda>u. lower (u_Username u) = lower username) db of (r, db) \<Rightarrow> (scanUser r, db))"

definition ByEmail :: "(string \<Rightarrow> string) \<Rightarrow> string \<Rightarrow> (users_db, user) call" where
  "ByEmail lower email db =
     (case query_row (\<lambda>u. u_Email u \<noteq> [] \<and> lower (u_Email u) = lower email) db of
        (r, db) \<Rightarrow> (scanUser r, db))"

definition IDByName :: "(string \<Rightarrow> string) \<Rightarrow> string \<Rightarrow> (users_db, int) call" where
  "IDByName lower username db =
     (case query_row (\<lambda>u. lower (u_Username u) = lower username) db of
        (Inl err, db) \<Rightarrow>
          (if err = Sentinel Sql_ErrNoRows then Inl (Sentinel Users_ErrNotFound) else Inl err, db)
      | (Inr u, db) \<Rightarrow> (Inr (u_ID u), db))"

definition UpdatePasswordHash :: "int \<Rightarrow> string \<Rightarrow> (users_db, unit) call" where
  "UpdatePasswordHash uid hash = exec_update (\<lambda>u. u_ID u = uid) (\<lambda>u. u\<lparr>u_PasswordHash := hash\<rparr>)"

definition SetRole :: "int \<Rightarrow> role \<Rightarrow> (users_db, unit) call" where
  "SetRole uid r =
     (if i32_ok r then exec_update (\<lambda>u. u_ID u = uid) (\<lambda>u. u\<lparr>u_Role := r\<rparr>)
      else stmt (\<lambda>db. (Inl (Foreign ''value is out of range for type integer''), db)))"

definition SetEmailVerified :: "int \<Rightarrow> bool \<Rightarrow> (users_db, unit) call" where
  "SetEmailVerified uid v = exec_update (\<lambda>u. u_ID u = uid) (\<lambda>u. u\<lparr>u_EmailVerified := v\<rparr>)"

definition List :: "int \<Rightarrow> int \<Rightarrow> (users_db, user list \<times> int) call" where
  "List offset limit db =
     (let limit = (if limit \<le> 0 \<or> limit > 500 then 50 else limit);
          offset = (if offset < 0 then 0 else offset)
      in case stmt (\<lambda>db. (Inr (int (length (pg_rows db))), db)) db of
           (Inl err, db) \<Rightarrow> (Inl err, db)
         | (Inr count, db) \<Rightarrow>
             (case stmt (\<lambda>db. (Inr (take (nat limit) (drop (nat offset) (sort_key u_ID (pg_scan db)))), db)) db of
                (Inl err, db) \<Rightarrow> (Inl err, db)
              | (Inr out, db) \<Rightarrow> (Inr (out, count), db)))"

definition PGStore :: "(string \<Rightarrow> string) \<Rightarrow> users_db users_ops" where
  "PGStore lower =
     \<lparr>us_Create = Create, us_ByID = ByID, us_ByUsername = ByUsername lower,
      us_ByEmail = ByEmail lower, us_IDByName = IDByName lower,
      us_UpdatePasswordHash = UpdatePasswordHash, us_SetRole = SetRole,
      us_SetEmailVerified = SetEmailVerified, us_List = List\<rparr>"

section \<open>The contract of a user store\<close>

text \<open>
  \<open>tbl\<close> reads the store's state as a map from ids to users. A lookup returns a stored user that
  matches, or \<open>ErrNotFound\<close> only when there is none; a failed update may or may not have happened
  (its reply can get lost), a reported success has.
\<close>

locale users_store =
  fixes S :: "'s users_ops"
    and lower :: "string \<Rightarrow> string"
    and tbl :: "'s \<Rightarrow> int \<Rightarrow> user option"
    and inv :: "'s \<Rightarrow> bool"
  assumes tbl_ID: "inv s \<Longrightarrow> tbl s i = Some u \<Longrightarrow> u_ID u = i"
    and ByID_state: "inv s \<Longrightarrow> us_ByID S i s = (r, s') \<Longrightarrow> inv s' \<and> tbl s' = tbl s"
    and ByID_found: "inv s \<Longrightarrow> us_ByID S i s = (Inr u, s') \<Longrightarrow> tbl s i = Some u"
    and ByUsername_state: "inv s \<Longrightarrow> us_ByUsername S n s = (r, s') \<Longrightarrow> inv s' \<and> tbl s' = tbl s"
    and ByUsername_found: "inv s \<Longrightarrow> us_ByUsername S n s = (Inr u, s') \<Longrightarrow>
      tbl s (u_ID u) = Some u \<and> lower (u_Username u) = lower n"
    and ByUsername_none: "inv s \<Longrightarrow> us_ByUsername S n s = (Inl e, s') \<Longrightarrow>
      errors_Is e (Sentinel Users_ErrNotFound) \<Longrightarrow> tbl s i = Some u \<Longrightarrow> lower (u_Username u) \<noteq> lower n"
    and ByEmail_state: "inv s \<Longrightarrow> us_ByEmail S m s = (r, s') \<Longrightarrow> inv s' \<and> tbl s' = tbl s"
    and ByEmail_found: "inv s \<Longrightarrow> us_ByEmail S m s = (Inr u, s') \<Longrightarrow>
      tbl s (u_ID u) = Some u \<and> u_Email u \<noteq> [] \<and> lower (u_Email u) = lower m"
    and ByEmail_none: "inv s \<Longrightarrow> us_ByEmail S m s = (Inl e, s') \<Longrightarrow>
      errors_Is e (Sentinel Users_ErrNotFound) \<Longrightarrow> tbl s i = Some u \<Longrightarrow> u_Email u \<noteq> [] \<Longrightarrow>
      lower (u_Email u) \<noteq> lower m"
    and Create_ok: "inv s \<Longrightarrow> us_Create S u s = (Inr i, s') \<Longrightarrow>
      inv s' \<and> tbl s i = None \<and> (\<exists>t. tbl s' = (tbl s)(i \<mapsto> u\<lparr>u_ID := i, u_EmailVerified := False, u_CreatedAt := t\<rparr>))"
    and Create_err: "inv s \<Longrightarrow> us_Create S u s = (Inl e, s') \<Longrightarrow>
      inv s' \<and> (tbl s' = tbl s \<or> (\<exists>i t. tbl s i = None \<and>
        tbl s' = (tbl s)(i \<mapsto> u\<lparr>u_ID := i, u_EmailVerified := False, u_CreatedAt := t\<rparr>)))"
    and UpdatePasswordHash_ok: "inv s \<Longrightarrow> us_UpdatePasswordHash S i h s = (Inr (), s') \<Longrightarrow>
      inv s' \<and> tbl s' = (tbl s)(i := map_option (u_PasswordHash_update (\<lambda>_. h)) (tbl s i))"
    and UpdatePasswordHash_err: "inv s \<Longrightarrow> us_UpdatePasswordHash S i h s = (Inl e, s') \<Longrightarrow>
      inv s' \<and> (tbl s' = tbl s \<or> tbl s' = (tbl s)(i := map_option (u_PasswordHash_update (\<lambda>_. h)) (tbl s i)))"
    and SetEmailVerified_ok: "inv s \<Longrightarrow> us_SetEmailVerified S i v s = (Inr (), s') \<Longrightarrow>
      inv s' \<and> tbl s' = (tbl s)(i := map_option (u_EmailVerified_update (\<lambda>_. v)) (tbl s i))"
    and SetEmailVerified_err: "inv s \<Longrightarrow> us_SetEmailVerified S i v s = (Inl e, s') \<Longrightarrow>
      inv s' \<and> (tbl s' = tbl s \<or> tbl s' = (tbl s)(i := map_option (u_EmailVerified_update (\<lambda>_. v)) (tbl s i)))"
    and SetRole_ok: "inv s \<Longrightarrow> us_SetRole S i ro s = (Inr (), s') \<Longrightarrow>
      inv s' \<and> tbl s' = (tbl s)(i := map_option (u_Role_update (\<lambda>_. ro)) (tbl s i))"
    and SetRole_err: "inv s \<Longrightarrow> us_SetRole S i ro s = (Inl e, s') \<Longrightarrow>
      inv s' \<and> (tbl s' = tbl s \<or> tbl s' = (tbl s)(i := map_option (u_Role_update (\<lambda>_. ro)) (tbl s i)))"
begin

lemmas read_state = ByID_state ByUsername_state ByEmail_state

end

section \<open>The Postgres store keeps the contract\<close>

definition users_inv :: "users_db \<Rightarrow> bool" where
  "users_inv db \<longleftrightarrow> distinct (map u_ID (pg_rows db)) \<and> distinct (map u_Username (pg_rows db))
     \<and> (\<forall>u\<in>set (pg_rows db). u_ID u < pg_next db)"

definition users_tbl :: "users_db \<Rightarrow> int \<Rightarrow> user option" where
  "users_tbl db i = find (\<lambda>u. u_ID u = i) (pg_rows db)"

lemma users_tbl_iff:
  "users_inv db \<Longrightarrow> users_tbl db i = Some u \<longleftrightarrow> u \<in> set (pg_rows db) \<and> u_ID u = i"
proof
  assume "users_tbl db i = Some u"
  then show "u \<in> set (pg_rows db) \<and> u_ID u = i" by (auto simp: users_tbl_def dest: find_Some_props)
next
  assume inv: "users_inv db" and u: "u \<in> set (pg_rows db) \<and> u_ID u = i"
  then have "inj_on u_ID (set (pg_rows db))" by (simp add: users_inv_def distinct_map)
  moreover from u have "users_tbl db i \<noteq> None" by (auto simp: users_tbl_def find_None_iff)
  moreover obtain v where v: "users_tbl db i = Some v" using calculation by blast
  moreover have "v \<in> set (pg_rows db)" "u_ID v = i"
    using v find_Some_props [of "\<lambda>u. u_ID u = i" "pg_rows db" v] by (simp_all add: users_tbl_def)
  ultimately show "users_tbl db i = Some u" using u by (auto simp: inj_on_def)
qed

lemma users_tbl_None: "users_tbl db i = None \<longleftrightarrow> i \<notin> u_ID ` set (pg_rows db)"
  by (auto simp: users_tbl_def find_None_iff)

lemma users_tbl_cong: "pg_rows db' = pg_rows db \<Longrightarrow> users_tbl db' = users_tbl db"
  by (simp add: users_tbl_def fun_eq_iff)

lemma users_inv_cong:
  "pg_rows db' = pg_rows db \<Longrightarrow> pg_next db' = pg_next db \<Longrightarrow> users_inv db' = users_inv db"
  by (simp add: users_inv_def)

lemma users_update:
  assumes "users_inv db" and f: "\<And>u. u_ID (f u) = u_ID u" "\<And>u. u_Username (f u) = u_Username u"
    and rows: "pg_rows db' = map (\<lambda>u. if u_ID u = i then f u else u) (pg_rows db)"
    and "pg_next db' = pg_next db"
  shows "users_inv db' \<and> users_tbl db' = (users_tbl db)(i := map_option f (users_tbl db i))"
proof
  have "map u_ID (pg_rows db') = map u_ID (pg_rows db)"
    "map u_Username (pg_rows db') = map u_Username (pg_rows db)"
    by (auto simp: rows f)
  moreover have "\<forall>u\<in>set (pg_rows db'). u_ID u < pg_next db'"
    using assms(1,5) by (auto simp: rows f users_inv_def)
  ultimately show inv: "users_inv db'" using assms(1) by (simp only: users_inv_def)
  show "users_tbl db' = (users_tbl db)(i := map_option f (users_tbl db i))"
  proof
    fix j
    show "users_tbl db' j = ((users_tbl db)(i := map_option f (users_tbl db i))) j"
    proof (cases "users_tbl db j")
      case None
      moreover from this have "users_tbl db' j = None"
        by (auto simp: users_tbl_None rows f)
      ultimately show ?thesis by auto
    next
      case (Some u)
      then have u: "u \<in> set (pg_rows db)" "u_ID u = j" using users_tbl_iff [OF assms(1)] by auto
      then have "users_tbl db' j = Some (if j = i then f u else u)"
        unfolding users_tbl_iff [OF inv] by (auto simp: rows f)
      with Some show ?thesis by (cases "j = i") auto
    qed
  qed
qed

lemma users_exec_update:
  assumes "users_inv db" and f: "\<And>u. u_ID (f u) = u_ID u" "\<And>u. u_Username (f u) = u_Username u"
    and ex: "exec_update (\<lambda>u. u_ID u = i) f db = (r, db')"
  shows "users_inv db' \<and> (users_tbl db' = users_tbl db
      \<or> users_tbl db' = (users_tbl db)(i := map_option f (users_tbl db i)))"
    and "r = Inr u \<Longrightarrow> users_inv db' \<and> users_tbl db' = (users_tbl db)(i := map_option f (users_tbl db i))"
proof -
  note res = exec_update_result [OF ex]
  show "users_inv db' \<and> (users_tbl db' = users_tbl db
      \<or> users_tbl db' = (users_tbl db)(i := map_option f (users_tbl db i)))"
    using res(4)
  proof
    assume "pg_rows db' = pg_rows db"
    with res(1) assms(1) show ?thesis using users_tbl_cong users_inv_cong by metis
  next
    assume "pg_rows db' = map (\<lambda>u. if u_ID u = i then f u else u) (pg_rows db)"
    from users_update [OF assms(1) f this res(1)] show ?thesis by blast
  qed
  assume "r = Inr u"
  from users_update [OF assms(1) f res(5) [OF this] res(1)]
  show "users_inv db' \<and> users_tbl db' = (users_tbl db)(i := map_option f (users_tbl db i))" .
qed

text \<open>A lookup: \<open>query_row\<close> followed by \<open>scanUser\<close>.\<close>

lemma scan_query:
  assumes inv: "users_inv db" and q: "(case query_row P db of (r, db) \<Rightarrow> (scanUser r, db)) = (r, db')"
  shows "users_inv db' \<and> users_tbl db' = users_tbl db"
    and "r = Inr u \<Longrightarrow> users_tbl db (u_ID u) = Some u \<and> P u"
    and "r = Inl e \<Longrightarrow> errors_Is e (Sentinel Users_ErrNotFound) \<Longrightarrow> users_tbl db i = Some u \<Longrightarrow> \<not> P u"
proof -
  obtain r0 where r0: "query_row P db = (r0, db')" "r = scanUser r0" using q by (auto split: prod.splits)
  show "users_inv db' \<and> users_tbl db' = users_tbl db"
    using query_row_state [of P db] inv users_tbl_cong users_inv_cong r0(1) by (metis snd_conv)
  show "users_tbl db (u_ID u) = Some u \<and> P u" if "r = Inr u"
    using that r0 query_row_result(1) [of P db u db'] users_tbl_iff [OF inv]
    by (cases r0) (auto split: if_splits)
  show "\<not> P u" if "r = Inl e" "errors_Is e (Sentinel Users_ErrNotFound)" "users_tbl db i = Some u"
  proof -
    from that(1) r0 obtain e0 where e0: "r0 = Inl e0" by (cases r0) auto
    with r0 query_row_error [of P db e0 db'] that(1,2) have "e0 = Sentinel Sql_ErrNoRows" by auto
    with r0 e0 query_row_result(2) [of P db db'] that(3) show ?thesis by (auto simp: users_tbl_iff [OF inv])
  qed
qed

lemma Create_body:
  assumes inv: "users_inv db" and row: "u_Username u \<notin> u_Username ` set (pg_rows db)"
    and db': "pg_rows db' = pg_rows db @ [u\<lparr>u_ID := pg_next db, u_EmailVerified := False, u_CreatedAt := t\<rparr>]"
      "pg_next db' = pg_next db + 1"
  shows "users_inv db' \<and> users_tbl db (pg_next db) = None \<and> users_tbl db' =
    (users_tbl db)(pg_next db \<mapsto> u\<lparr>u_ID := pg_next db, u_EmailVerified := False, u_CreatedAt := t\<rparr>)"
proof -
  let ?row = "u\<lparr>u_ID := pg_next db, u_EmailVerified := False, u_CreatedAt := t\<rparr>"
  have fresh: "pg_next db \<notin> u_ID ` set (pg_rows db)" using inv by (force simp: users_inv_def)
  then have none: "users_tbl db (pg_next db) = None" by (simp add: users_tbl_None)
  have inv': "users_inv db'" using inv row fresh db' by (auto simp: users_inv_def)
  have "users_tbl db' j = ((users_tbl db)(pg_next db \<mapsto> ?row)) j" for j
    using none by (auto simp: users_tbl_def db' find_append_list split: option.splits)
  with inv' none show ?thesis by (auto simp: fun_eq_iff)
qed

lemma Create_result:
  assumes inv: "users_inv db" and c: "Create u db = (r, db')"
  shows "r = Inr i \<Longrightarrow> users_inv db' \<and> users_tbl db i = None \<and> (\<exists>t. users_tbl db' =
      (users_tbl db)(i \<mapsto> u\<lparr>u_ID := i, u_EmailVerified := False, u_CreatedAt := t\<rparr>))"
    and "r = Inl e \<Longrightarrow> users_inv db' \<and> (users_tbl db' = users_tbl db \<or> (\<exists>i t. users_tbl db i = None \<and>
      users_tbl db' = (users_tbl db)(i \<mapsto> u\<lparr>u_ID := i, u_EmailVerified := False, u_CreatedAt := t\<rparr>)))"
proof -
  let ?row = "\<lambda>t. u\<lparr>u_ID := pg_next db, u_EmailVerified := False, u_CreatedAt := t\<rparr>"
  define body where "body = (\<lambda>db :: users_db.
     let id = pg_next db;
         row = \<lparr>u_ID = id, u_Username = u_Username u, u_Email = u_Email u,
                u_PasswordHash = u_PasswordHash u, u_Role = u_Role u, u_EmailVerified = False,
                u_CreatedAt = pg_now db\<rparr>
     in if \<not> i32_ok (u_Role u) then (Inl (Foreign ''value is out of range for type integer''), db)
        else if u_Username u \<in> u_Username ` set (pg_rows db)
        then (Inl (Foreign ''duplicate key value violates unique constraint''), db\<lparr>pg_next := id + 1\<rparr>)
        else (Inr id, db\<lparr>pg_rows := pg_rows db @ [row], pg_next := id + 1\<rparr>) :: (gerr + int) \<times> users_db)"
  have row: "\<lparr>u_ID = i, u_Username = u_Username u, u_Email = u_Email u,
      u_PasswordHash = u_PasswordHash u, u_Role = u_Role u, u_EmailVerified = False, u_CreatedAt = t\<rparr>
      = u\<lparr>u_ID := i, u_EmailVerified := False, u_CreatedAt := t\<rparr>" for i t by (cases u) simp
  have body: "users_inv (snd (body (db\<lparr>pg_script := os\<rparr>))) \<and>
      (case fst (body (db\<lparr>pg_script := os\<rparr>)) of
         Inl e \<Rightarrow> users_tbl (snd (body (db\<lparr>pg_script := os\<rparr>))) = users_tbl db
       | Inr i \<Rightarrow> users_tbl db i = None \<and> (\<exists>t. users_tbl (snd (body (db\<lparr>pg_script := os\<rparr>))) =
           (users_tbl db)(i \<mapsto> u\<lparr>u_ID := i, u_EmailVerified := False, u_CreatedAt := t\<rparr>)))" for os
  proof (cases "i32_ok (u_Role u) \<and> u_Username u \<notin> u_Username ` set (pg_rows db)")
    case False
    then show ?thesis using inv by (auto simp: body_def Let_def users_inv_def users_tbl_def fun_eq_iff)
  next
    case True
    then have new: "u_Username u \<notin> u_Username ` set (pg_rows db)" by blast
    from Create_body [OF inv new, of "snd (body (db\<lparr>pg_script := os\<rparr>))" "pg_now db"] True
    show ?thesis by (auto simp: body_def Let_def row)
  qed
  have c': "stmt body db = (r, db')" using c by (simp add: Create_def body_def)
  have same: "users_inv (db\<lparr>pg_script := os\<rparr>)" "users_tbl (db\<lparr>pg_script := os\<rparr>) = users_tbl db" for os
    using inv by (auto simp: users_inv_def users_tbl_def fun_eq_iff)
  show "users_inv db' \<and> users_tbl db i = None \<and> (\<exists>t. users_tbl db' =
      (users_tbl db)(i \<mapsto> u\<lparr>u_ID := i, u_EmailVerified := False, u_CreatedAt := t\<rparr>))" if "r = Inr i"
    using c' that
  proof (cases rule: stmt_cases)
    case (executed os)
    from body [of os] that show ?thesis unfolding executed [symmetric] by simp
  qed auto
  show "users_inv db' \<and> (users_tbl db' = users_tbl db \<or> (\<exists>i t. users_tbl db i = None \<and>
      users_tbl db' = (users_tbl db)(i \<mapsto> u\<lparr>u_ID := i, u_EmailVerified := False, u_CreatedAt := t\<rparr>)))"
    if "r = Inl e"
    using c'
  proof (cases rule: stmt_cases)
    case (executed os)
    from body [of os] that show ?thesis unfolding executed [symmetric] by simp
  next
    case (failed os e)
    with same show ?thesis by simp
  next
    case (lost os e)
    from body [of os] show ?thesis unfolding lost(2)
      by (cases "fst (body (db\<lparr>pg_script := os\<rparr>))") auto
  qed
qed

text \<open>A statement that the database rejects.\<close>

lemma stmt_refuses:
  assumes "stmt (\<lambda>db. (Inl err, db)) db = (r, db')"
  shows "r \<noteq> Inr x" and "pg_rows db' = pg_rows db \<and> pg_next db' = pg_next db"
  using assms by (auto simp: stmt_def split: list.splits outcome.splits)

interpretation pg_users: users_store "PGStore lower" lower users_tbl users_inv for lower
proof (unfold_locales, goal_cases)
  case (1 s i u)
  then show ?case by (simp add: users_tbl_iff)
next
  case (2 s i r s')
  then show ?case using scan_query(1) [of s "\<lambda>u. u_ID u = i" r s'] by (simp add: PGStore_def ByID_def)
next
  case (3 s i u s')
  then show ?case using scan_query(2) [of s "\<lambda>u. u_ID u = i" "Inr u" s' u]
    by (auto simp: PGStore_def ByID_def)
next
  case (4 s n r s')
  then show ?case using scan_query(1) [of s "\<lambda>u. lower (u_Username u) = lower n" r s']
    by (simp add: PGStore_def ByUsername_def)
next
  case (5 s n u s')
  then show ?case using scan_query(2) [of s "\<lambda>u. lower (u_Username u) = lower n" "Inr u" s' u]
    by (simp add: PGStore_def ByUsername_def)
next
  case (6 s n e s' i u)
  then show ?case using scan_query(3) [of s "\<lambda>u. lower (u_Username u) = lower n" "Inl e" s' e i u]
    by (simp add: PGStore_def ByUsername_def)
next
  case (7 s m r s')
  then show ?case using scan_query(1) [of s "\<lambda>u. u_Email u \<noteq> [] \<and> lower (u_Email u) = lower m" r s']
    by (simp add: PGStore_def ByEmail_def)
next
  case (8 s m u s')
  then show ?case using scan_query(2) [of s "\<lambda>u. u_Email u \<noteq> [] \<and> lower (u_Email u) = lower m" "Inr u" s' u]
    by (simp add: PGStore_def ByEmail_def)
next
  case (9 s m e s' i u)
  then show ?case
    using scan_query(3) [of s "\<lambda>u. u_Email u \<noteq> [] \<and> lower (u_Email u) = lower m" "Inl e" s' e i u]
    by (simp add: PGStore_def ByEmail_def)
next
  case (10 s u i s')
  then show ?case using Create_result(1) [of s u "Inr i" s' i] by (simp add: PGStore_def)
next
  case (11 s u e s')
  then show ?case using Create_result(2) [of s u "Inl e" s' e] by (simp add: PGStore_def)
next
  case (12 s i h s')
  then show ?case using users_exec_update(2) [of s "u_PasswordHash_update (\<lambda>_. h)" i "Inr ()" s' "()"]
    by (simp add: PGStore_def UpdatePasswordHash_def)
next
  case (13 s i h e s')
  then show ?case using users_exec_update(1) [of s "u_PasswordHash_update (\<lambda>_. h)" i "Inl e" s']
    by (simp add: PGStore_def UpdatePasswordHash_def)
next
  case (14 s i v s')
  then show ?case using users_exec_update(2) [of s "u_EmailVerified_update (\<lambda>_. v)" i "Inr ()" s' "()"]
    by (simp add: PGStore_def SetEmailVerified_def)
next
  case (15 s i v e s')
  then show ?case using users_exec_update(1) [of s "u_EmailVerified_update (\<lambda>_. v)" i "Inl e" s']
    by (simp add: PGStore_def SetEmailVerified_def)
next
  case (16 s i ro s')
  have c: "SetRole i ro s = (Inr (), s')" using 16(2) by (simp add: PGStore_def)
  have "i32_ok ro"
  proof (rule ccontr)
    assume "\<not> i32_ok ro"
    with c show False using stmt_refuses(1) [of _ s "Inr ()" s' "()"] by (simp add: SetRole_def)
  qed
  with c users_exec_update(2) [OF 16(1), of "u_Role_update (\<lambda>_. ro)" i "Inr ()" s' "()"] show ?case
    by (simp add: SetRole_def)
next
  case (17 s i ro e s')
  have c: "SetRole i ro s = (Inl e, s')" using 17(2) by (simp add: PGStore_def)
  show ?case
  proof (cases "i32_ok ro")
    case True
    with c users_exec_update(1) [OF 17(1), of "u_Role_update (\<lambda>_. ro)" i "Inl e" s'] show ?thesis
      by (simp add: SetRole_def)
  next
    case False
    with c have "pg_rows s' = pg_rows s \<and> pg_next s' = pg_next s"
      by (intro stmt_refuses(2)) (simp add: SetRole_def)
    then show ?thesis using 17(1) users_inv_cong [of s' s] users_tbl_cong [of s' s] by simp
  qed
qed

end
