(* ===== verification/GoCrypto.thy ===== *)
theory GoCrypto
  imports GoBase "HOL-Library.Word"
begin

text \<open>
  The encodings and digests of Go's standard library that the packages use, as executable
  functions on byte strings: \<open>encoding/hex\<close>, \<open>encoding/base64\<close> (padded standard alphabet and
  unpadded URL alphabet), \<open>crypto/sha256\<close> (FIPS 180-4) and \<open>crypto/hmac\<close> over it (RFC 2104).
  The lemmas give the lengths and alphabets the callers rely on and the injectivity of the
  encodings.
\<close>

unbundle bit_operations_syntax

section \<open>Hexadecimal\<close>

definition hex_digit :: "nat \<Rightarrow> char" where
  "hex_digit n = ''0123456789abcdef'' ! n"

definition hex_byte :: "char \<Rightarrow> string" where
  "hex_byte c = [hex_digit (of_char c div 16), hex_digit (of_char c mod 16)]"

definition hex_encode :: "bytes \<Rightarrow> string" where
  "hex_encode bs = concat (map hex_byte bs)"

section \<open>SHA-256\<close>

type_synonym w32 = "32 word"

definition rotr32 :: "nat \<Rightarrow> w32 \<Rightarrow> w32" where
  "rotr32 n x = (drop_bit n x OR push_bit (32 - n) x)"

definition sha_k :: "w32 list" where
  "sha_k =
     [1116352408, 1899447441, 3049323471, 3921009573, 961987163, 1508970993, 2453635748,
      2870763221, 3624381080, 310598401, 607225278, 1426881987, 1925078388, 2162078206,
      2614888103, 3248222580, 3835390401, 4022224774, 264347078, 604807628, 770255983,
      1249150122, 1555081692, 1996064986, 2554220882, 2821834349, 2952996808, 3210313671,
      3336571891, 3584528711, 113926993, 338241895, 666307205, 773529912, 1294757372,
      1396182291, 1695183700, 1986661051, 2177026350, 2456956037, 2730485921, 2820302411,
      3259730800, 3345764771, 3516065817, 3600352804, 4094571909, 275423344, 430227734,
      506948616, 659060556, 883997877, 958139571, 1322822218, 1537002063, 1747873779,
      1955562222, 2024104815, 2227730452, 2361852424, 2428436474, 2756734187, 3204031479,
      3329325298]"

type_synonym sha_state = "w32 \<times> w32 \<times> w32 \<times> w32 \<times> w32 \<times> w32 \<times> w32 \<times> w32"

definition sha_init :: sha_state where
  "sha_init = (1779033703, 3144134277, 1013904242, 2773480762,
               1359893119, 2600822924, 528734635, 1541459225)"

text \<open>The message schedule: sixteen words, each further one from the sixteen before it.\<close>

fun sha_schedule :: "nat \<Rightarrow> w32 list \<Rightarrow> w32 list" where
  "sha_schedule 0 ws = ws"
| "sha_schedule (Suc n) ws =
     (let k = length ws; w15 = ws ! (k - 15); w2 = ws ! (k - 2);
          s0 = rotr32 7 w15 XOR rotr32 18 w15 XOR drop_bit 3 w15;
          s1 = rotr32 17 w2 XOR rotr32 19 w2 XOR drop_bit 10 w2
      in sha_schedule n (ws @ [ws ! (k - 16) + s0 + ws ! (k - 7) + s1]))"

fun sha_round :: "sha_state \<Rightarrow> w32 \<times> w32 \<Rightarrow> sha_state" where
  "sha_round (a, b, c, d, e, f, g, h) (k, w) =
     (let s1 = rotr32 6 e XOR rotr32 11 e XOR rotr32 25 e;
          ch = (e AND f) XOR (NOT e AND g);
          t1 = h + s1 + ch + k + w;
          s0 = rotr32 2 a XOR rotr32 13 a XOR rotr32 22 a;
          maj = (a AND b) XOR (a AND c) XOR (b AND c)
      in (t1 + (s0 + maj), a, b, c, d + t1, e, f, g))"

fun sha_add :: "sha_state \<Rightarrow> sha_state \<Rightarrow> sha_state" where
  "sha_add (a, b, c, d, e, f, g, h) (a', b', c', d', e', f', g', h') =
     (a + a', b + b', c + c', d + d', e + e', f + f', g + g', h + h')"

definition sha_block :: "w32 list \<Rightarrow> sha_state \<Rightarrow> sha_state" where
  "sha_block ws st = sha_add st (foldl sha_round st (zip sha_k (sha_schedule 48 ws)))"

text \<open>Padding: a 1 bit, zeros up to 56 bytes modulo 64, and the length in bits on eight bytes.\<close>

fun be_bytes :: "nat \<Rightarrow> nat \<Rightarrow> bytes" where
  "be_bytes 0 n = []"
| "be_bytes (Suc k) n = be_bytes k (n div 256) @ [char_of (n mod 256)]"

definition sha_pad :: "bytes \<Rightarrow> bytes" where
  "sha_pad m =
     (let n = length m
      in m @ CHR 0x80 # replicate ((119 - n mod 64) mod 64) (CHR 0x00) @ be_bytes 8 (8 * n))"

fun be_words :: "bytes \<Rightarrow> w32 list" where
  "be_words (a # b # c # d # bs) =
     of_nat (((of_char a * 256 + of_char b) * 256 + of_char c) * 256 + of_char d) # be_words bs"
| "be_words _ = []"

fun sha_blocks :: "nat \<Rightarrow> w32 list \<Rightarrow> sha_state \<Rightarrow> sha_state" where
  "sha_blocks 0 ws st = st"
| "sha_blocks (Suc n) ws st = sha_blocks n (drop 16 ws) (sha_block (take 16 ws) st)"

fun sha_bytes :: "sha_state \<Rightarrow> bytes" where
  "sha_bytes (a, b, c, d, e, f, g, h) = concat (map (\<lambda>w. be_bytes 4 (unat w)) [a, b, c, d, e, f, g, h])"

definition sha256 :: "bytes \<Rightarrow> bytes" where
  "sha256 m =
     (let p = sha_pad m in sha_bytes (sha_blocks (length p div 64) (be_words p) sha_init))"

lemma length_be_bytes [simp]: "length (be_bytes k n) = k"
  by (induction k arbitrary: n) auto

lemma length_sha_bytes: "length (sha_bytes st) = 32"
  by (cases st rule: sha_bytes.cases) simp

lemma length_sha256 [simp]: "length (sha256 m) = 32"
  unfolding sha256_def Let_def by (rule length_sha_bytes)

section \<open>HMAC-SHA256\<close>

definition xor_byte :: "nat \<Rightarrow> char \<Rightarrow> char" where
  "xor_byte k c = char_of (k XOR of_char c)"

definition hmac_key :: "bytes \<Rightarrow> bytes" where
  "hmac_key k = (let k' = (if length k > 64 then sha256 k else k)
                 in k' @ replicate (64 - length k') (CHR 0x00))"

definition hmac_sha256 :: "bytes \<Rightarrow> bytes \<Rightarrow> bytes" where
  "hmac_sha256 key m =
     (let k = hmac_key key
      in sha256 (map (xor_byte 0x5c) k @ sha256 (map (xor_byte 0x36) k @ m)))"

lemma length_hmac_sha256 [simp]: "length (hmac_sha256 k m) = 32"
  by (simp add: hmac_sha256_def Let_def)

section \<open>Base64\<close>

definition b64_std :: string where
  "b64_std = ''ABCDEFGHIJKLMNOPQRSTUVWXYZabcdefghijklmnopqrstuvwxyz0123456789+/''"

definition b64_url :: string where
  "b64_url = ''ABCDEFGHIJKLMNOPQRSTUVWXYZabcdefghijklmnopqrstuvwxyz0123456789-_''"

text \<open>\<open>pad\<close> is the padding written after a last group of two and of one byte.\<close>

fun b64_encode :: "string \<Rightarrow> string \<Rightarrow> bytes \<Rightarrow> string" where
  "b64_encode al pad (a # b # c # bs) =
     (let n = (of_char a * 256 + of_char b) * 256 + of_char c :: nat
      in al ! (n div 262144) # al ! (n div 4096 mod 64) # al ! (n div 64 mod 64)
           # al ! (n mod 64) # b64_encode al pad bs)"
| "b64_encode al pad [a, b] =
     (let n = (of_char a * 256 + of_char b) * 4 :: nat
      in [al ! (n div 4096), al ! (n div 64 mod 64), al ! (n mod 64)] @ pad)"
| "b64_encode al pad [a] =
     (let n = of_char a * 16 :: nat in [al ! (n div 64), al ! (n mod 64)] @ pad @ pad)"
| "b64_encode al pad [] = []"

definition base64_std :: "bytes \<Rightarrow> string" where
  "base64_std bs = b64_encode b64_std ''='' bs"

definition base64_rawurl :: "bytes \<Rightarrow> string" where
  "base64_rawurl bs = b64_encode b64_url [] bs"

section \<open>Lengths and injectivity\<close>

lemma length_hex_encode [simp]: "length (hex_encode bs) = 2 * length bs"
  by (induction bs) (auto simp: hex_encode_def hex_byte_def)

lemma length_b64_std: "length (base64_std bs) = 4 * ((length bs + 2) div 3)"
  unfolding base64_std_def
proof (induction b64_std "''=''" bs rule: b64_encode.induct)
  case (1 a b c bs)
  have "(length (a # b # c # bs) + 2) div 3 = Suc ((length bs + 2) div 3)" by simp
  with 1 show ?case by (simp add: Let_def del: div_Suc)
qed (simp_all add: Let_def)

lemma length_b64_rawurl: "length (base64_rawurl bs) = (4 * length bs + 2) div 3"
  unfolding base64_rawurl_def
proof (induction b64_url "[] :: string" bs rule: b64_encode.induct)
  case (1 a b c bs)
  have "(4 * length (a # b # c # bs) + 2) div 3 = 4 + (4 * length bs + 2) div 3" by simp
  with 1 show ?case by (simp add: Let_def del: div_Suc)
qed (simp_all add: Let_def)

lemma hex_digit_inj: "m < 16 \<Longrightarrow> n < 16 \<Longrightarrow> hex_digit m = hex_digit n \<longleftrightarrow> m = n"
  unfolding hex_digit_def by (subst nth_eq_iff_index_eq) auto

lemma hex_byte_inj: "hex_byte c = hex_byte d \<longleftrightarrow> c = d"
proof
  assume "hex_byte c = hex_byte d"
  then have "of_char c div 16 = (of_char d div 16 :: nat)" and "of_char c mod 16 = (of_char d mod 16 :: nat)"
    using nat_of_char_less_256 [of c] nat_of_char_less_256 [of d]
    by (auto simp: hex_byte_def hex_digit_inj less_mult_imp_div_less)
  then have "of_char c = (of_char d :: nat)" by (metis div_mult_mod_eq)
  then show "c = d" by simp
qed simp

lemma hex_encode_inj: "hex_encode xs = hex_encode ys \<longleftrightarrow> xs = ys"
proof (induction xs arbitrary: ys)
  case Nil
  then show ?case by (cases ys) (auto simp: hex_encode_def hex_byte_def)
next
  case (Cons x xs)
  have len: "length (hex_byte x) = length (hex_byte y)" for y by (simp add: hex_byte_def)
  show ?case
  proof (cases ys)
    case Nil
    then show ?thesis by (simp add: hex_encode_def hex_byte_def)
  next
    case (Cons y ys')
    have "hex_encode (x # xs) = hex_encode (y # ys') \<longleftrightarrow>
        hex_byte x = hex_byte y \<and> hex_encode xs = hex_encode ys'"
      by (simp add: hex_encode_def append_eq_append_conv [OF disjI1, OF len])
    with Cons Cons.IH show ?thesis by (simp add: hex_byte_inj)
  qed
qed

text \<open>A group of three bytes, and its four base-64 digits, determine each other.\<close>

lemma radix_eq:
  fixes x y x' y' r :: nat
  assumes "x * r + y = x' * r + y'" and "y < r" and "y' < r"
  shows "x = x' \<and> y = y'"
proof -
  have "x = (x * r + y) div r" and "x' = (x' * r + y') div r" using assms(2,3) by auto
  with assms(1) show ?thesis by auto
qed

lemma b64_digits:
  fixes m n :: nat
  assumes "m div 262144 = n div 262144" "m div 4096 mod 64 = n div 4096 mod 64"
    and "m div 64 mod 64 = n div 64 mod 64" "m mod 64 = n mod 64"
  shows "m = n"
proof -
  have "k div 262144 = k div 4096 div 64" "k div 4096 = k div 64 div 64" for k :: nat
    by (simp_all add: div_mult2_eq [symmetric])
  with assms have "m div 4096 = n div 4096" by (metis div_mult_mod_eq)
  with \<open>\<And>k. k div 4096 = k div 64 div 64\<close> assms(3) have "m div 64 = n div 64"
    by (metis div_mult_mod_eq)
  with assms(4) show ?thesis by (metis div_mult_mod_eq)
qed

lemma b64_group:
  assumes "(of_char a * 256 + of_char b) * 256 + of_char c =
    ((of_char a' * 256 + of_char b') * 256 + of_char c' :: nat)"
  shows "a = a' \<and> b = b' \<and> c = c'"
  using radix_eq [OF assms nat_of_char_less_256 nat_of_char_less_256]
    radix_eq [OF _ nat_of_char_less_256 nat_of_char_less_256, of "of_char a" b "of_char a'" b']
  by simp

lemma b64_nth:
  assumes "distinct al" "length al = 64"
  shows "i < 64 \<Longrightarrow> j < 64 \<Longrightarrow> al ! i = al ! j \<longleftrightarrow> i = j"
  using assms by (simp add: nth_eq_iff_index_eq)

lemma radix_lt: "x < 256 \<Longrightarrow> y < 256 \<Longrightarrow> z < 256 \<Longrightarrow> (x * 256 + y) * 256 + z < (16777216 :: nat)"
  by (simp add: algebra_simps)

lemma radix_lt2: "x < 256 \<Longrightarrow> y < 256 \<Longrightarrow> (x * 256 + y) * 4 < (262144 :: nat)"
  by (simp add: algebra_simps)

lemmas b64_value_lt3 = radix_lt [OF nat_of_char_less_256 nat_of_char_less_256 nat_of_char_less_256]
lemmas b64_value_lt2 = radix_lt2 [OF nat_of_char_less_256 nat_of_char_less_256]

lemma b64_value_lt1: "(of_char a * 16 :: nat) < 4096"
  using nat_of_char_less_256 [of a] by simp

lemma b64_value_inj:
  fixes m n :: nat
  assumes al: "distinct al" "length al = 64" and lt: "m < 16777216" "n < 16777216"
    and "al ! (m div 262144) = al ! (n div 262144)"
    and "al ! (m div 4096 mod 64) = al ! (n div 4096 mod 64)"
    and "al ! (m div 64 mod 64) = al ! (n div 64 mod 64)"
    and "al ! (m mod 64) = al ! (n mod 64)"
  shows "m = n"
proof -
  have "m div 262144 < 64" "n div 262144 < 64"
    using lt by (intro less_mult_imp_div_less; simp)+
  then have "m div 262144 = n div 262144" using assms(5) by (simp only: b64_nth [OF al])
  moreover have "m div 4096 mod 64 = n div 4096 mod 64" using assms(6) by (simp only: b64_nth [OF al] mod_less_divisor zero_less_numeral)
  moreover have "m div 64 mod 64 = n div 64 mod 64" using assms(7) by (simp only: b64_nth [OF al] mod_less_divisor zero_less_numeral)
  moreover have "m mod 64 = n mod 64" using assms(8) by (simp only: b64_nth [OF al] mod_less_divisor zero_less_numeral)
  ultimately show ?thesis by (rule b64_digits)
qed

lemma b64_value_inj2:
  fixes m n :: nat
  assumes al: "distinct al" "length al = 64" and lt: "m < 262144" "n < 262144"
    and "al ! (m div 4096) = al ! (n div 4096)"
    and "al ! (m div 64 mod 64) = al ! (n div 64 mod 64)" and "al ! (m mod 64) = al ! (n mod 64)"
  shows "m = n"
proof -
  have "m div 4096 < 64" "n div 4096 < 64" using lt by (intro less_mult_imp_div_less; simp)+
  then have "m div 4096 mod 64 = m div 4096" "n div 4096 mod 64 = n div 4096" by simp_all
  moreover have "m < 16777216" "n < 16777216" "m div 262144 = 0" "n div 262144 = 0" using lt by simp_all
  ultimately show ?thesis using assms(5-7) by (intro b64_value_inj [OF al]) (simp_all only:)
qed

lemma b64_value_inj1:
  fixes m n :: nat
  assumes al: "distinct al" "length al = 64" and lt: "m < 4096" "n < 4096"
    and "al ! (m div 64) = al ! (n div 64)" and "al ! (m mod 64) = al ! (n mod 64)"
  shows "m = n"
proof -
  have "m div 64 < 64" "n div 64 < 64" using lt by (intro less_mult_imp_div_less; simp)+
  then have "m div 64 mod 64 = m div 64" "n div 64 mod 64 = n div 64" by simp_all
  moreover have "m < 262144" "n < 262144" "m div 4096 = 0" "n div 4096 = 0" using lt by simp_all
  ultimately show ?thesis using assms(5,6) by (intro b64_value_inj2 [OF al]) (simp_all only:)
qed

lemma b64_encode_inj:
  assumes "distinct al" "length al = 64"
  shows "length xs = length ys \<Longrightarrow> b64_encode al pad xs = b64_encode al pad ys \<Longrightarrow> xs = ys"
  using assms
proof (induction al pad xs arbitrary: ys rule: b64_encode.induct)
  case (1 al pad a b c bs)
  from "1.prems"(1) obtain a' b' c' bs' where ys: "ys = a' # b' # c' # bs'"
    by (auto simp: Suc_length_conv length_Suc_conv)
  with "1.prems"(2) have rest: "b64_encode al pad bs = b64_encode al pad bs'"
    and val: "(of_char a * 256 + of_char b) * 256 + of_char c
      = ((of_char a' * 256 + of_char b') * 256 + of_char c' :: nat)"
    using b64_value_inj [OF "1.prems"(3,4) b64_value_lt3 b64_value_lt3, of a b c a' b' c']
    by (simp_all only: b64_encode.simps Let_def list.inject)
  have "bs = bs'" using "1.IH" [OF refl _ rest] "1.prems" ys by simp
  with b64_group [OF val] ys show ?case by simp
next
  case (2 al pad a b)
  from "2.prems"(1) obtain a' b' where ys: "ys = [a', b']"
    by (auto simp: Suc_length_conv length_Suc_conv)
  have "(of_char a * 256 + of_char b) * 4 = ((of_char a' * 256 + of_char b') * 4 :: nat)"
    using "2.prems"(2) unfolding ys
    by (intro b64_value_inj2 [OF "2.prems"(3,4) b64_value_lt2 b64_value_lt2])
      (simp_all only: b64_encode.simps Let_def append_Cons list.inject)
  then have "of_char a * 256 + of_char b = (of_char a' * 256 + of_char b' :: nat)" by simp
  from radix_eq [OF this nat_of_char_less_256 nat_of_char_less_256] ys show ?case by simp
next
  case (3 al pad a)
  from "3.prems"(1) obtain a' where ys: "ys = [a']"
    by (auto simp: Suc_length_conv length_Suc_conv)
  have "of_char a * 16 = (of_char a' * 16 :: nat)"
    using "3.prems"(2) unfolding ys
    by (intro b64_value_inj1 [OF "3.prems"(3,4) b64_value_lt1 b64_value_lt1])
      (simp_all only: b64_encode.simps Let_def append_Cons list.inject)
  then have "of_char a = (of_char a' :: nat)" by simp
  with ys show ?case by simp
qed simp

lemma b64_alphabets [simp]:
  "length b64_std = 64" "length b64_url = 64" "distinct b64_std" "distinct b64_url"
  by (simp_all add: b64_std_def b64_url_def)

lemma base64_rawurl_inj:
  "length xs = length ys \<Longrightarrow> base64_rawurl xs = base64_rawurl ys \<longleftrightarrow> xs = ys"
  unfolding base64_rawurl_def using b64_encode_inj [of b64_url xs ys] by auto

lemma b64_encode_chars: "length al = 64 \<Longrightarrow> set (b64_encode al pad bs) \<subseteq> set al \<union> set pad"
proof (induction al pad bs rule: b64_encode.induct)
  case (1 al pad a b c bs)
  have mem: "i < 64 \<Longrightarrow> al ! i \<in> set al" for i using 1(2) by simp
  have "((of_char a * 256 + of_char b) * 256 + of_char c :: nat) div 262144 < 64"
    using b64_value_lt3 [of a b c] by (intro less_mult_imp_div_less) simp
  with 1 mem show ?case
    by (simp only: b64_encode.simps Let_def set_simps insert_subset Un_iff mod_less_divisor zero_less_numeral simp_thms)
next
  case (2 al pad a b)
  have mem: "i < 64 \<Longrightarrow> al ! i \<in> set al" for i using 2 by simp
  have "((of_char a * 256 + of_char b) * 4 :: nat) div 4096 < 64"
    using b64_value_lt2 [of a b] by (intro less_mult_imp_div_less) simp
  with mem show ?case
    by (auto simp only: b64_encode.simps Let_def set_simps set_append mod_less_divisor zero_less_numeral)
next
  case (3 al pad a)
  have mem: "i < 64 \<Longrightarrow> al ! i \<in> set al" for i using 3 by simp
  have "(of_char a * 16 :: nat) div 64 < 64"
    using b64_value_lt1 [of a] by (intro less_mult_imp_div_less) simp
  with mem show ?case
    by (auto simp only: b64_encode.simps Let_def set_simps set_append mod_less_divisor zero_less_numeral)
qed simp

lemma base64_rawurl_visible: "c \<in> set (base64_rawurl bs) \<Longrightarrow> visible c"
proof -
  have "\<forall>c\<in>set b64_url. visible c" by (simp add: b64_url_def visible_def)
  then show "c \<in> set (base64_rawurl bs) \<Longrightarrow> visible c"
    using b64_encode_chars [of b64_url "[]" bs] by (auto simp: base64_rawurl_def)
qed

lemma base64_std_visible: "c \<in> set (base64_std bs) \<Longrightarrow> visible c"
proof -
  have "\<forall>c\<in>set b64_std \<union> set ''=''. visible c" by (simp add: b64_std_def visible_def)
  then show "c \<in> set (base64_std bs) \<Longrightarrow> visible c"
    using b64_encode_chars [of b64_std "''=''" bs] by (auto simp: base64_std_def)
qed

end
