(* ===== verification/Password.thy ===== *)
theory Password
  imports GoCrypto
begin

text \<open>
  password/password.go: bcrypt over an optional HMAC pepper with pepper rotation. The bcrypt
  package is third-party code: it is the parameter \<open>bcrypt\<close> (its generator also takes the salt it
  draws), and \<open>bcrypt_sound\<close>, \<open>bcrypt_accepts\<close> and \<open>bcrypt_tight\<close> name the documented behaviour
  a statement relies on.
\<close>

section \<open>The hasher\<close>

record bcrypt =
  bc_gen :: "bytes \<Rightarrow> bytes \<Rightarrow> int \<Rightarrow> gerr + bytes"
  bc_cmp :: "bytes \<Rightarrow> bytes \<Rightarrow> gerr option"
  bc_DefaultCost :: int

record hasher =
  Pepper :: bytes
  PrevPepper :: bytes
  Cost :: int

definition cost :: "bcrypt \<Rightarrow> hasher \<Rightarrow> int" where
  "cost B h = (if Cost h = 0 then bc_DefaultCost B else Cost h)"

definition peppered :: "string \<Rightarrow> bytes \<Rightarrow> bytes" where
  "peppered pw key = (if length key = 0 then pw else base64_std (hmac_sha256 key pw))"

definition Hash :: "bcrypt \<Rightarrow> bytes \<Rightarrow> hasher \<Rightarrow> string \<Rightarrow> gerr + string" where
  "Hash B salt h pw = bc_gen B salt (peppered pw (Pepper h)) (cost B h)"

definition Check :: "bcrypt \<Rightarrow> hasher \<Rightarrow> string \<Rightarrow> string \<Rightarrow> bool" where
  "Check B h hash pw \<longleftrightarrow> bc_cmp B hash (peppered pw (Pepper h)) = None"

definition Verify :: "bcrypt \<Rightarrow> hasher \<Rightarrow> string \<Rightarrow> string \<Rightarrow> bool \<times> bool" where
  "Verify B h hash pw =
     (if Check B h hash pw then (True, False)
      else if length (PrevPepper h) > 0 \<and> bc_cmp B hash (peppered pw (PrevPepper h)) = None
      then (True, True)
      else (False, False))"

section \<open>What bcrypt promises\<close>

text \<open>A generated hash compares equal with the password it was generated from.\<close>

definition bcrypt_sound :: "bcrypt \<Rightarrow> bool" where
  "bcrypt_sound B \<longleftrightarrow> (\<forall>salt pw c hash. bc_gen B salt pw c = Inr hash \<longrightarrow> bc_cmp B hash pw = None)"

text \<open>At a given cost it fails on inputs of more than 72 bytes only.\<close>

definition bcrypt_accepts :: "bcrypt \<Rightarrow> int \<Rightarrow> bool" where
  "bcrypt_accepts B c \<longleftrightarrow> (\<forall>salt pw. length pw \<le> 72 \<longrightarrow> (\<exists>hash. bc_gen B salt pw c = Inr hash))"

text \<open>A generated hash does not compare equal with the other input.\<close>

definition bcrypt_tight :: "bcrypt \<Rightarrow> bytes \<Rightarrow> bytes \<Rightarrow> bool" where
  "bcrypt_tight B pw pw' \<longleftrightarrow>
     (\<forall>salt c hash. bc_gen B salt pw c = Inr hash \<longrightarrow> bc_cmp B hash pw' \<noteq> None)"

text \<open>A concrete instance that satisfies them, for the witnesses: the hash is the input itself.\<close>

definition plain_bcrypt :: bcrypt where
  "plain_bcrypt =
     \<lparr>bc_gen = (\<lambda>salt pw c. if length pw \<le> 72 then Inr pw else Inl (Foreign ''too long'')),
      bc_cmp = (\<lambda>hash pw. if hash = pw then None else Some (Foreign ''mismatch'')),
      bc_DefaultCost = 10\<rparr>"

lemma plain_bcrypt_promises [simp]:
  "bcrypt_sound plain_bcrypt" "bcrypt_accepts plain_bcrypt c"
  "bcrypt_tight plain_bcrypt pw pw' \<longleftrightarrow> 72 < length pw \<or> pw \<noteq> pw'"
  by (auto simp: plain_bcrypt_def bcrypt_sound_def bcrypt_accepts_def bcrypt_tight_def)

section \<open>Lemmas\<close>

lemma Hash_Check: "bcrypt_sound B \<Longrightarrow> Hash B salt h pw = Inr hash \<Longrightarrow> Check B h hash pw"
  by (simp add: Hash_def Check_def bcrypt_sound_def)

lemma Hash_Verify: "bcrypt_sound B \<Longrightarrow> Hash B salt h pw = Inr hash \<Longrightarrow> Verify B h hash pw = (True, False)"
  by (simp add: Verify_def Hash_Check)

lemma Verify_ok_iff:
  "fst (Verify B h hash pw) \<longleftrightarrow>
     Check B h hash pw \<or> PrevPepper h \<noteq> [] \<and> Check B (h\<lparr>Pepper := PrevPepper h\<rparr>) hash pw"
  by (auto simp: Verify_def Check_def)

lemma Verify_rehash_iff:
  "snd (Verify B h hash pw) \<longleftrightarrow> fst (Verify B h hash pw) \<and> \<not> Check B h hash pw"
  by (auto simp: Verify_def)

lemma peppered_length: "length (peppered pw key) = (if key = [] then length pw else 44)"
  by (simp add: peppered_def length_b64_std)

lemma peppered_visible: "key \<noteq> [] \<Longrightarrow> c \<in> set (peppered pw key) \<Longrightarrow> visible c"
  by (auto simp: peppered_def intro: base64_std_visible)

section \<open>Properties\<close>

text \<open>
  The pepper keeps every password inside bcrypt's 72 bytes: under a nonempty pepper the input
  of bcrypt is 44 visible ASCII characters whatever the password, so hashing succeeds for a
  password of any length, and the hash verifies without asking for a rehash.
\<close>

theorem pepper_bounds_bcrypt_input:
  assumes "Pepper h \<noteq> []" and "bcrypt_accepts B (cost B h)" and "bcrypt_sound B"
  shows "length (peppered pw (Pepper h)) = 44 \<and> (\<forall>c\<in>set (peppered pw (Pepper h)). visible c)
    \<and> (\<exists>hash. Hash B salt h pw = Inr hash \<and> Verify B h hash pw = (True, False))"
proof -
  have "length (peppered pw (Pepper h)) = 44" using assms(1) by (simp add: peppered_length)
  moreover from this assms(2) obtain hash where "Hash B salt h pw = Inr hash"
    unfolding Hash_def bcrypt_accepts_def by force
  ultimately show ?thesis
    using assms(1,3) by (auto intro: peppered_visible Hash_Verify)
qed

theorem pepper_bounds_bcrypt_input_witness:
  "length (peppered (replicate 500 CHR ''x'') ''pepper'') = 44
    \<and> (\<exists>hash. Hash plain_bcrypt [] \<lparr>Pepper = ''pepper'', PrevPepper = [], Cost = 0\<rparr> (replicate 500 CHR ''x'')
        = Inr hash)"
  using pepper_bounds_bcrypt_input [of "\<lparr>Pepper = ''pepper'', PrevPepper = [], Cost = 0\<rparr>" plain_bcrypt
      "replicate 500 CHR ''x''" "[]"]
  by (simp only: hasher.select_convs plain_bcrypt_promises list.distinct simp_thms) blast

text \<open>
  C27. Pepper rotation. A hash made under the old pepper is accepted by a hasher that has moved to
  a new pepper and keeps the old one as previous, and asks to be rewritten; the rewritten hash is
  accepted without asking again, also by a hasher that has dropped the previous pepper; and the
  old hash is refused by a hasher with neither.
\<close>

theorem pepper_rotation:
  assumes B: "bcrypt_sound B" "bcrypt_tight B (peppered pw old) (peppered pw new)"
    and old: "Pepper h0 = old" "old \<noteq> []" "Hash B salt h0 pw = Inr hash0"
    and new: "Pepper h = new" "PrevPepper h = old" "Hash B salt' h pw = Inr hash1"
  shows "Verify B h hash0 pw = (True, True) \<and> Verify B h hash1 pw = (True, False)
    \<and> Verify B (h\<lparr>PrevPepper := []\<rparr>) hash1 pw = (True, False)
    \<and> Verify B (h\<lparr>PrevPepper := []\<rparr>) hash0 pw = (False, False)"
proof -
  have "bc_cmp B hash0 (peppered pw old) = None" using B(1) old by (auto simp: Hash_def bcrypt_sound_def)
  moreover have "bc_cmp B hash0 (peppered pw new) \<noteq> None"
    using B(2) old by (auto simp: Hash_def bcrypt_tight_def)
  moreover have "bc_cmp B hash1 (peppered pw new) = None"
    using B(1) new by (auto simp: Hash_def bcrypt_sound_def)
  ultimately show ?thesis using old new by (simp add: Verify_def Check_def)
qed

text \<open>The witness migrates from a pepper to bare bcrypt, where the two inputs differ in length.\<close>

theorem pepper_rotation_witness:
  "Verify plain_bcrypt \<lparr>Pepper = [], PrevPepper = ''old'', Cost = 0\<rparr>
     (base64_std (hmac_sha256 ''old'' ''secret12'')) ''secret12'' = (True, True)"
proof -
  let ?hold = "\<lparr>Pepper = ''old'', PrevPepper = [], Cost = 0\<rparr>"
  let ?h = "\<lparr>Pepper = [], PrevPepper = ''old'', Cost = 0\<rparr>"
  have len: "length (peppered ''secret12'' ''old'') = 44" by (simp add: peppered_length)
  have ne: "peppered ''secret12'' ''old'' \<noteq> peppered ''secret12'' []"
  proof
    assume "peppered ''secret12'' ''old'' = peppered ''secret12'' []"
    with len have "length (peppered ''secret12'' []) = 44" by simp
    then show False by (simp add: peppered_length)
  qed
  have "Hash plain_bcrypt [] ?hold ''secret12'' = Inr (base64_std (hmac_sha256 ''old'' ''secret12''))"
    using len by (simp add: Hash_def plain_bcrypt_def peppered_def)
  note old = this
  have new: "Hash plain_bcrypt [] ?h ''secret12'' = Inr ''secret12''"
    by (simp add: Hash_def plain_bcrypt_def peppered_def)
  have "bcrypt_tight plain_bcrypt (peppered ''secret12'' ''old'') (peppered ''secret12'' [])"
    unfolding plain_bcrypt_promises using ne by (rule disjI2)
  from pepper_rotation [OF _ this _ _ old _ _ new] show ?thesis by simp
qed

end
