(* ===== verification/Authflow.thy ===== *)
theory Authflow
  imports Users Password Session
begin

text \<open>
  authflow/authflow.go: register, authenticate (by username or email, with the transparent
  rehash) and change-password over any user store, and the session stamp. The soundness lemmas are
  proved once for every store that keeps the contract \<open>users_store\<close>; the properties hold for the
  Postgres store, the end-to-end ones when the database answers.
\<close>

section \<open>The flows\<close>

record 's flow =
  f_Users :: "'s users_ops"
  f_Hasher :: hasher
  f_DefaultRole :: role
  f_MinPasswordLen :: int

definition minLen :: "'s flow \<Rightarrow> int" where
  "minLen f = (if f_MinPasswordLen f \<le> 0 then 8 else f_MinPasswordLen f)"

definition Register ::
    "bcrypt \<Rightarrow> bytes \<Rightarrow> 's flow \<Rightarrow> string \<Rightarrow> string \<Rightarrow> string \<Rightarrow> ('s, user) call" where
  "Register B salt f username email plaintext s =
     (let username = TrimSpace username
      in if username = [] then (Inl (Sentinel Authflow_ErrEmptyUsername), s)
         else if int (length plaintext) < minLen f then (Inl (Sentinel Authflow_ErrWeakPassword), s)
         else
           case us_ByUsername (f_Users f) username s of
             (Inr _, s) \<Rightarrow> (Inl (Sentinel Authflow_ErrUsernameTaken), s)
           | (Inl err, s) \<Rightarrow>
               if \<not> errors_Is err (Sentinel Users_ErrNotFound) then (Inl err, s)
               else
                 case Hash B salt (f_Hasher f) plaintext of
                   Inl err \<Rightarrow> (Inl err, s)
                 | Inr hash \<Rightarrow>
                     let u = \<lparr>u_ID = 0, u_Username = username, u_Email = TrimSpace email,
                              u_PasswordHash = hash, u_Role = f_DefaultRole f,
                              u_EmailVerified = False, u_CreatedAt = 0\<rparr>
                     in case us_Create (f_Users f) u s of
                          (Inl err, s) \<Rightarrow> (Inl err, s)
                        | (Inr uid, s) \<Rightarrow> (Inr (u\<lparr>u_ID := uid\<rparr>), s))"

definition find_user :: "'s flow \<Rightarrow> string \<Rightarrow> ('s, user) call" where
  "find_user f identifier s =
     (case us_ByUsername (f_Users f) identifier s of
        (Inr u, s) \<Rightarrow> (Inr u, s)
      | (Inl err, s) \<Rightarrow>
          if errors_Is err (Sentinel Users_ErrNotFound) then us_ByEmail (f_Users f) identifier s
          else (Inl err, s))"

definition Authenticate ::
    "bcrypt \<Rightarrow> bytes \<Rightarrow> 's flow \<Rightarrow> string \<Rightarrow> string \<Rightarrow> ('s, user) call" where
  "Authenticate B salt f identifier plaintext s =
     (case find_user f (TrimSpace identifier) s of
        (Inl err, s) \<Rightarrow>
          (if errors_Is err (Sentinel Users_ErrNotFound)
           then Inl (Sentinel Authflow_ErrBadCredentials) else Inl err, s)
      | (Inr u, s) \<Rightarrow>
          (case Verify B (f_Hasher f) (u_PasswordHash u) plaintext of
             (ok, needsRehash) \<Rightarrow>
               if \<not> ok then (Inl (Sentinel Authflow_ErrBadCredentials), s)
               else if needsRehash
               then (case Hash B salt (f_Hasher f) plaintext of
                       Inr h \<Rightarrow> (Inr u, snd (us_UpdatePasswordHash (f_Users f) (u_ID u) h s))
                     | Inl herr \<Rightarrow> (Inr u, s))
               else (Inr u, s)))"

definition ChangePassword ::
    "bcrypt \<Rightarrow> bytes \<Rightarrow> 's flow \<Rightarrow> int \<Rightarrow> string \<Rightarrow> string \<Rightarrow> ('s, unit) call" where
  "ChangePassword B salt f uid current next s =
     (case us_ByID (f_Users f) uid s of
        (Inl err, s) \<Rightarrow> (Inl err, s)
      | (Inr u, s) \<Rightarrow>
          if \<not> fst (Verify B (f_Hasher f) (u_PasswordHash u) current)
          then (Inl (Sentinel Authflow_ErrBadCredentials), s)
          else if int (length next) < minLen f then (Inl (Sentinel Authflow_ErrWeakPassword), s)
          else case Hash B salt (f_Hasher f) next of
                 Inl err \<Rightarrow> (Inl err, s)
               | Inr h \<Rightarrow> us_UpdatePasswordHash (f_Users f) uid h s)"

definition flow_Issue :: "time \<Rightarrow> user \<Rightarrow> sess \<Rightarrow> gerr option \<times> sess" where
  "flow_Issue now u s = Issue now (u_ID u) [] 0 s"

section \<open>Soundness over any store that keeps the contract\<close>

definition named :: "(string \<Rightarrow> string) \<Rightarrow> string \<Rightarrow> user \<Rightarrow> bool" where
  "named lower n u \<longleftrightarrow> lower (u_Username u) = lower n"

definition mailed :: "(string \<Rightarrow> string) \<Rightarrow> string \<Rightarrow> user \<Rightarrow> bool" where
  "mailed lower m u \<longleftrightarrow> u_Email u \<noteq> [] \<and> lower (u_Email u) = lower m"

text \<open>The account that a registration form asks for.\<close>

definition newcomer ::
    "bcrypt \<Rightarrow> bytes \<Rightarrow> 's flow \<Rightarrow> string \<Rightarrow> string \<Rightarrow> string \<Rightarrow> user \<Rightarrow> bool" where
  "newcomer B salt f username email pw v \<longleftrightarrow>
     u_Username v = TrimSpace username \<and> u_Username v \<noteq> [] \<and> u_Email v = TrimSpace email
     \<and> u_Role v = f_DefaultRole f \<and> \<not> u_EmailVerified v
     \<and> minLen f \<le> int (length pw) \<and> Hash B salt (f_Hasher f) pw = Inr (u_PasswordHash v)"

context users_store
begin

lemma find_user_found:
  assumes "inv s" and "f_Users f = S" and "find_user f n s = (Inr u, s')"
  shows "inv s' \<and> tbl s' = tbl s \<and> tbl s (u_ID u) = Some u
    \<and> (named lower n u \<or> mailed lower n u \<and> (\<forall>i v. tbl s i = Some v \<longrightarrow> \<not> named lower n v))"
proof (cases "us_ByUsername S n s")
  case (Pair r s1)
  note st = ByUsername_state [OF assms(1) Pair]
  show ?thesis
  proof (cases r)
    case (Inr v)
    with Pair assms st ByUsername_found [OF assms(1), of n v s1] show ?thesis
      by (auto simp: find_user_def named_def)
  next
    case (Inl e)
    with Pair assms have e: "errors_Is e (Sentinel Users_ErrNotFound)"
      and m: "us_ByEmail S n s1 = (Inr u, s')"
      by (auto simp: find_user_def split: if_splits)
    have none: "\<forall>i v. tbl s i = Some v \<longrightarrow> \<not> named lower n v"
      using ByUsername_none [OF assms(1) Pair [unfolded Inl] e] by (auto simp: named_def)
    have "inv s'" "tbl s' = tbl s" "tbl s (u_ID u) = Some u" "mailed lower n u"
      using ByEmail_state [OF conjunct1 [OF st] m] ByEmail_found [OF conjunct1 [OF st] m] st
      by (auto simp: mailed_def)
    with none show ?thesis by blast
  qed
qed

lemma find_user_error:
  assumes "inv s" and "f_Users f = S" and "find_user f n s = (Inl e, s')"
  shows "inv s' \<and> tbl s' = tbl s \<and> (errors_Is e (Sentinel Users_ErrNotFound) \<longrightarrow>
    (\<forall>i v. tbl s i = Some v \<longrightarrow> \<not> named lower n v \<and> \<not> mailed lower n v))"
proof (cases "us_ByUsername S n s")
  case (Pair r s1)
  note st = ByUsername_state [OF assms(1) Pair]
  show ?thesis
  proof (cases r)
    case (Inr v)
    with Pair assms st show ?thesis by (auto simp: find_user_def)
  next
    case (Inl e1)
    show ?thesis
    proof (cases "errors_Is e1 (Sentinel Users_ErrNotFound)")
      case False
      with Pair assms st Inl show ?thesis by (auto simp: find_user_def)
    next
      case True
      with Pair Inl assms have m: "us_ByEmail S n s1 = (Inl e, s')" by (auto simp: find_user_def)
      show ?thesis
        using ByUsername_none [OF assms(1) Pair [unfolded Inl] True]
          ByEmail_state [OF conjunct1 [OF st] m] ByEmail_none [OF conjunct1 [OF st] m] st
        by (auto simp: named_def mailed_def)
    qed
  qed
qed

text \<open>Who is let in, and what the rehash writes.\<close>

lemma Authenticate_granted:
  assumes inv: "inv s" and S: "f_Users f = S" and a: "Authenticate B salt f ident pw s = (Inr u, s')"
  shows "inv s' \<and> tbl s (u_ID u) = Some u \<and> fst (Verify B (f_Hasher f) (u_PasswordHash u) pw)
    \<and> (named lower (TrimSpace ident) u
       \<or> mailed lower (TrimSpace ident) u \<and> (\<forall>i v. tbl s i = Some v \<longrightarrow> \<not> named lower (TrimSpace ident) v))
    \<and> (tbl s' = tbl s \<or> (\<exists>h. \<not> Check B (f_Hasher f) (u_PasswordHash u) pw
         \<and> Hash B salt (f_Hasher f) pw = Inr h \<and> tbl s' = (tbl s)(u_ID u \<mapsto> u\<lparr>u_PasswordHash := h\<rparr>)))"
proof -
  obtain r s1 where fu: "find_user f (TrimSpace ident) s = (r, s1)" by fastforce
  with a obtain v where v: "r = Inr v" by (cases r) (auto simp: Authenticate_def split: if_splits)
  obtain ok re where ver: "Verify B (f_Hasher f) (u_PasswordHash v) pw = (ok, re)" by fastforce
  from a fu v ver have u: "u = v" and ok: "ok"
    by (auto simp: Authenticate_def split: if_splits sum.splits)
  note found = find_user_found [OF inv S fu [unfolded v]]
  show ?thesis
  proof (cases "re \<and> (\<exists>h. Hash B salt (f_Hasher f) pw = Inr h)")
    case False
    with a fu v ver ok have "s' = s1" by (auto simp: Authenticate_def split: if_splits sum.splits)
    with found ver ok u show ?thesis by auto
  next
    case True
    then obtain h where h: "Hash B salt (f_Hasher f) pw = Inr h" and re by blast
    obtain w s2 where up: "us_UpdatePasswordHash S (u_ID v) h s1 = (w, s2)" by fastforce
    from a fu v ver ok h \<open>re\<close> S up have s': "s' = s2" by (auto simp: Authenticate_def)
    have "\<not> Check B (f_Hasher f) (u_PasswordHash v) pw"
      using Verify_rehash_iff [of B "f_Hasher f" "u_PasswordHash v" pw] ver \<open>re\<close> by simp
    moreover have "inv s2 \<and> (tbl s2 = tbl s \<or> tbl s2 = (tbl s)(u_ID v \<mapsto> v\<lparr>u_PasswordHash := h\<rparr>))"
      using found UpdatePasswordHash_ok [of s1 "u_ID v" h s2] UpdatePasswordHash_err [of s1 "u_ID v" h _ s2] up
      by (cases w) auto
    ultimately show ?thesis using found ver ok u s' h by auto
  qed
qed

text \<open>Who is not, and that nothing is written then.\<close>

lemma Authenticate_refused:
  assumes inv: "inv s" and S: "f_Users f = S" and a: "Authenticate B salt f ident pw s = (Inl e, s')"
  shows "inv s' \<and> tbl s' = tbl s"
    and "\<not> errors_Is e (Sentinel Users_ErrNotFound)"
proof -
  obtain r s1 where fu: "find_user f (TrimSpace ident) s = (r, s1)" by fastforce
  have "s' = s1" using a fu by (auto simp: Authenticate_def split: if_splits sum.splits prod.splits)
  then show "inv s' \<and> tbl s' = tbl s"
    using fu find_user_found [OF inv S] find_user_error [OF inv S] by (cases r) blast+
  show "\<not> errors_Is e (Sentinel Users_ErrNotFound)"
    using a fu by (auto simp: Authenticate_def split: if_splits sum.splits prod.splits)
qed

lemma ChangePassword_result:
  assumes inv: "inv s" and S: "f_Users f = S" and c: "ChangePassword B salt f uid cur next s = (r, s')"
  shows "inv s'"
    and "r = Inr () \<Longrightarrow> \<exists>u h. tbl s uid = Some u \<and> fst (Verify B (f_Hasher f) (u_PasswordHash u) cur)
      \<and> minLen f \<le> int (length next) \<and> Hash B salt (f_Hasher f) next = Inr h
      \<and> tbl s' = (tbl s)(uid \<mapsto> u\<lparr>u_PasswordHash := h\<rparr>)"
    and "r = Inl e \<Longrightarrow> tbl s' = tbl s \<or> (\<exists>u h. tbl s uid = Some u
      \<and> fst (Verify B (f_Hasher f) (u_PasswordHash u) cur)
      \<and> minLen f \<le> int (length next) \<and> Hash B salt (f_Hasher f) next = Inr h
      \<and> tbl s' = (tbl s)(uid \<mapsto> u\<lparr>u_PasswordHash := h\<rparr>))"
proof -
  obtain q s1 where q: "us_ByID S uid s = (q, s1)" by fastforce
  note st = ByID_state [OF inv q]
  consider (none) "s' = s1" "\<exists>e. r = Inl e"
    | (update) u h where "q = Inr u" "fst (Verify B (f_Hasher f) (u_PasswordHash u) cur)"
      "minLen f \<le> int (length next)" "Hash B salt (f_Hasher f) next = Inr h"
      "us_UpdatePasswordHash S uid h s1 = (r, s')"
    using c q S by (auto simp: ChangePassword_def not_less split: if_splits sum.splits)
  then have "inv s' \<and>
    (r = Inr () \<longrightarrow> (\<exists>u h. tbl s uid = Some u \<and> fst (Verify B (f_Hasher f) (u_PasswordHash u) cur)
      \<and> minLen f \<le> int (length next) \<and> Hash B salt (f_Hasher f) next = Inr h
      \<and> tbl s' = (tbl s)(uid \<mapsto> u\<lparr>u_PasswordHash := h\<rparr>))) \<and>
    (\<forall>e. r = Inl e \<longrightarrow> tbl s' = tbl s \<or> (\<exists>u h. tbl s uid = Some u
      \<and> fst (Verify B (f_Hasher f) (u_PasswordHash u) cur)
      \<and> minLen f \<le> int (length next) \<and> Hash B salt (f_Hasher f) next = Inr h
      \<and> tbl s' = (tbl s)(uid \<mapsto> u\<lparr>u_PasswordHash := h\<rparr>)))"
  proof cases
    case none
    with st show ?thesis by auto
  next
    case (update u h)
    have u: "tbl s uid = Some u" using ByID_found [OF inv] q update(1) by blast
    with st update show ?thesis
      using UpdatePasswordHash_ok [of s1 uid h s'] UpdatePasswordHash_err [of s1 uid h _ s']
      by (cases r) fastforce+
  qed
  then show "inv s'"
    and "r = Inr () \<Longrightarrow> \<exists>u h. tbl s uid = Some u \<and> fst (Verify B (f_Hasher f) (u_PasswordHash u) cur)
      \<and> minLen f \<le> int (length next) \<and> Hash B salt (f_Hasher f) next = Inr h
      \<and> tbl s' = (tbl s)(uid \<mapsto> u\<lparr>u_PasswordHash := h\<rparr>)"
    and "r = Inl e \<Longrightarrow> tbl s' = tbl s \<or> (\<exists>u h. tbl s uid = Some u
      \<and> fst (Verify B (f_Hasher f) (u_PasswordHash u) cur)
      \<and> minLen f \<le> int (length next) \<and> Hash B salt (f_Hasher f) next = Inr h
      \<and> tbl s' = (tbl s)(uid \<mapsto> u\<lparr>u_PasswordHash := h\<rparr>))"
    by blast+
qed

lemma Register_created:
  assumes inv: "inv s" and S: "f_Users f = S"
    and c: "Register B salt f username email pw s = (Inr u, s')"
  shows "inv s' \<and> u_Username u = TrimSpace username \<and> u_Username u \<noteq> []
    \<and> u_Email u = TrimSpace email \<and> u_Role u = f_DefaultRole f \<and> \<not> u_EmailVerified u
    \<and> minLen f \<le> int (length pw) \<and> Hash B salt (f_Hasher f) pw = Inr (u_PasswordHash u)
    \<and> (\<forall>i v. tbl s i = Some v \<longrightarrow> \<not> named lower (u_Username u) v)
    \<and> tbl s (u_ID u) = None \<and> (\<exists>t. tbl s' = (tbl s)(u_ID u \<mapsto> u\<lparr>u_CreatedAt := t\<rparr>))"
proof -
  let ?n = "TrimSpace username"
  obtain q s1 where q: "us_ByUsername S ?n s = (q, s1)" by fastforce
  note st = ByUsername_state [OF inv q]
  from c S q obtain err hash uid where n: "?n \<noteq> []" "minLen f \<le> int (length pw)"
    and e: "q = Inl err" "errors_Is err (Sentinel Users_ErrNotFound)"
    and h: "Hash B salt (f_Hasher f) pw = Inr hash"
    and u: "us_Create S \<lparr>u_ID = 0, u_Username = ?n, u_Email = TrimSpace email, u_PasswordHash = hash,
        u_Role = f_DefaultRole f, u_EmailVerified = False, u_CreatedAt = 0\<rparr> s1 = (Inr uid, s')"
      "u = \<lparr>u_ID = uid, u_Username = ?n, u_Email = TrimSpace email, u_PasswordHash = hash,
        u_Role = f_DefaultRole f, u_EmailVerified = False, u_CreatedAt = 0\<rparr>"
    by (auto simp: Register_def Let_def not_less split: if_splits sum.splits prod.splits)
  have "\<forall>i v. tbl s i = Some v \<longrightarrow> \<not> named lower ?n v"
    using ByUsername_none [OF inv] q e by (auto simp: named_def)
  with st n h u Create_ok [OF conjunct1 [OF st] u(1)] show ?thesis by auto
qed

text \<open>Whatever fails on the way, a registration adds at most one account, as the form asks and under a free name.\<close>

lemma Register_adds:
  assumes inv: "inv s" and S: "f_Users f = S" and c: "Register B salt f username email pw s = (r, s')"
  shows "inv s' \<and> (tbl s' = tbl s \<or> (\<exists>i v. tbl s i = None \<and> tbl s' = (tbl s)(i \<mapsto> v)
    \<and> newcomer B salt f username email pw v \<and> (\<forall>j w. tbl s j = Some w \<longrightarrow> \<not> named lower (u_Username v) w)))"
proof -
  let ?n = "TrimSpace username"
  let ?u = "\<lambda>hash. \<lparr>u_ID = 0, u_Username = ?n, u_Email = TrimSpace email, u_PasswordHash = hash,
    u_Role = f_DefaultRole f, u_EmailVerified = False, u_CreatedAt = 0\<rparr>"
  obtain q s1 where q: "us_ByUsername S ?n s = (q, s1)" by (rule prod.exhaust)
  note st = ByUsername_state [OF inv q]
  consider (none) "s' = s \<or> s' = s1"
    | (create) err hash x where "q = Inl err" "errors_Is err (Sentinel Users_ErrNotFound)" "?n \<noteq> []"
      "minLen f \<le> int (length pw)" "Hash B salt (f_Hasher f) pw = Inr hash" "us_Create S (?u hash) s1 = (x, s')"
    using c S q by (auto simp: Register_def Let_def not_less split: if_splits sum.splits prod.splits)
  then show ?thesis
  proof cases
    case none
    with inv st show ?thesis by auto
  next
    case (create err hash x)
    have free: "\<forall>j w. tbl s j = Some w \<longrightarrow> \<not> named lower ?n w"
      using ByUsername_none [OF inv q [unfolded create(1)] create(2)] by (auto simp: named_def)
    have new: "newcomer B salt f username email pw (?u hash\<lparr>u_ID := i, u_EmailVerified := False, u_CreatedAt := t\<rparr>)" for i t
      using create(3-5) by (simp add: newcomer_def)
    have "inv s' \<and> (tbl s' = tbl s \<or> (\<exists>i t. tbl s i = None
        \<and> tbl s' = (tbl s)(i \<mapsto> ?u hash\<lparr>u_ID := i, u_EmailVerified := False, u_CreatedAt := t\<rparr>)))"
      using Create_ok [OF conjunct1 [OF st], of "?u hash" _ s'] Create_err [OF conjunct1 [OF st], of "?u hash" _ s']
        create(6) st by (cases x) auto
    then show ?thesis
    proof (elim conjE disjE exE)
      fix i t
      assume "inv s'" "tbl s i = None" "tbl s' = (tbl s)(i \<mapsto> ?u hash\<lparr>u_ID := i, u_EmailVerified := False, u_CreatedAt := t\<rparr>)"
      with free new [of t i] show ?thesis
        by (intro conjI disjI2 exI [of _ i] exI [of _ "?u hash\<lparr>u_ID := i, u_EmailVerified := False, u_CreatedAt := t\<rparr>"]) simp_all
    qed simp
  qed
qed

end

section \<open>Behaviour on a Postgres store that answers\<close>

lemma pg_find_user:
  assumes "healthy db" and "f_Users f = PGStore lower"
  shows "find_user f n db =
    (case find (named lower n) (pg_scan db) of
       Some u \<Rightarrow> (Inr u, next_stmt db)
     | None \<Rightarrow> (case find (mailed lower n) (pg_scan db) of
                   Some u \<Rightarrow> (Inr u, next_stmt (next_stmt db))
                 | None \<Rightarrow> (Inl (Sentinel Users_ErrNotFound), next_stmt (next_stmt db))))"
  using assms
  by (auto simp: find_user_def PGStore_def ByUsername_def ByEmail_def query_row_healthy
      named_def [abs_def] mailed_def [abs_def] split: option.splits)

lemma Authenticate_healthy:
  assumes "healthy db" and f: "f_Users f = PGStore lower" and "find_user f (TrimSpace ident) db = (r, db1)"
    and "healthy db1"
  shows "Authenticate B salt f ident pw db =
    (case r of
       Inl err \<Rightarrow> (if errors_Is err (Sentinel Users_ErrNotFound)
                   then Inl (Sentinel Authflow_ErrBadCredentials) else Inl err, db1)
     | Inr u \<Rightarrow>
         if \<not> fst (Verify B (f_Hasher f) (u_PasswordHash u) pw)
         then (Inl (Sentinel Authflow_ErrBadCredentials), db1)
         else if Check B (f_Hasher f) (u_PasswordHash u) pw then (Inr u, db1)
         else (case Hash B salt (f_Hasher f) pw of
                 Inl _ \<Rightarrow> (Inr u, db1)
               | Inr h \<Rightarrow> (Inr u, (next_stmt db1)\<lparr>pg_rows :=
                   map (\<lambda>v. if u_ID v = u_ID u then v\<lparr>u_PasswordHash := h\<rparr> else v) (pg_rows db1)\<rparr>)))"
  using assms
  by (auto simp: Authenticate_def PGStore_def UpdatePasswordHash_def exec_update_healthy
      Verify_rehash_iff split: sum.splits prod.splits)
    (metis Verify_rehash_iff snd_conv fst_conv)+

text \<open>The accounts an identifier stands for: those of that username, or else those of that email.\<close>

definition login_matches :: "(string \<Rightarrow> string) \<Rightarrow> string \<Rightarrow> users_db \<Rightarrow> user \<Rightarrow> bool" where
  "login_matches lower n db u \<longleftrightarrow> u \<in> set (pg_rows db) \<and>
     (named lower n u \<or> mailed lower n u \<and> (\<forall>v\<in>set (pg_rows db). \<not> named lower n v))"

lemma pg_find_user_matches:
  assumes "healthy db" and "f_Users f = PGStore lower"
  shows "(\<exists>u db1. find_user f n db = (Inr u, db1) \<and> healthy db1 \<and> pg_rows db1 = pg_rows db
            \<and> pg_next db1 = pg_next db \<and> login_matches lower n db u)
       \<or> (\<exists>db1. find_user f n db = (Inl (Sentinel Users_ErrNotFound), db1) \<and> healthy db1
            \<and> pg_rows db1 = pg_rows db \<and> pg_next db1 = pg_next db \<and> (\<forall>u. \<not> login_matches lower n db u))"
proof (cases "find (named lower n) (pg_scan db)")
  case (Some u)
  with assms show ?thesis using find_scan_Some [OF Some] by (auto simp: pg_find_user login_matches_def)
next
  case None
  then have no: "\<forall>v\<in>set (pg_rows db). \<not> named lower n v" by (simp add: find_scan_None)
  show ?thesis
  proof (cases "find (mailed lower n) (pg_scan db)")
    case (Some u)
    with assms None no show ?thesis using find_scan_Some [OF Some]
      by (auto simp: pg_find_user login_matches_def)
  next
    case none: None
    then have "\<forall>v\<in>set (pg_rows db). \<not> mailed lower n v" by (simp add: find_scan_None)
    with None none no assms show ?thesis by (auto simp: pg_find_user login_matches_def)
  qed
qed

lemma Authenticate_result:
  assumes "healthy db" and "f_Users f = PGStore lower"
  shows "(\<exists>u db1. login_matches lower (TrimSpace ident) db u \<and> fst (Verify B (f_Hasher f) (u_PasswordHash u) pw)
           \<and> healthy db1 \<and> pg_rows db1 = pg_rows db \<and> pg_next db1 = pg_next db
           \<and> Authenticate B salt f ident pw db =
               (if Check B (f_Hasher f) (u_PasswordHash u) pw then (Inr u, db1)
                else case Hash B salt (f_Hasher f) pw of
                       Inl _ \<Rightarrow> (Inr u, db1)
                     | Inr h \<Rightarrow> (Inr u, (next_stmt db1)\<lparr>pg_rows :=
                         map (\<lambda>v. if u_ID v = u_ID u then v\<lparr>u_PasswordHash := h\<rparr> else v) (pg_rows db1)\<rparr>)))
       \<or> (\<exists>u db1. login_matches lower (TrimSpace ident) db u \<and> \<not> fst (Verify B (f_Hasher f) (u_PasswordHash u) pw)
           \<and> Authenticate B salt f ident pw db = (Inl (Sentinel Authflow_ErrBadCredentials), db1)
           \<and> pg_rows db1 = pg_rows db)
       \<or> ((\<forall>u. \<not> login_matches lower (TrimSpace ident) db u)
           \<and> (\<exists>db1. Authenticate B salt f ident pw db = (Inl (Sentinel Authflow_ErrBadCredentials), db1)
           \<and> pg_rows db1 = pg_rows db))"
  using pg_find_user_matches [OF assms, of "TrimSpace ident"]
proof
  assume "\<exists>u db1. find_user f (TrimSpace ident) db = (Inr u, db1) \<and> healthy db1 \<and> pg_rows db1 = pg_rows db
      \<and> pg_next db1 = pg_next db \<and> login_matches lower (TrimSpace ident) db u"
  then obtain u db1 where fu: "find_user f (TrimSpace ident) db = (Inr u, db1)" "healthy db1"
    "pg_rows db1 = pg_rows db" "pg_next db1 = pg_next db" "login_matches lower (TrimSpace ident) db u" by blast
  note A = Authenticate_healthy [OF assms fu(1,2)]
  show ?thesis
  proof (cases "fst (Verify B (f_Hasher f) (u_PasswordHash u) pw)")
    case True
    with A fu show ?thesis by (intro disjI1 exI [of _ u] exI [of _ db1]) simp
  next
    case False
    with A fu show ?thesis by (intro disjI2 disjI1 exI [of _ u] exI [of _ db1]) simp
  qed
next
  assume "\<exists>db1. find_user f (TrimSpace ident) db = (Inl (Sentinel Users_ErrNotFound), db1) \<and> healthy db1
      \<and> pg_rows db1 = pg_rows db \<and> pg_next db1 = pg_next db \<and> (\<forall>u. \<not> login_matches lower (TrimSpace ident) db u)"
  then obtain db1 where fu: "find_user f (TrimSpace ident) db = (Inl (Sentinel Users_ErrNotFound), db1)" "healthy db1"
    "pg_rows db1 = pg_rows db" "\<forall>u. \<not> login_matches lower (TrimSpace ident) db u" by blast
  with Authenticate_healthy [OF assms fu(1,2)] show ?thesis by simp
qed

lemma Authenticate_fst:
  assumes "healthy db" and "f_Users f = PGStore lower"
  shows "(\<exists>u. login_matches lower (TrimSpace ident) db u \<and> fst (Verify B (f_Hasher f) (u_PasswordHash u) pw)
            \<and> fst (Authenticate B salt f ident pw db) = Inr u)
       \<or> (\<exists>u. login_matches lower (TrimSpace ident) db u \<and> \<not> fst (Verify B (f_Hasher f) (u_PasswordHash u) pw)
            \<and> fst (Authenticate B salt f ident pw db) = Inl (Sentinel Authflow_ErrBadCredentials))
       \<or> (\<forall>u. \<not> login_matches lower (TrimSpace ident) db u)
            \<and> fst (Authenticate B salt f ident pw db) = Inl (Sentinel Authflow_ErrBadCredentials)"
  using Authenticate_result [OF assms, of ident B pw salt]
proof (elim disjE exE conjE)
  fix u db1
  assume u: "login_matches lower (TrimSpace ident) db u" "fst (Verify B (f_Hasher f) (u_PasswordHash u) pw)"
    and A: "Authenticate B salt f ident pw db =
      (if Check B (f_Hasher f) (u_PasswordHash u) pw then (Inr u, db1)
       else case Hash B salt (f_Hasher f) pw of
              Inl _ \<Rightarrow> (Inr u, db1)
            | Inr h \<Rightarrow> (Inr u, (next_stmt db1)\<lparr>pg_rows :=
                map (\<lambda>v. if u_ID v = u_ID u then v\<lparr>u_PasswordHash := h\<rparr> else v) (pg_rows db1)\<rparr>))"
  then have "fst (Authenticate B salt f ident pw db) = Inr u" by (simp split: sum.split)
  with u show ?thesis by blast
qed auto

lemma Register_healthy: "healthy db \<Longrightarrow> f_Users f = PGStore lower \<Longrightarrow> healthy (snd (Register B salt f n m pw db))"
  by (auto simp: Register_def Let_def PGStore_def ByUsername_def Create_def query_row_healthy stmt_healthy
      split: sum.splits option.splits)

lemma ChangePassword_healthy:
  "healthy db \<Longrightarrow> f_Users f = PGStore lower \<Longrightarrow> healthy (snd (ChangePassword B salt f i cur new db))"
  by (auto simp: ChangePassword_def PGStore_def ByID_def UpdatePasswordHash_def query_row_healthy
      exec_update_healthy split: sum.splits option.splits)

section \<open>Properties\<close>

definition ex_row :: "int \<Rightarrow> string \<Rightarrow> string \<Rightarrow> string \<Rightarrow> user" where
  "ex_row i n m h = \<lparr>u_ID = i, u_Username = n, u_Email = m, u_PasswordHash = h, u_Role = RoleUser,
     u_EmailVerified = False, u_CreatedAt = 5\<rparr>"

definition ex_flow :: "users_db flow" where
  "ex_flow = \<lparr>f_Users = PGStore (\<lambda>x. x), f_Hasher = \<lparr>Pepper = [], PrevPepper = [], Cost = 0\<rparr>,
     f_DefaultRole = RoleUser, f_MinPasswordLen = 0\<rparr>"

definition ex_users :: users_db where
  "ex_users = pg_table [ex_row 1 ''bob'' ''b@x'' ''secret12'', ex_row 2 ''eve'' [] ''password''] 3 9"

lemma ex_users_inv [simp]: "users_inv ex_users" "healthy ex_users" "f_Users ex_flow = PGStore (\<lambda>x. x)"
  by (auto simp: ex_users_def users_inv_def pg_table_def ex_row_def ex_flow_def healthy_def)

lemma ex_flow_fields:
  "f_Users ex_flow = PGStore (\<lambda>x. x)" "minLen ex_flow = 8" "f_DefaultRole ex_flow = RoleUser"
  "Pepper (f_Hasher ex_flow) = []" "PrevPepper (f_Hasher ex_flow) = []"
  by (simp_all add: ex_flow_def minLen_def)

lemma ex_flow_Hash: "length pw \<le> 72 \<Longrightarrow> Hash plain_bcrypt salt (f_Hasher ex_flow) pw = Inr pw"
  by (simp add: Hash_def ex_flow_fields peppered_def plain_bcrypt_def)

lemma ex_flow_Verify: "Verify plain_bcrypt (f_Hasher ex_flow) hash pw = (hash = pw, False)"
  by (simp add: Verify_def Check_def ex_flow_fields peppered_def plain_bcrypt_def)

lemma Trim_bob [simp]: "TrimSpace ''bob'' = ''bob''" "TrimSpace ''eve'' = ''eve''" "TrimSpace ''b@x'' = ''b@x''"
  by (rule TrimSpace_visible; simp add: visible_def)+

text \<open>
  C1. Authentication lets in only an account of the store, under its own password. Whatever the
  database does during the call: a user is returned only if it is the stored user whose username
  is the trimmed identifier up to case, or whose nonempty email is when no username is, and its
  stored hash accepts the password; the only write is the rehash of that user's hash, and only
  when the current pepper does not accept it. A refusal writes nothing and never says "not found".
\<close>

theorem Authenticate_sound:
  assumes "users_inv db" and "f_Users f = PGStore lower"
    and "Authenticate B salt f ident pw db = (r, db')"
  shows "users_inv db' \<and>
    (case r of
       Inr u \<Rightarrow> users_tbl db (u_ID u) = Some u \<and> fst (Verify B (f_Hasher f) (u_PasswordHash u) pw)
         \<and> (named lower (TrimSpace ident) u \<or> mailed lower (TrimSpace ident) u
              \<and> (\<forall>i v. users_tbl db i = Some v \<longrightarrow> \<not> named lower (TrimSpace ident) v))
         \<and> (users_tbl db' = users_tbl db \<or> (\<exists>h. \<not> Check B (f_Hasher f) (u_PasswordHash u) pw
              \<and> Hash B salt (f_Hasher f) pw = Inr h
              \<and> users_tbl db' = (users_tbl db)(u_ID u \<mapsto> u\<lparr>u_PasswordHash := h\<rparr>)))
     | Inl e \<Rightarrow> users_tbl db' = users_tbl db \<and> \<not> errors_Is e (Sentinel Users_ErrNotFound))"
proof (cases r)
  case (Inr u)
  with pg_users.Authenticate_granted [OF assms(1,2) assms(3) [unfolded Inr]] show ?thesis by simp
next
  case (Inl e)
  with pg_users.Authenticate_refused [OF assms(1,2) assms(3) [unfolded Inl]] show ?thesis by simp
qed

theorem Authenticate_sound_witness:
  "Authenticate plain_bcrypt [] ex_flow ''bob'' ''secret12'' ex_users
      = (Inr (ex_row 1 ''bob'' ''b@x'' ''secret12''), ex_users)
    \<and> users_tbl ex_users 1 = Some (ex_row 1 ''bob'' ''b@x'' ''secret12'')"
proof -
  have run: "Authenticate plain_bcrypt [] ex_flow ''bob'' ''secret12'' ex_users
      = (Inr (ex_row 1 ''bob'' ''b@x'' ''secret12''), ex_users)"
    by (simp add: Authenticate_def pg_find_user [where lower = "\<lambda>x. x"])
      (simp add: ex_users_def pg_table_def pg_scan_def next_stmt_def ex_row_def named_def ex_flow_def
        Verify_def Check_def peppered_def plain_bcrypt_def)
  with Authenticate_sound [of ex_users ex_flow "\<lambda>x. x", OF _ _ run]
  show ?thesis by (simp add: ex_row_def)
qed

text \<open>
  C26. Authentication is complete and uniform. When the database answers and the identifier stands
  for at most one account, that account is returned iff its hash accepts the password, and every
  other case - unknown identifier, wrong password - is the same \<open>ErrBadCredentials\<close>.
\<close>

theorem Authenticate_complete:
  assumes "healthy db" and "f_Users f = PGStore lower"
    and "\<And>u v. login_matches lower (TrimSpace ident) db u \<Longrightarrow> login_matches lower (TrimSpace ident) db v \<Longrightarrow> u = v"
  shows "(\<forall>u. fst (Authenticate B salt f ident pw db) = Inr u \<longleftrightarrow>
      login_matches lower (TrimSpace ident) db u \<and> fst (Verify B (f_Hasher f) (u_PasswordHash u) pw))
    \<and> (fst (Authenticate B salt f ident pw db) = Inl (Sentinel Authflow_ErrBadCredentials) \<longleftrightarrow>
      (\<forall>u. login_matches lower (TrimSpace ident) db u \<longrightarrow> \<not> fst (Verify B (f_Hasher f) (u_PasswordHash u) pw)))"
  using Authenticate_fst [OF assms(1,2), of ident B pw salt]
proof (elim disjE exE conjE)
  fix u
  assume u: "login_matches lower (TrimSpace ident) db u"
  have "login_matches lower (TrimSpace ident) db v \<longleftrightarrow> v = u" for v using assms(3) u by blast
  moreover assume "fst (Verify B (f_Hasher f) (u_PasswordHash u) pw)"
    and "fst (Authenticate B salt f ident pw db) = Inr u"
  ultimately show ?thesis by auto
next
  fix u
  assume u: "login_matches lower (TrimSpace ident) db u"
  have "login_matches lower (TrimSpace ident) db v \<longleftrightarrow> v = u" for v using assms(3) u by blast
  moreover assume "\<not> fst (Verify B (f_Hasher f) (u_PasswordHash u) pw)"
    and "fst (Authenticate B salt f ident pw db) = Inl (Sentinel Authflow_ErrBadCredentials)"
  ultimately show ?thesis by auto
qed auto

theorem Authenticate_complete_witness:
  "fst (Authenticate plain_bcrypt [] ex_flow ''bob'' ''wrong'' ex_users)
      = Inl (Sentinel Authflow_ErrBadCredentials)"
proof -
  have m: "login_matches (\<lambda>x. x) (TrimSpace ''bob'') ex_users u \<longleftrightarrow> u = ex_row 1 ''bob'' ''b@x'' ''secret12''" for u
    by (auto simp: login_matches_def named_def ex_users_def pg_table_def ex_row_def)
  have "\<not> fst (Verify plain_bcrypt (f_Hasher ex_flow) ''secret12'' ''wrong'')"
    by (simp add: ex_flow_def Verify_def Check_def peppered_def plain_bcrypt_def)
  then show ?thesis
    using Authenticate_complete [of ex_users ex_flow "\<lambda>x. x" "''bob''" plain_bcrypt "[]" "''wrong''"]
    unfolding m by (simp add: ex_row_def)
qed

lemma named_new_row:
  assumes inv: "users_inv db" and inv': "users_inv db'"
    and tbl: "users_tbl db' = (users_tbl db)(i \<mapsto> v)" and "users_tbl db i = None"
    and fresh: "\<forall>j w. users_tbl db j = Some w \<longrightarrow> \<not> named lower n w" and v: "named lower n v" "u_ID v = i"
  shows "login_matches lower n db' u \<longleftrightarrow> u = v"
proof -
  have rows: "w \<in> set (pg_rows db') \<longleftrightarrow> w = v \<or> w \<in> set (pg_rows db)" for w
    using users_tbl_iff [OF inv', of "u_ID w" w] users_tbl_iff [OF inv, of "u_ID w" w] tbl assms(4) v(2)
    by (auto split: if_splits)
  moreover have "\<not> named lower n w" if "w \<in> set (pg_rows db)" for w
    using fresh users_tbl_iff [OF inv, of "u_ID w" w] that by blast
  ultimately show ?thesis using v(1) by (auto simp: login_matches_def)
qed

text \<open>
  C11. Registration and login fit together: after a successful \<open>Register\<close> on a database that
  answers, \<open>Authenticate\<close> with the same username (whatever its spacing) and password returns the
  new account, and changes nothing in the table; another password is refused. That bcrypt tells another password
  apart is documented behaviour of bcrypt about its own inputs (\<open>bcrypt_tight\<close>: what it generates from the peppered
  password does not compare with the other password, peppered with the current or the previous pepper); that the login
  then refuses it is proved.
\<close>

theorem register_then_authenticate:
  assumes "users_inv db" and "healthy db" and f: "f_Users f = PGStore lower" and "bcrypt_sound B"
    and reg: "Register B salt f username email pw db = (Inr u, db')"
  shows "\<exists>t. fst (Authenticate B salt2 f username pw db') = Inr (u\<lparr>u_CreatedAt := t\<rparr>)
    \<and> pg_rows (snd (Authenticate B salt2 f username pw db')) = pg_rows db'
    \<and> (bcrypt_tight B (peppered pw (Pepper (f_Hasher f))) (peppered other (Pepper (f_Hasher f)))
       \<and> bcrypt_tight B (peppered pw (Pepper (f_Hasher f))) (peppered other (PrevPepper (f_Hasher f))) \<longrightarrow>
         fst (Authenticate B salt2 f username other db') = Inl (Sentinel Authflow_ErrBadCredentials))"
proof -
  note R = pg_users.Register_created [OF assms(1) f reg]
  from R obtain t where t: "users_tbl db' = (users_tbl db)(u_ID u \<mapsto> u\<lparr>u_CreatedAt := t\<rparr>)" by blast
  have hd: "healthy db'" using Register_healthy [OF assms(2) f, of B salt username email pw] reg by simp
  have m: "login_matches lower (TrimSpace username) db' w \<longleftrightarrow> w = u\<lparr>u_CreatedAt := t\<rparr>" for w
    using R by (intro named_new_row [OF assms(1) _ t]) (auto simp: named_def)
  have ok: "Check B (f_Hasher f) (u_PasswordHash u) pw" using R assms(4) by (auto intro: Hash_Check)
  then have "fst (Verify B (f_Hasher f) (u_PasswordHash u) pw)" by (simp add: Verify_ok_iff)
  with ok Authenticate_result [OF hd f, of username B pw salt2] m
  have "fst (Authenticate B salt2 f username pw db') = Inr (u\<lparr>u_CreatedAt := t\<rparr>)
      \<and> pg_rows (snd (Authenticate B salt2 f username pw db')) = pg_rows db'" by auto
  moreover have "fst (Authenticate B salt2 f username other db') = Inl (Sentinel Authflow_ErrBadCredentials)"
    if tight: "bcrypt_tight B (peppered pw (Pepper (f_Hasher f))) (peppered other (Pepper (f_Hasher f)))"
      "bcrypt_tight B (peppered pw (Pepper (f_Hasher f))) (peppered other (PrevPepper (f_Hasher f)))"
  proof -
    have "\<not> fst (Verify B (f_Hasher f) (u_PasswordHash u) other)"
      using R tight by (auto simp: Verify_ok_iff Check_def Hash_def bcrypt_tight_def)
    then show ?thesis using Authenticate_fst [OF hd f, of username B other salt2] m by auto
  qed
  ultimately show ?thesis by blast
qed

theorem register_then_authenticate_witness:
  "\<exists>u db'. Register plain_bcrypt [] ex_flow ''bob'' [] ''secret12'' (pg_table [] 1 9) = (Inr u, db')
     \<and> fst (Authenticate plain_bcrypt [] ex_flow ''bob'' ''secret12'' db') = Inr (u\<lparr>u_CreatedAt := 9\<rparr>)
     \<and> fst (Authenticate plain_bcrypt [] ex_flow ''bob'' ''guess'' db') = Inl (Sentinel Authflow_ErrBadCredentials)"
proof -
  let ?u = "(ex_row 1 ''bob'' [] ''secret12'')\<lparr>u_CreatedAt := 0\<rparr>"
  let ?db = "pg_table [ex_row 1 ''bob'' [] ''secret12''\<lparr>u_CreatedAt := 9\<rparr>] 2 9"
  have reg: "Register plain_bcrypt [] ex_flow ''bob'' [] ''secret12'' (pg_table [] 1 9) = (Inr ?u, ?db)"
    using ex_flow_Hash [of "''secret12''" "[]"]
    by (simp add: Register_def Let_def ex_flow_fields PGStore_def ByUsername_def Create_def
        query_row_healthy stmt_healthy i32_ok_def)
      (simp add: pg_table_def pg_scan_def next_stmt_def ex_row_def Let_def ex_flow_fields PGStore_def
        Create_def stmt_def i32_ok_def)
  have "users_inv (pg_table [] 1 9 :: users_db)" by (simp add: users_inv_def pg_table_def)
  from register_then_authenticate [OF this healthy_table ex_users_inv(3) plain_bcrypt_promises(1) reg,
      of "[]" "''guess''"]
  obtain t where t: "fst (Authenticate plain_bcrypt [] ex_flow ''bob'' ''secret12'' ?db) = Inr (?u\<lparr>u_CreatedAt := t\<rparr>)"
    and no: "bcrypt_tight plain_bcrypt (peppered ''secret12'' (Pepper (f_Hasher ex_flow))) (peppered ''guess'' (Pepper (f_Hasher ex_flow)))
      \<and> bcrypt_tight plain_bcrypt (peppered ''secret12'' (Pepper (f_Hasher ex_flow))) (peppered ''guess'' (PrevPepper (f_Hasher ex_flow))) \<longrightarrow>
      fst (Authenticate plain_bcrypt [] ex_flow ''bob'' ''guess'' ?db) = Inl (Sentinel Authflow_ErrBadCredentials)"
    by blast
  have "login_matches (\<lambda>x. x) (TrimSpace ''bob'') ?db w \<Longrightarrow> 9 = u_CreatedAt w" for w
    by (auto simp: login_matches_def pg_table_def)
  with Authenticate_fst [OF _ ex_users_inv(3), of ?db "''bob''" plain_bcrypt "''secret12''" "[]"] t
  have "t = 9" by (force simp: ex_row_def)
  with reg t no show ?thesis
    by (intro exI [of _ ?u] exI [of _ ?db])
      (simp add: ex_flow_fields peppered_def ex_row_def)
qed

text \<open>
  Changing a password. On success (whatever the database did before) the account existed,
  the current password was right and the new one long enough, only that account's hash changed,
  and the new hash accepts the new password without a rehash and refuses every password whose
  peppered form bcrypt tells apart from it, under the current and the previous pepper. On an error
  no other account changed, and this one only if the current password was right.
\<close>

theorem change_password_effect:
  assumes "users_inv db" and f: "f_Users f = PGStore lower" and "bcrypt_sound B"
    and c: "ChangePassword B salt f uid cur new db = (r, db')"
    and "bcrypt_tight B (peppered new (Pepper (f_Hasher f))) (peppered old (Pepper (f_Hasher f)))"
    and "bcrypt_tight B (peppered new (Pepper (f_Hasher f))) (peppered old (PrevPepper (f_Hasher f)))"
  shows "users_inv db' \<and> (\<forall>i. i \<noteq> uid \<longrightarrow> users_tbl db' i = users_tbl db i) \<and>
    (users_tbl db' \<noteq> users_tbl db \<or> r = Inr () \<longrightarrow>
      (\<exists>u h. users_tbl db uid = Some u \<and> fst (Verify B (f_Hasher f) (u_PasswordHash u) cur)
        \<and> minLen f \<le> int (length new) \<and> users_tbl db' = (users_tbl db)(uid \<mapsto> u\<lparr>u_PasswordHash := h\<rparr>)
        \<and> Verify B (f_Hasher f) h new = (True, False) \<and> \<not> fst (Verify B (f_Hasher f) h old)))"
proof -
  have H: "Verify B (f_Hasher f) h new = (True, False) \<and> \<not> fst (Verify B (f_Hasher f) h old)"
    if "Hash B salt (f_Hasher f) new = Inr h" for h
    using that assms(3,5,6) by (auto simp: Hash_Verify Verify_ok_iff Check_def Hash_def bcrypt_tight_def)
  note C = pg_users.ChangePassword_result [OF assms(1) f c]
  show ?thesis
  proof (cases r)
    case (Inr x)
    with C H show ?thesis by fastforce
  next
    case (Inl e)
    with C(3) [OF Inl] C(1) H show ?thesis by fastforce
  qed
qed

theorem change_password_effect_witness:
  "\<exists>db'. ChangePassword plain_bcrypt [] ex_flow 1 ''secret12'' ''better-one'' ex_users = (Inr (), db')
     \<and> users_tbl db' 1 = Some (ex_row 1 ''bob'' ''b@x'' ''better-one'') \<and> users_tbl db' 2 = users_tbl ex_users 2
     \<and> \<not> fst (Verify plain_bcrypt (f_Hasher ex_flow) ''better-one'' ''secret12'')"
proof -
  let ?db = "pg_table [ex_row 1 ''bob'' ''b@x'' ''better-one'', ex_row 2 ''eve'' [] ''password''] 3 9"
  have c: "ChangePassword plain_bcrypt [] ex_flow 1 ''secret12'' ''better-one'' ex_users = (Inr (), ?db)"
    by (simp add: ChangePassword_def ex_flow_fields PGStore_def ByID_def UpdatePasswordHash_def
        query_row_healthy exec_update_healthy)
      (simp add: ex_users_def pg_table_def pg_scan_def next_stmt_def ex_row_def ex_flow_Verify ex_flow_Hash
        PGStore_def UpdatePasswordHash_def exec_update_def stmt_def)
  have "bcrypt_tight plain_bcrypt (peppered ''better-one'' (Pepper (f_Hasher ex_flow)))
      (peppered ''secret12'' (Pepper (f_Hasher ex_flow)))"
    "bcrypt_tight plain_bcrypt (peppered ''better-one'' (Pepper (f_Hasher ex_flow)))
      (peppered ''secret12'' (PrevPepper (f_Hasher ex_flow)))"
    by (simp_all add: ex_flow_fields peppered_def)
  from change_password_effect [OF ex_users_inv(1) ex_users_inv(3) plain_bcrypt_promises(1) c this]
  have "users_tbl ?db 2 = users_tbl ex_users 2" by (simp add: ex_flow_fields)
  with c show ?thesis by (auto simp: ex_flow_Verify users_tbl_def pg_table_def ex_row_def)
qed

end
