(* ===== verification/Authtoken.thy ===== *)
theory Authtoken
  imports Authflow "HOL-Library.Multiset"
begin

text \<open>
  authtoken/authtoken.go and authtoken/pgstore.go: single-use emailed tokens and the two flows
  built on them, password reset and email verification, over any token store and any user store;
  the Postgres token store; and the step relation of a token table that many requests share. The
  locale \<open>token_store\<close> states what the flows rely on of a token store: its state is read as the
  multiset of unused tokens and a clock. The random bytes (or the error of the generator) and the
  program's clock are arguments; the mailer is the host's function, and every call of it is logged.
\<close>

section \<open>Tokens\<close>

type_synonym purpose = string

definition PasswordReset :: purpose where "PasswordReset = ''password_reset''"
definition EmailVerify :: purpose where "EmailVerify = ''email_verify''"

lemma purposes_differ [simp]: "PasswordReset \<noteq> EmailVerify" "EmailVerify \<noteq> PasswordReset"
  by (simp_all add: PasswordReset_def EmailVerify_def)

record 't token_ops =
  tk_Create :: "int \<Rightarrow> purpose \<Rightarrow> string \<Rightarrow> time \<Rightarrow> ('t, unit) call"
  tk_Consume :: "string \<Rightarrow> purpose \<Rightarrow> ('t, int) call"

definition hashToken :: "string \<Rightarrow> string" where
  "hashToken plaintext = hex_encode (sha256 plaintext)"

definition issue ::
    "gerr + bytes \<Rightarrow> time \<Rightarrow> 't token_ops \<Rightarrow> int \<Rightarrow> purpose \<Rightarrow> duration \<Rightarrow> ('t, string) call" where
  "issue rnd now store userID purpose ttl s =
     (case rnd of
        Inl err \<Rightarrow> (Inl err, s)
      | Inr buf \<Rightarrow>
          let plaintext = base64_rawurl buf
          in case tk_Create store userID purpose (hashToken plaintext) (now + ttl) s of
               (Inl err, s) \<Rightarrow> (Inl err, s)
             | (Inr _, s) \<Rightarrow> (Inr plaintext, s))"

definition redeem :: "'t token_ops \<Rightarrow> string \<Rightarrow> purpose \<Rightarrow> ('t, int) call" where
  "redeem store plaintext purpose s =
     (if TrimSpace plaintext = [] then (Inl (Sentinel Authtoken_ErrInvalidToken), s)
      else tk_Consume store (hashToken plaintext) purpose s)"

section \<open>The flows\<close>

datatype mail = Mail (mail_to: string) (mail_subject: string) (mail_body: string)

record ('t, 's) tflow =
  tf_Tokens :: "'t token_ops"
  tf_Users :: "'s users_ops"
  tf_Hasher :: hasher
  tf_Mail :: "mail \<Rightarrow> gerr option"
  tf_BaseURL :: string
  tf_ResetTTL :: duration
  tf_VerifyTTL :: duration
  tf_MinPwLen :: int

definition resetTTL :: "('t, 's) tflow \<Rightarrow> duration" where
  "resetTTL f = (if tf_ResetTTL f > 0 then tf_ResetTTL f else Hour)"

definition verifyTTL :: "('t, 's) tflow \<Rightarrow> duration" where
  "verifyTTL f = (if tf_VerifyTTL f > 0 then tf_VerifyTTL f else 24 * Hour)"

definition token_minLen :: "('t, 's) tflow \<Rightarrow> int" where
  "token_minLen f = (if tf_MinPwLen f > 0 then tf_MinPwLen f else 8)"

text \<open>The world a flow runs in: the two stores and the mails handed to the mailer.\<close>

record ('t, 's) tworld =
  w_tokens :: 't
  w_users :: 's
  w_sent :: "mail list"

definition on_tokens :: "('t, 'a) call \<Rightarrow> (('t, 's) tworld, 'a) call" where
  "on_tokens c w = (case c (w_tokens w) of (r, t) \<Rightarrow> (r, w\<lparr>w_tokens := t\<rparr>))"

definition on_users :: "('s, 'a) call \<Rightarrow> (('t, 's) tworld, 'a) call" where
  "on_users c w = (case c (w_users w) of (r, s) \<Rightarrow> (r, w\<lparr>w_users := s\<rparr>))"

definition send :: "('t, 's) tflow \<Rightarrow> mail \<Rightarrow> (('t, 's) tworld, unit) call" where
  "send f m w = (case tf_Mail f m of None \<Rightarrow> Inr () | Some err \<Rightarrow> Inl err, w\<lparr>w_sent := w_sent w @ [m]\<rparr>)"

definition nl :: string where "nl = [CHR 0x0A]"

definition reset_link :: "('t, 's) tflow \<Rightarrow> string \<Rightarrow> string" where
  "reset_link f token = tf_BaseURL f @ ''/reset?token='' @ token"

definition verify_link :: "('t, 's) tflow \<Rightarrow> string \<Rightarrow> string" where
  "verify_link f token = tf_BaseURL f @ ''/verify?token='' @ token"

definition reset_mail :: "('t, 's) tflow \<Rightarrow> string \<Rightarrow> string \<Rightarrow> mail" where
  "reset_mail f addr token = Mail addr ''Reset your password''
     (''Someone requested a password reset for your account.'' @ nl @ nl
      @ ''Reset it here (valid for one hour):'' @ nl @ reset_link f token
      @ nl @ nl @ ''If this wasn't you, ignore this email.'')"

definition verify_mail :: "('t, 's) tflow \<Rightarrow> string \<Rightarrow> string \<Rightarrow> mail" where
  "verify_mail f addr token = Mail addr ''Verify your email''
     (''Confirm your email address by visiting:'' @ nl @ verify_link f token
      @ nl @ nl @ ''The link is valid for 24 hours.'')"

lemma reset_mail_parts:
  "mail_to (reset_mail f addr token) = addr"
  "\<exists>pre post. mail_body (reset_mail f addr token) = pre @ reset_link f token @ post"
proof -
  show "mail_to (reset_mail f addr token) = addr" by (simp add: reset_mail_def)
  have "mail_body (reset_mail f addr token) =
      (''Someone requested a password reset for your account.'' @ nl @ nl
        @ ''Reset it here (valid for one hour):'' @ nl)
      @ reset_link f token @ nl @ nl @ ''If this wasn't you, ignore this email.''"
    by (simp only: reset_mail_def mail.sel append_assoc)
  then show "\<exists>pre post. mail_body (reset_mail f addr token) = pre @ reset_link f token @ post" by blast
qed

definition RequestReset ::
    "gerr + bytes \<Rightarrow> time \<Rightarrow> ('t, 's) tflow \<Rightarrow> string \<Rightarrow> (('t, 's) tworld, unit) call" where
  "RequestReset rnd now f email w =
     (case on_users (us_ByEmail (tf_Users f) email) w of
        (Inl err, w) \<Rightarrow>
          if errors_Is err (Sentinel Users_ErrNotFound) then (Inr (), w) else (Inl err, w)
      | (Inr u, w) \<Rightarrow>
          (case on_tokens (issue rnd now (tf_Tokens f) (u_ID u) PasswordReset (resetTTL f)) w of
             (Inl err, w) \<Rightarrow> (Inl err, w)
           | (Inr token, w) \<Rightarrow>
               send f (reset_mail f (u_Email u) token) w))"

definition PerformReset ::
    "bcrypt \<Rightarrow> bytes \<Rightarrow> ('t, 's) tflow \<Rightarrow> string \<Rightarrow> string \<Rightarrow> (('t, 's) tworld, unit) call" where
  "PerformReset B salt f token newPassword w =
     (if int (length newPassword) < token_minLen f then (Inl (Sentinel Authtoken_ErrWeakPassword), w)
      else
        case on_tokens (redeem (tf_Tokens f) token PasswordReset) w of
          (Inl err, w) \<Rightarrow> (Inl err, w)
        | (Inr userID, w) \<Rightarrow>
            (case Hash B salt (tf_Hasher f) newPassword of
               Inl err \<Rightarrow> (Inl err, w)
             | Inr hash \<Rightarrow> on_users (us_UpdatePasswordHash (tf_Users f) userID hash) w))"

definition SendVerify ::
    "gerr + bytes \<Rightarrow> time \<Rightarrow> ('t, 's) tflow \<Rightarrow> int \<Rightarrow> string \<Rightarrow> (('t, 's) tworld, unit) call" where
  "SendVerify rnd now f userID email w =
     (if email = [] then (Inr (), w)
      else
        case on_tokens (issue rnd now (tf_Tokens f) userID EmailVerify (verifyTTL f)) w of
          (Inl err, w) \<Rightarrow> (Inl err, w)
        | (Inr token, w) \<Rightarrow>
            send f (verify_mail f email token) w)"

definition ConfirmVerify :: "('t, 's) tflow \<Rightarrow> string \<Rightarrow> (('t, 's) tworld, int) call" where
  "ConfirmVerify f token w =
     (case on_tokens (redeem (tf_Tokens f) token EmailVerify) w of
        (Inl err, w) \<Rightarrow> (Inl err, w)
      | (Inr userID, w) \<Rightarrow>
          (case on_users (us_SetEmailVerified (tf_Users f) userID True) w of
             (Inl err, w) \<Rightarrow> (Inl err, w)
           | (Inr _, w) \<Rightarrow> (Inr userID, w)))"

section \<open>The Postgres token store\<close>

record token_row =
  t_ID :: int
  t_user_id :: int
  t_purpose :: purpose
  t_token_hash :: string
  t_expires_at :: time
  t_used_at :: "time option"
  t_created_at :: time

type_synonym tokens_db = "token_row pg"

definition token_Create :: "int \<Rightarrow> purpose \<Rightarrow> string \<Rightarrow> time \<Rightarrow> (tokens_db, unit) call" where
  "token_Create userID purpose tokenHash expiresAt = stmt (\<lambda>db.
     (Inr (), db\<lparr>pg_next := pg_next db + 1,
        pg_rows := pg_rows db @ [\<lparr>t_ID = pg_next db, t_user_id = userID, t_purpose = purpose,
          t_token_hash = tokenHash, t_expires_at = expiresAt, t_used_at = None, t_created_at = pg_now db\<rparr>]\<rparr>))"

definition redeemable :: "string \<Rightarrow> purpose \<Rightarrow> time \<Rightarrow> token_row \<Rightarrow> bool" where
  "redeemable tokenHash purpose now t \<longleftrightarrow>
     t_token_hash t = tokenHash \<and> t_purpose t = purpose \<and> t_used_at t = None \<and> t_expires_at t > now"

definition token_Consume :: "string \<Rightarrow> purpose \<Rightarrow> (tokens_db, int) call" where
  "token_Consume tokenHash purpose db =
     (case stmt (\<lambda>db.
             let P = redeemable tokenHash purpose (pg_now db)
             in (case find P (pg_scan db) of
                   None \<Rightarrow> Inl (Sentinel Sql_ErrNoRows) | Some t \<Rightarrow> Inr (t_user_id t),
                 db\<lparr>pg_rows := map (\<lambda>t. if P t then t\<lparr>t_used_at := Some (pg_now db)\<rparr> else t) (pg_rows db)\<rparr>)) db of
        (Inl err, db) \<Rightarrow>
          (if err = Sentinel Sql_ErrNoRows then Inl (Sentinel Authtoken_ErrInvalidToken) else Inl err, db)
      | (Inr userID, db) \<Rightarrow> (Inr userID, db))"

definition TokenPG :: "tokens_db token_ops" where
  "TokenPG = \<lparr>tk_Create = token_Create, tk_Consume = token_Consume\<rparr>"

section \<open>The contract of a token store\<close>

text \<open>
  An unused token is a tuple of purpose, hash, user and expiry. \<open>matching\<close> says which of them a
  redemption at a given time is for.
\<close>

type_synonym unused = "purpose \<times> string \<times> int \<times> time"

definition matching :: "string \<Rightarrow> purpose \<Rightarrow> time \<Rightarrow> unused \<Rightarrow> bool" where
  "matching h p now x \<longleftrightarrow> (case x of (p', h', uid, e) \<Rightarrow> p' = p \<and> h' = h \<and> now < e)"

lemma matching_simps [simp]: "matching h p now (p', h', uid, e) \<longleftrightarrow> p' = p \<and> h' = h \<and> now < e"
  by (simp add: matching_def)

locale token_store =
  fixes T :: "'t token_ops"
    and toks :: "'t \<Rightarrow> unused multiset"
    and clock :: "'t \<Rightarrow> time"
  assumes issue_ok: "tk_Create T uid p h e t = (Inr x, t') \<Longrightarrow>
      clock t' = clock t \<and> toks t' = add_mset (p, h, uid, e) (toks t)"
    and issue_err: "tk_Create T uid p h e t = (Inl err, t') \<Longrightarrow>
      clock t' = clock t \<and> (toks t' = toks t \<or> toks t' = add_mset (p, h, uid, e) (toks t))"
    and consume_ok: "tk_Consume T h p t = (Inr uid, t') \<Longrightarrow>
      clock t' = clock t \<and> toks t' = {#x \<in># toks t. \<not> matching h p (clock t) x#}
      \<and> (\<exists>e. clock t < e \<and> (p, h, uid, e) \<in># toks t)"
    and consume_none: "tk_Consume T h p t = (Inl err, t') \<Longrightarrow>
      errors_Is err (Sentinel Authtoken_ErrInvalidToken) \<Longrightarrow>
      clock t' = clock t \<and> toks t' = toks t \<and> (\<forall>x. x \<in># toks t \<longrightarrow> \<not> matching h p (clock t) x)"
    and consume_err: "tk_Consume T h p t = (Inl err, t') \<Longrightarrow>
      clock t' = clock t \<and> (toks t' = toks t \<or> toks t' = {#x \<in># toks t. \<not> matching h p (clock t) x#})"
begin

lemma redeem_granted:
  assumes "redeem T tok p t = (Inr uid, t')"
  shows "clock t' = clock t \<and> toks t' = {#x \<in># toks t. \<not> matching (hashToken tok) p (clock t) x#}
    \<and> (\<exists>e. clock t < e \<and> (p, hashToken tok, uid, e) \<in># toks t)"
  using assms consume_ok by (auto simp: redeem_def split: if_splits)

lemma redeem_refused:
  assumes "redeem T tok p t = (Inl err, t')"
  shows "clock t' = clock t \<and> (toks t' = toks t
    \<or> toks t' = {#x \<in># toks t. \<not> matching (hashToken tok) p (clock t) x#})"
  using assms consume_err by (auto simp: redeem_def split: if_splits)

text \<open>A token that was redeemed once is refused from then on, for every purpose it was not issued for too.\<close>

lemma redeem_again:
  assumes "redeem T tok p t = (Inr uid, t1)" and "clock t1 \<le> clock t2" and "toks t2 \<subseteq># toks t1"
  shows "fst (redeem T tok p t2) \<noteq> Inr uid2"
proof
  assume again: "fst (redeem T tok p t2) = Inr uid2"
  then obtain t3 where "redeem T tok p t2 = (Inr uid2, t3)" by (cases "redeem T tok p t2") auto
  from redeem_granted [OF this] obtain e where e: "clock t2 < e" "(p, hashToken tok, uid2, e) \<in># toks t2" by blast
  from redeem_granted [OF assms(1)] e assms(2,3) mset_subset_eqD [OF assms(3) e(2)] show False by auto
qed

lemma issue_stored:
  assumes "issue rnd now T uid p ttl t = (Inr plain, t')"
  shows "\<exists>buf. rnd = Inr buf \<and> plain = base64_rawurl buf \<and> clock t' = clock t
    \<and> toks t' = add_mset (p, hashToken plain, uid, now + ttl) (toks t)"
  using assms by (auto simp: issue_def Let_def split: sum.splits prod.splits dest: issue_ok)

lemma issue_effect:
  assumes "issue rnd now T uid p ttl t = (r, t')"
  shows "clock t' = clock t \<and> (toks t' = toks t \<or> (\<exists>buf. rnd = Inr buf
    \<and> toks t' = add_mset (p, hashToken (base64_rawurl buf), uid, now + ttl) (toks t)))"
  using assms by (auto simp: issue_def Let_def split: sum.splits prod.splits dest: issue_ok issue_err)

end

section \<open>The Postgres store keeps the contract\<close>

definition row_token :: "token_row \<Rightarrow> unused" where
  "row_token t = (t_purpose t, t_token_hash t, t_user_id t, t_expires_at t)"

definition unused_tokens :: "tokens_db \<Rightarrow> unused multiset" where
  "unused_tokens db = image_mset row_token (mset (filter (\<lambda>t. t_used_at t = None) (pg_rows db)))"

lemma unused_script [simp]: "unused_tokens (db\<lparr>pg_script := os\<rparr>) = unused_tokens db"
  by (simp add: unused_tokens_def)

lemma redeemable_matching:
  "redeemable h p now t \<longleftrightarrow> t_used_at t = None \<and> matching h p now (row_token t)"
  by (auto simp: redeemable_def row_token_def)

lemma in_unused: "x \<in># unused_tokens db \<longleftrightarrow> (\<exists>t\<in>set (pg_rows db). t_used_at t = None \<and> row_token t = x)"
  by (auto simp: unused_tokens_def)

lemma unused_after_consume:
  "image_mset row_token (mset (filter (\<lambda>t. t_used_at t = None)
     (map (\<lambda>t. if redeemable h p now t then t\<lparr>t_used_at := Some u\<rparr> else t) rows)))
   = {#x \<in># image_mset row_token (mset (filter (\<lambda>t. t_used_at t = None) rows)). \<not> matching h p now x#}"
  by (induction rows) (auto simp: redeemable_matching)

lemma token_Create_result:
  assumes "token_Create uid p h e db = (r, db')"
  shows "pg_now db' = pg_now db"
    and "r = Inr u \<Longrightarrow> unused_tokens db' = add_mset (p, h, uid, e) (unused_tokens db)"
    and "r = Inl err \<Longrightarrow> unused_tokens db' = unused_tokens db
      \<or> unused_tokens db' = add_mset (p, h, uid, e) (unused_tokens db)"
  using assms unfolding token_Create_def
  by (auto simp: stmt_def unused_tokens_def row_token_def split: list.splits outcome.splits)

lemma token_Consume_cases:
  assumes "token_Consume h p db = (r, db')"
  shows "pg_now db' = pg_now db"
    and "r = Inr uid \<Longrightarrow> unused_tokens db' = {#x \<in># unused_tokens db. \<not> matching h p (pg_now db) x#}
      \<and> (\<exists>t\<in>set (pg_rows db). redeemable h p (pg_now db) t \<and> t_user_id t = uid)"
    and "r = Inl (Sentinel Authtoken_ErrInvalidToken) \<Longrightarrow> unused_tokens db' = unused_tokens db
      \<and> (\<forall>x. x \<in># unused_tokens db \<longrightarrow> \<not> matching h p (pg_now db) x)"
    and "unused_tokens db' = unused_tokens db
      \<or> unused_tokens db' = {#x \<in># unused_tokens db. \<not> matching h p (pg_now db) x#}"
    and "r = Inl (Wrapf m err) \<Longrightarrow> False"
proof -
  define body where "body = (\<lambda>db. let P = redeemable h p (pg_now db)
    in (case find P (pg_scan db) of
          None \<Rightarrow> Inl (Sentinel Sql_ErrNoRows) | Some t \<Rightarrow> Inr (t_user_id t),
        db\<lparr>pg_rows := map (\<lambda>t. if P t then t\<lparr>t_used_at := Some (pg_now db)\<rparr> else t) (pg_rows db)\<rparr>)
      :: (gerr + int) \<times> tokens_db)"
  from assms obtain q where q: "stmt body db = (q, db')"
    and r: "r = (case q of Inl err \<Rightarrow> if err = Sentinel Sql_ErrNoRows
        then Inl (Sentinel Authtoken_ErrInvalidToken) else Inl err | Inr u \<Rightarrow> Inr u)"
    by (auto simp: token_Consume_def body_def split: prod.splits sum.splits)
  have body: "pg_now (snd (body (db\<lparr>pg_script := os\<rparr>))) = pg_now db"
    "unused_tokens (snd (body (db\<lparr>pg_script := os\<rparr>))) = {#x \<in># unused_tokens db. \<not> matching h p (pg_now db) x#}"
    "fst (body (db\<lparr>pg_script := os\<rparr>)) = (case find (redeemable h p (pg_now db)) (pg_scan db) of
          None \<Rightarrow> Inl (Sentinel Sql_ErrNoRows) | Some t \<Rightarrow> Inr (t_user_id t))" for os
    unfolding body_def Let_def unused_tokens_def
    by (simp_all del: mset_filter mset_map add: unused_after_consume pg_scan_def)
  have none: "\<forall>t\<in>set (pg_rows db). \<not> redeemable h p (pg_now db) t \<Longrightarrow>
      (\<forall>x. x \<in># unused_tokens db \<longrightarrow> \<not> matching h p (pg_now db) x)"
    by (auto simp: in_unused redeemable_matching)
  then have same: "\<forall>t\<in>set (pg_rows db). \<not> redeemable h p (pg_now db) t \<Longrightarrow>
      {#x \<in># unused_tokens db. \<not> matching h p (pg_now db) x#} = unused_tokens db"
    by (auto simp: filter_mset_eq_conv matching_def)
  show False if "r = Inl (Wrapf m err)"
    using q
  proof (cases rule: stmt_cases)
    case (executed os)
    with body(3) [of os] that r show ?thesis unfolding executed [symmetric]
      by (auto split: option.splits sum.splits if_splits)
  qed (use that r in auto)
  show "pg_now db' = pg_now db"
    using q by (cases rule: stmt_cases) (use body(1) in \<open>metis snd_conv\<close>, auto simp: body(1))
  show "unused_tokens db' = unused_tokens db
      \<or> unused_tokens db' = {#x \<in># unused_tokens db. \<not> matching h p (pg_now db) x#}"
    using q by (cases rule: stmt_cases) (use body(2) in \<open>metis snd_conv\<close>, auto simp: body(2))
  show "unused_tokens db' = {#x \<in># unused_tokens db. \<not> matching h p (pg_now db) x#}
      \<and> (\<exists>t\<in>set (pg_rows db). redeemable h p (pg_now db) t \<and> t_user_id t = uid)" if "r = Inr uid"
    using q
  proof (cases rule: stmt_cases)
    case (executed os)
    from that r have "q = Inr uid" by (auto split: sum.splits if_splits)
    with body(2,3) [of os] show ?thesis unfolding executed [symmetric]
      by (auto split: option.splits dest: find_scan_Some)
  qed (use that r in auto)
  show "unused_tokens db' = unused_tokens db \<and> (\<forall>x. x \<in># unused_tokens db \<longrightarrow> \<not> matching h p (pg_now db) x)"
    if "r = Inl (Sentinel Authtoken_ErrInvalidToken)"
    using q
  proof (cases rule: stmt_cases)
    case (executed os)
    from that r have "q = Inl (Sentinel Sql_ErrNoRows) \<or> q = Inl (Sentinel Authtoken_ErrInvalidToken)"
      by (auto split: sum.splits if_splits)
    with body(2,3) [of os] none same show ?thesis unfolding executed [symmetric]
      by (auto split: option.splits simp: find_scan_None)
  qed (use that r in auto)
qed

interpretation pg_tokens: token_store TokenPG unused_tokens pg_now
proof (unfold_locales, goal_cases)
  case (1 uid p h e t x t')
  then show ?case using token_Create_result(1,2) by (fastforce simp: TokenPG_def)
next
  case (2 uid p h e t err t')
  then show ?case using token_Create_result(1,3) by (fastforce simp: TokenPG_def)
next
  case (3 h p t uid t')
  then have c: "token_Consume h p t = (Inr uid, t')" by (simp add: TokenPG_def)
  from token_Consume_cases(1) [OF c] token_Consume_cases(2) [OF c refl] show ?case
    by (force simp: in_unused redeemable_def row_token_def)
next
  case (4 h p t err t')
  then show ?case using token_Consume_cases(1,3,5) [of h p t "Inl err" t']
    by (cases err) (auto simp: TokenPG_def)
next
  case (5 h p t err t')
  then show ?case using token_Consume_cases(1,4) [of h p t "Inl err" t'] by (auto simp: TokenPG_def)
qed

section \<open>The flows over a token store and a user store\<close>

locale auth_stores = us: users_store S lower tbl inv + tk: token_store T toks clock
  for S :: "'s users_ops" and lower :: "string \<Rightarrow> string" and tbl :: "'s \<Rightarrow> int \<Rightarrow> user option"
    and inv :: "'s \<Rightarrow> bool" and T :: "'t token_ops" and toks :: "'t \<Rightarrow> unused multiset"
    and clock :: "'t \<Rightarrow> time"
begin

text \<open>What a reset can change, whatever fails on the way, and what a success means.\<close>

lemma PerformReset_effect:
  assumes "tf_Tokens f = T" and "tf_Users f = S" and "inv (w_users w)"
    and p: "PerformReset B salt f tok pw w = (r, w')"
  defines "consumed \<equiv> toks (w_tokens w') =
    {#x \<in># toks (w_tokens w). \<not> matching (hashToken tok) PasswordReset (clock (w_tokens w)) x#}"
  shows "inv (w_users w') \<and> w_sent w' = w_sent w \<and> clock (w_tokens w') = clock (w_tokens w)
    \<and> (toks (w_tokens w') = toks (w_tokens w) \<or> consumed)
    \<and> (int (length pw) < token_minLen f \<longrightarrow> r = Inl (Sentinel Authtoken_ErrWeakPassword) \<and> w' = w)
    \<and> (tbl (w_users w') \<noteq> tbl (w_users w) \<or> r = Inr () \<longrightarrow>
        (\<exists>uid e h. (PasswordReset, hashToken tok, uid, e) \<in># toks (w_tokens w) \<and> clock (w_tokens w) < e
          \<and> consumed \<and> token_minLen f \<le> int (length pw) \<and> Hash B salt (tf_Hasher f) pw = Inr h
          \<and> tbl (w_users w') = (tbl (w_users w))
              (uid := map_option (u_PasswordHash_update (\<lambda>_. h)) (tbl (w_users w) uid))))"
proof (cases "int (length pw) < token_minLen f")
  case True
  with p assms(3) show ?thesis by (auto simp: PerformReset_def)
next
  case len: False
  obtain q t where q: "redeem T tok PasswordReset (w_tokens w) = (q, t)" by fastforce
  show ?thesis
  proof (cases q)
    case (Inl err)
    with p len q assms(1) have "w' = w\<lparr>w_tokens := t\<rparr>" "r = Inl err"
      by (auto simp: PerformReset_def on_tokens_def)
    with tk.redeem_refused [OF q [unfolded Inl]] len assms(3) show ?thesis by (auto simp: consumed_def)
  next
    case (Inr uid)
    note red = tk.redeem_granted [OF q [unfolded Inr]]
    show ?thesis
    proof (cases "Hash B salt (tf_Hasher f) pw")
      case (Inl err)
      with p len q Inr assms(1) have "w' = w\<lparr>w_tokens := t\<rparr>" "r = Inl err"
        by (auto simp: PerformReset_def on_tokens_def)
      with red len assms(3) show ?thesis by (auto simp: consumed_def)
    next
      case h: (Inr h)
      obtain x u where x: "us_UpdatePasswordHash S uid h (w_users w) = (x, u)" by fastforce
      with p len q Inr h assms(1,2) have w': "w' = w\<lparr>w_tokens := t, w_users := u\<rparr>" "r = x"
        by (auto simp: PerformReset_def on_tokens_def on_users_def)
      have "inv u \<and> (tbl u = tbl (w_users w) \<and> x \<noteq> Inr () \<or> tbl u = (tbl (w_users w))
          (uid := map_option (u_PasswordHash_update (\<lambda>_. h)) (tbl (w_users w) uid)))"
        using us.UpdatePasswordHash_ok [OF assms(3), of uid h u]
          us.UpdatePasswordHash_err [OF assms(3), of uid h _ u] x by (cases x) auto
      with red len h w' show ?thesis by (auto simp: consumed_def)
    qed
  qed
qed

lemma ConfirmVerify_effect:
  assumes "tf_Tokens f = T" and "tf_Users f = S" and "inv (w_users w)"
    and c: "ConfirmVerify f tok w = (r, w')"
  defines "consumed \<equiv> toks (w_tokens w') =
    {#x \<in># toks (w_tokens w). \<not> matching (hashToken tok) EmailVerify (clock (w_tokens w)) x#}"
  shows "inv (w_users w') \<and> w_sent w' = w_sent w
    \<and> (tbl (w_users w') \<noteq> tbl (w_users w) \<or> (\<exists>i. r = Inr i) \<longrightarrow>
        (\<exists>uid e. (EmailVerify, hashToken tok, uid, e) \<in># toks (w_tokens w) \<and> clock (w_tokens w) < e
          \<and> consumed \<and> (\<forall>i. r = Inr i \<longrightarrow> i = uid)
          \<and> tbl (w_users w') = (tbl (w_users w))
              (uid := map_option (u_EmailVerified_update (\<lambda>_. True)) (tbl (w_users w) uid))))"
proof -
  obtain q t where q: "redeem T tok EmailVerify (w_tokens w) = (q, t)" by fastforce
  show ?thesis
  proof (cases q)
    case (Inl err)
    with c q assms(1) have "w' = w\<lparr>w_tokens := t\<rparr>" "r = Inl err"
      by (auto simp: ConfirmVerify_def on_tokens_def)
    with assms(3) show ?thesis by auto
  next
    case (Inr uid)
    note red = tk.redeem_granted [OF q [unfolded Inr]]
    obtain x u where x: "us_SetEmailVerified S uid True (w_users w) = (x, u)" by fastforce
    with c q Inr assms(1,2) have w': "w' = w\<lparr>w_tokens := t, w_users := u\<rparr>"
      "r = (case x of Inl err \<Rightarrow> Inl err | Inr _ \<Rightarrow> Inr uid)"
      by (auto simp: ConfirmVerify_def on_tokens_def on_users_def split: sum.splits)
    have "inv u \<and> (tbl u = tbl (w_users w) \<and> x \<noteq> Inr () \<or> tbl u = (tbl (w_users w))
        (uid := map_option (u_EmailVerified_update (\<lambda>_. True)) (tbl (w_users w) uid)))"
      using us.SetEmailVerified_ok [OF assms(3), of uid True u]
        us.SetEmailVerified_err [OF assms(3), of uid True _ u] x by (cases x) auto
    with red w' show ?thesis by (auto simp: consumed_def split: sum.splits)
  qed
qed

text \<open>What a request for a mail can change: one token may be stored.\<close>

lemma RequestReset_effect:
  assumes "tf_Tokens f = T" and "tf_Users f = S" and "inv (w_users w)"
    and run: "RequestReset rnd now f email w = (r, w')"
  shows "inv (w_users w') \<and> tbl (w_users w') = tbl (w_users w)
    \<and> clock (w_tokens w') = clock (w_tokens w)
    \<and> (toks (w_tokens w') = toks (w_tokens w) \<or> (\<exists>buf u. rnd = Inr buf \<and> tbl (w_users w) (u_ID u) = Some u
        \<and> mailed lower email u \<and> toks (w_tokens w') = add_mset
            (PasswordReset, hashToken (base64_rawurl buf), u_ID u, now + resetTTL f) (toks (w_tokens w))))"
proof -
  obtain q s1 where q: "us_ByEmail S email (w_users w) = (q, s1)" by (rule prod.exhaust)
  note st = us.ByEmail_state [OF assms(3) q]
  show ?thesis
  proof (cases q)
    case (Inl e)
    with run q assms(2) have "w' = w\<lparr>w_users := s1\<rparr>" by (auto simp: RequestReset_def on_users_def split: if_splits)
    with st show ?thesis by simp
  next
    case (Inr u)
    have u: "tbl (w_users w) (u_ID u) = Some u" "mailed lower email u"
      using us.ByEmail_found [OF assms(3) q [unfolded Inr]] by (auto simp: mailed_def)
    obtain x t where x: "issue rnd now T (u_ID u) PasswordReset (resetTTL f) (w_tokens w) = (x, t)" by (rule prod.exhaust)
    from run q Inr assms(1,2) x have "w_users w' = s1" "w_tokens w' = t"
      by (auto simp: RequestReset_def on_users_def on_tokens_def send_def split: sum.splits)
    with st u tk.issue_effect [OF x] show ?thesis by auto
  qed
qed

lemma SendVerify_effect:
  assumes "tf_Tokens f = T" and run: "SendVerify rnd now f uid email w = (r, w')"
  shows "w_users w' = w_users w \<and> clock (w_tokens w') = clock (w_tokens w)
    \<and> (toks (w_tokens w') = toks (w_tokens w) \<or> (\<exists>buf. rnd = Inr buf \<and> toks (w_tokens w') = add_mset
            (EmailVerify, hashToken (base64_rawurl buf), uid, now + verifyTTL f) (toks (w_tokens w))))"
proof (cases "email = []")
  case True
  with run show ?thesis by (simp add: SendVerify_def)
next
  case False
  obtain x t where x: "issue rnd now T uid EmailVerify (verifyTTL f) (w_tokens w) = (x, t)" by (rule prod.exhaust)
  from run False assms(1) x have "w_users w' = w_users w" "w_tokens w' = t"
    by (auto simp: SendVerify_def on_tokens_def send_def split: sum.splits)
  with tk.issue_effect [OF x] show ?thesis by auto
qed

lemma ConfirmVerify_tokens:
  assumes "tf_Tokens f = T" "ConfirmVerify f tok w = (r, w')"
  shows "toks (w_tokens w') \<subseteq># toks (w_tokens w)"
proof -
  obtain q t where q: "redeem T tok EmailVerify (w_tokens w) = (q, t)" by (rule prod.exhaust)
  with assms have "w_tokens w' = t"
    by (auto simp: ConfirmVerify_def on_tokens_def on_users_def split: sum.splits prod.splits)
  with q show ?thesis using tk.redeem_granted [of tok EmailVerify "w_tokens w" _ t]
      tk.redeem_refused [of tok EmailVerify "w_tokens w" _ t] by (cases q) auto
qed

end

interpretation pg_auth: auth_stores "PGStore lower" lower users_tbl users_inv TokenPG unused_tokens pg_now
  for lower
  by unfold_locales

section \<open>A token table shared by many requests\<close>

text \<open>
  Every statement is atomic, so a table that requests share goes through a sequence of steps:
  creations and redemptions that end in any way, the clock moving on, and the environment
  reordering the table or changing how later statements will end.
\<close>

datatype token_event =
    Created int purpose string time
  | Redeemed string purpose int time
  | Refused string purpose gerr
  | Tick

inductive token_step :: "tokens_db \<Rightarrow> token_event \<Rightarrow> tokens_db \<Rightarrow> bool" where
  create: "token_Create uid p h e db = (r, db') \<Longrightarrow> token_step db (Created uid p h e) db'"
| redeem: "token_Consume h p db = (Inr uid, db') \<Longrightarrow> token_step db (Redeemed h p uid (pg_now db)) db'"
| refuse: "token_Consume h p db = (Inl err, db') \<Longrightarrow> token_step db (Refused h p err) db'"
| time: "pg_now db \<le> t \<Longrightarrow> token_step db Tick (db\<lparr>pg_now := t\<rparr>)"
| weather: "token_step db Tick (db\<lparr>pg_script := os, pg_pos := pos\<rparr>)"

inductive token_run :: "tokens_db \<Rightarrow> token_event list \<Rightarrow> tokens_db \<Rightarrow> bool" where
  start: "token_run db [] db"
| step: "token_run db evs db1 \<Longrightarrow> token_step db1 ev db2 \<Longrightarrow> token_run db (evs @ [ev]) db2"

inductive_cases token_stepE [elim]: "token_step db ev db'"
inductive_simps token_run_Nil [simp]: "token_run db [] db'"

fun is_created :: "string \<Rightarrow> purpose \<Rightarrow> token_event \<Rightarrow> bool" where
  "is_created h p (Created _ p' h' _) \<longleftrightarrow> p' = p \<and> h' = h"
| "is_created h p _ \<longleftrightarrow> False"

fun is_redeemed :: "string \<Rightarrow> purpose \<Rightarrow> token_event \<Rightarrow> bool" where
  "is_redeemed h p (Redeemed h' p' _ _) \<longleftrightarrow> p' = p \<and> h' = h"
| "is_redeemed h p _ \<longleftrightarrow> False"

definition held :: "string \<Rightarrow> purpose \<Rightarrow> tokens_db \<Rightarrow> unused multiset" where
  "held h p db = {#x \<in># unused_tokens db. fst x = p \<and> fst (snd x) = h#}"

lemma held_cong: "unused_tokens db' = unused_tokens db \<Longrightarrow> held h p db' = held h p db"
  by (simp add: held_def)

lemma held_consumed:
  assumes "unused_tokens db' = {#x \<in># unused_tokens db. \<not> matching h' p' now x#}"
  shows "held h p db' \<subseteq># held h p db"
  using assms by (simp add: held_def multiset_filter_mono)

lemma token_step_held:
  assumes "token_step db ev db'"
  shows "size (held h p db') + (if is_redeemed h p ev then 1 else 0)
    \<le> size (held h p db) + (if is_created h p ev then 1 else 0)"
  using assms
proof cases
  case (create uid p' h' e r)
  then show ?thesis using token_Create_result(2,3) [OF create(2)] by (cases r) (auto simp: held_def)
next
  case (redeem h' p' uid)
  note res = token_Consume_cases(2) [OF redeem(2) refl]
  show ?thesis
  proof (cases "h' = h \<and> p' = p")
    case True
    from res True obtain t where t: "t \<in> set (pg_rows db)" "redeemable h p (pg_now db) t" by blast
    then have "row_token t \<in># held h p db" "row_token t \<notin># held h p db'"
      using res True by (auto simp: held_def redeemable_matching in_unused matching_def row_token_def)
    moreover have "held h p db' \<subseteq># held h p db" using held_consumed res by blast
    ultimately have "size (held h p db') < size (held h p db)"
      by (metis mset_subset_size subset_mset.le_neq_trans)
    with True redeem show ?thesis by simp
  next
    case False
    with redeem size_mset_mono [OF held_consumed [OF conjunct1 [OF res]]] show ?thesis by auto
  qed
next
  case (refuse h' p' err)
  have "held h p db' \<subseteq># held h p db"
    using token_Consume_cases(4) [OF refuse(2)] held_cong held_consumed by (metis subset_mset.order_refl)
  with size_mset_mono [OF this] refuse show ?thesis by simp
qed (simp_all add: held_def unused_tokens_def)

lemma token_step_origin:
  assumes "token_step db ev db'" and "x \<in># unused_tokens db'"
  shows "x \<in># unused_tokens db \<or> (\<exists>uid p h e. ev = Created uid p h e \<and> x = (p, h, uid, e))"
  using assms(1)
proof cases
  case (create uid p h e r)
  then show ?thesis using assms(2) token_Create_result(2,3) [OF create(2)] by (cases r) auto
next
  case (redeem h p uid)
  then show ?thesis using assms(2) token_Consume_cases(2) [OF redeem(2) refl] by auto
next
  case (refuse h p err)
  then show ?thesis using assms(2) token_Consume_cases(4) [OF refuse(2)] by auto
qed (use assms(2) in \<open>simp_all add: unused_tokens_def\<close>)

lemma token_run_count:
  "token_run db evs db' \<Longrightarrow> size (held h p db') + length (filter (is_redeemed h p) evs)
    \<le> size (held h p db) + length (filter (is_created h p) evs)"
proof (induction rule: token_run.induct)
  case (step db evs db1 ev db2)
  with token_step_held [OF step(2), of h p] show ?case by (auto split: if_splits)
qed simp

lemma token_run_origin:
  "token_run db evs db' \<Longrightarrow> unused_tokens db = {#} \<Longrightarrow>
    (\<forall>p h uid e. (p, h, uid, e) \<in># unused_tokens db' \<longrightarrow> Created uid p h e \<in> set evs)
    \<and> (\<forall>h p uid tm. Redeemed h p uid tm \<in> set evs \<longrightarrow> (\<exists>e. Created uid p h e \<in> set evs \<and> tm < e))"
proof (induction rule: token_run.induct)
  case (step db evs db1 ev db2)
  note IH = step.IH [OF step.prems]
  have "Created uid p h e \<in> set (evs @ [ev])" if "(p, h, uid, e) \<in># unused_tokens db2" for p h uid e
    using token_step_origin [OF step(2) that] IH by auto
  moreover have "\<exists>e. Created uid p h e \<in> set evs \<and> tm < e" if "ev = Redeemed h p uid tm" for h p uid tm
  proof -
    from step(2) that have c: "token_Consume h p db1 = (Inr uid, db2)" "tm = pg_now db1"
      by (auto elim: token_step.cases)
    from pg_tokens.consume_ok [of h p db1 uid db2] c obtain e
      where "pg_now db1 < e" "(p, h, uid, e) \<in># unused_tokens db1" by (auto simp: TokenPG_def)
    with IH c(2) show ?thesis by blast
  qed
  ultimately show ?case using IH by fastforce
qed auto

section \<open>When the database answers\<close>

lemma token_Create_healthy:
  "healthy db \<Longrightarrow> token_Create uid p h e db =
     (Inr (), (next_stmt db)\<lparr>pg_next := pg_next db + 1,
        pg_rows := pg_rows db @ [\<lparr>t_ID = pg_next db, t_user_id = uid, t_purpose = p,
          t_token_hash = h, t_expires_at = e, t_used_at = None, t_created_at = pg_now db\<rparr>]\<rparr>)"
  by (simp add: token_Create_def stmt_healthy)

definition consumed_by :: "string \<Rightarrow> purpose \<Rightarrow> tokens_db \<Rightarrow> tokens_db" where
  "consumed_by h p db = (next_stmt db)\<lparr>pg_rows :=
     map (\<lambda>t. if redeemable h p (pg_now db) t then t\<lparr>t_used_at := Some (pg_now db)\<rparr> else t) (pg_rows db)\<rparr>"

lemma token_Consume_healthy:
  "healthy db \<Longrightarrow> token_Consume h p db =
     (case find (redeemable h p (pg_now db)) (pg_scan db) of
        None \<Rightarrow> Inl (Sentinel Authtoken_ErrInvalidToken) | Some t \<Rightarrow> Inr (t_user_id t),
      consumed_by h p db)"
  by (simp add: token_Consume_def stmt_healthy Let_def consumed_by_def split: option.split)

lemma consumed_by_simps [simp]:
  "healthy db \<Longrightarrow> healthy (consumed_by h p db)" "pg_now (consumed_by h p db) = pg_now db"
  by (simp_all add: consumed_by_def)

lemma consumed_by_none: "t \<in> set (pg_rows (consumed_by h p db)) \<Longrightarrow> \<not> redeemable h p (pg_now db) t"
proof -
  let ?P = "redeemable h p (pg_now db)"
  assume "t \<in> set (pg_rows (consumed_by h p db))"
  then have "t \<in> (\<lambda>x. if ?P x then x\<lparr>t_used_at := Some (pg_now db)\<rparr> else x) ` set (pg_rows db)"
    by (simp add: consumed_by_def)
  then obtain x where x: "t = (if ?P x then x\<lparr>t_used_at := Some (pg_now db)\<rparr> else x)" by (rule imageE)
  show "\<not> ?P t"
  proof (cases "?P x")
    case True
    with x show ?thesis by (simp add: redeemable_def)
  next
    case False
    with x show ?thesis by simp
  qed
qed

lemma TokenPG_simps [simp]: "tk_Create TokenPG = token_Create" "tk_Consume TokenPG = token_Consume"
  by (simp_all add: TokenPG_def)

lemma token_text:
  assumes "buf \<noteq> []"
  shows "TrimSpace (base64_rawurl buf) = base64_rawurl buf" "base64_rawurl buf \<noteq> []"
proof -
  show ne: "base64_rawurl buf \<noteq> []"
  proof
    assume e: "base64_rawurl buf = []"
    then show False using assms
      by (cases "(b64_url, [] :: string, buf)" rule: b64_encode.cases)
        (auto simp: base64_rawurl_def Let_def)
  qed
  show "TrimSpace (base64_rawurl buf) = base64_rawurl buf"
    using ne by (intro TrimSpace_visible) (auto intro!: base64_rawurl_visible hd_in_set last_in_set)
qed

section \<open>Properties\<close>

text \<open>
  C7. A token is redeemed at most once. On a table that starts with no unused token, whatever
  requests, outages, lost replies and clock movements follow, there are never more redemptions of
  a hash for a purpose than creations of that hash for that purpose, and each redemption returns a
  user for whom the token was created, before its expiry.
\<close>

theorem tokens_single_use:
  assumes "token_run db evs db'" and "unused_tokens db = {#}"
  shows "length (filter (is_redeemed h p) evs) \<le> length (filter (is_created h p) evs)
    \<and> (\<forall>uid tm. Redeemed h p uid tm \<in> set evs \<longrightarrow> (\<exists>e. Created uid p h e \<in> set evs \<and> tm < e))"
  using token_run_count [OF assms(1), of h p] token_run_origin [OF assms] assms(2)
  by (simp add: held_def)

theorem tokens_single_use_witness:
  "\<exists>evs db'. token_run (pg_table [] 1 10) evs db'
     \<and> evs = [Created 7 PasswordReset ''h'' 20, Redeemed ''h'' PasswordReset 7 10,
              Refused ''h'' PasswordReset (Sentinel Authtoken_ErrInvalidToken)]
     \<and> length (filter (is_redeemed ''h'' PasswordReset) evs) \<le> 1"
proof -
  let ?db = "pg_table [] 1 10 :: tokens_db"
  let ?row = "\<lambda>used. \<lparr>t_ID = 1, t_user_id = 7, t_purpose = PasswordReset, t_token_hash = ''h'',
    t_expires_at = 20, t_used_at = used, t_created_at = 10\<rparr>"
  have c1: "token_Create 7 PasswordReset ''h'' 20 ?db = (Inr (), pg_table [?row None] 2 10)"
    by (simp add: token_Create_def stmt_def pg_table_def)
  have c2: "token_Consume ''h'' PasswordReset (pg_table [?row None] 2 10) = (Inr 7, pg_table [?row (Some 10)] 2 10)"
    by (simp add: token_Consume_def stmt_def pg_table_def pg_scan_def redeemable_def Let_def)
  have c3: "token_Consume ''h'' PasswordReset (pg_table [?row (Some 10)] 2 10)
      = (Inl (Sentinel Authtoken_ErrInvalidToken), pg_table [?row (Some 10)] 2 10)"
    by (simp add: token_Consume_def stmt_def pg_table_def pg_scan_def redeemable_def Let_def)
  have run: "token_run ?db ((([] @ [Created 7 PasswordReset ''h'' 20])
      @ [Redeemed ''h'' PasswordReset 7 (pg_now (pg_table [?row None] 2 10))])
      @ [Refused ''h'' PasswordReset (Sentinel Authtoken_ErrInvalidToken)]) (pg_table [?row (Some 10)] 2 10)"
    by (rule token_run.step [OF token_run.step [OF token_run.step [OF token_run.start
        token_step.create [OF c1]] token_step.redeem [OF c2]] token_step.refuse [OF c3]])
  from tokens_single_use [OF this, of "''h''" PasswordReset]
  show ?thesis
    by (intro exI [of _ "pg_table [?row (Some 10)] 2 10"] exI [of _ "[Created 7 PasswordReset ''h'' 20,
        Redeemed ''h'' PasswordReset 7 10, Refused ''h'' PasswordReset (Sentinel Authtoken_ErrInvalidToken)]"])
      (use run in \<open>simp add: unused_tokens_def pg_table_def\<close>)
qed

text \<open>
  C8. Nothing but an unexpired, unused reset token changes a password. Whatever the two databases
  do, a \<open>PerformReset\<close> that succeeds or changes an account has consumed a token created for the
  purpose of resetting that account's password, changes nothing but that account's hash, to a hash
  of the new password; a password that is too short is refused before the token is touched, and
  no mail is sent.
\<close>

theorem reset_needs_token:
  assumes "tf_Tokens f = TokenPG" and "tf_Users f = PGStore lower" and "users_inv (w_users w)"
    and "PerformReset B salt f tok pw w = (r, w')"
  shows "users_inv (w_users w') \<and> w_sent w' = w_sent w
    \<and> (int (length pw) < token_minLen f \<longrightarrow> r = Inl (Sentinel Authtoken_ErrWeakPassword) \<and> w' = w)
    \<and> (users_tbl (w_users w') \<noteq> users_tbl (w_users w) \<or> r = Inr () \<longrightarrow>
        (\<exists>uid e h. (PasswordReset, hashToken tok, uid, e) \<in># unused_tokens (w_tokens w)
          \<and> pg_now (w_tokens w) < e \<and> (PasswordReset, hashToken tok, uid, e) \<notin># unused_tokens (w_tokens w')
          \<and> token_minLen f \<le> int (length pw) \<and> Hash B salt (tf_Hasher f) pw = Inr h
          \<and> users_tbl (w_users w') = (users_tbl (w_users w))
              (uid := map_option (u_PasswordHash_update (\<lambda>_. h)) (users_tbl (w_users w) uid))))"
proof -
  note E = pg_auth.PerformReset_effect [OF assms]
  have "\<exists>uid e h. (PasswordReset, hashToken tok, uid, e) \<in># unused_tokens (w_tokens w)
          \<and> pg_now (w_tokens w) < e \<and> (PasswordReset, hashToken tok, uid, e) \<notin># unused_tokens (w_tokens w')
          \<and> token_minLen f \<le> int (length pw) \<and> Hash B salt (tf_Hasher f) pw = Inr h
          \<and> users_tbl (w_users w') = (users_tbl (w_users w))
              (uid := map_option (u_PasswordHash_update (\<lambda>_. h)) (users_tbl (w_users w) uid))"
    if c: "users_tbl (w_users w') \<noteq> users_tbl (w_users w) \<or> r = Inr ()"
  proof -
    from E c obtain uid e h where "(PasswordReset, hashToken tok, uid, e) \<in># unused_tokens (w_tokens w)"
      "pg_now (w_tokens w) < e" and con: "unused_tokens (w_tokens w') = {#x \<in># unused_tokens (w_tokens w).
        \<not> matching (hashToken tok) PasswordReset (pg_now (w_tokens w)) x#}"
      and rest: "token_minLen f \<le> int (length pw)" "Hash B salt (tf_Hasher f) pw = Inr h"
        "users_tbl (w_users w') = (users_tbl (w_users w))
              (uid := map_option (u_PasswordHash_update (\<lambda>_. h)) (users_tbl (w_users w) uid))"
      by blast
    moreover from this have "(PasswordReset, hashToken tok, uid, e) \<notin># unused_tokens (w_tokens w')"
      by simp
    ultimately show ?thesis by blast
  qed
  with E show ?thesis by blast
qed

definition ex_tflow :: "(tokens_db, users_db) tflow" where
  "ex_tflow = \<lparr>tf_Tokens = TokenPG, tf_Users = PGStore (\<lambda>x. x),
     tf_Hasher = \<lparr>Pepper = [], PrevPepper = [], Cost = 0\<rparr>, tf_Mail = (\<lambda>_. None), tf_BaseURL = ''https://x'',
     tf_ResetTTL = 0, tf_VerifyTTL = 0, tf_MinPwLen = 0\<rparr>"

definition ex_token :: "string \<Rightarrow> time option \<Rightarrow> token_row" where
  "ex_token h used = \<lparr>t_ID = 1, t_user_id = 1, t_purpose = PasswordReset, t_token_hash = h,
     t_expires_at = 3600000000010, t_used_at = used, t_created_at = 10\<rparr>"

definition ex_world :: "(tokens_db, users_db) tworld" where
  "ex_world = \<lparr>w_tokens = pg_table [ex_token (hashToken ''abc'') None] 2 10, w_users = ex_users, w_sent = []\<rparr>"

lemma ex_tflow_fields [simp]:
  "tf_Tokens ex_tflow = TokenPG" "tf_Users ex_tflow = PGStore (\<lambda>x. x)" "tf_Hasher ex_tflow = f_Hasher ex_flow"
  "tf_Mail ex_tflow = (\<lambda>_. None)" "resetTTL ex_tflow = Hour" "token_minLen ex_tflow = 8"
  by (simp_all add: ex_tflow_def ex_flow_def resetTTL_def token_minLen_def)

theorem reset_needs_token_witness:
  "\<exists>w'. PerformReset plain_bcrypt [] ex_tflow ''abc'' ''better-one'' ex_world = (Inr (), w')
     \<and> unused_tokens (w_tokens w') = {#}
     \<and> (\<exists>uid. users_tbl (w_users w') uid = Some (ex_row 1 ''bob'' ''b@x'' ''better-one''))"
proof -
  let ?t = "pg_table [ex_token (hashToken ''abc'') (Some 10)] 2 10"
  let ?u = "pg_table [ex_row 1 ''bob'' ''b@x'' ''better-one'', ex_row 2 ''eve'' [] ''password''] 3 9"
  have abc: "TrimSpace ''abc'' = ''abc''" by (rule TrimSpace_visible) (simp_all add: visible_def)
  have red: "redeem TokenPG ''abc'' PasswordReset (w_tokens ex_world) = (Inr 1, ?t)"
    by (simp add: redeem_def abc token_Consume_def stmt_def ex_world_def pg_table_def pg_scan_def
        redeemable_def Let_def ex_token_def)
  have upd: "us_UpdatePasswordHash (PGStore (\<lambda>x. x)) 1 ''better-one'' (w_users ex_world) = (Inr (), ?u)"
    by (simp add: PGStore_def UpdatePasswordHash_def exec_update_def stmt_def ex_world_def ex_users_def
        pg_table_def ex_row_def)
  have p: "PerformReset plain_bcrypt [] ex_tflow ''abc'' ''better-one'' ex_world
      = (Inr (), ex_world\<lparr>w_tokens := ?t, w_users := ?u\<rparr>)"
    using red upd by (simp add: PerformReset_def on_tokens_def on_users_def ex_flow_Hash)
  from reset_needs_token [OF _ _ _ p, of "\<lambda>x. x"]
  have "users_inv ?u" by (simp add: ex_world_def)
  then have "users_tbl ?u 1 = Some (ex_row 1 ''bob'' ''b@x'' ''better-one'')"
    by (simp add: users_tbl_iff) (simp add: pg_table_def ex_row_def)
  with p show ?thesis
    by (intro exI [of _ "ex_world\<lparr>w_tokens := ?t, w_users := ?u\<rparr>"])
      (auto simp: unused_tokens_def pg_table_def ex_token_def)
qed

lemma ByEmail_healthy:
  "healthy db \<Longrightarrow> ByEmail lower email db =
     (case find (\<lambda>u. u_Email u \<noteq> [] \<and> lower (u_Email u) = lower email) (pg_scan db) of
        None \<Rightarrow> Inl (Sentinel Users_ErrNotFound) | Some u \<Rightarrow> Inr u, next_stmt db)"
  by (simp add: ByEmail_def query_row_healthy split: option.split)

lemma RequestReset_healthy:
  assumes "healthy (w_users w)" and "healthy (w_tokens w)"
    and f: "tf_Tokens f = TokenPG" "tf_Users f = PGStore lower" "tf_Mail f = (\<lambda>_. None)"
  shows "RequestReset (Inr buf) now f email w =
    (Inr (), case find (\<lambda>u. u_Email u \<noteq> [] \<and> lower (u_Email u) = lower email) (pg_scan (w_users w)) of
       None \<Rightarrow> w\<lparr>w_users := next_stmt (w_users w)\<rparr>
     | Some u \<Rightarrow> w\<lparr>w_users := next_stmt (w_users w),
         w_tokens := (next_stmt (w_tokens w))\<lparr>pg_next := pg_next (w_tokens w) + 1,
           pg_rows := pg_rows (w_tokens w) @ [\<lparr>t_ID = pg_next (w_tokens w), t_user_id = u_ID u,
             t_purpose = PasswordReset, t_token_hash = hashToken (base64_rawurl buf),
             t_expires_at = now + resetTTL f, t_used_at = None, t_created_at = pg_now (w_tokens w)\<rparr>]\<rparr>,
         w_sent := w_sent w @ [reset_mail f (u_Email u) (base64_rawurl buf)]\<rparr>)"
  using assms
  by (simp add: RequestReset_def on_users_def on_tokens_def PGStore_def ByEmail_healthy issue_def Let_def
      token_Create_healthy send_def split: option.split)

text \<open>A token just stored is redeemed for its purpose until it expires, and then once.\<close>

lemma fresh_token_redeems:
  assumes "healthy db" "pg_rows db = old @ [row]" "\<forall>t\<in>set old. t_token_hash t \<noteq> hashToken tok" "TrimSpace tok \<noteq> []"
    and row: "t_token_hash row = hashToken tok" "t_used_at row = None"
  shows "redeem TokenPG tok p db = (if p = t_purpose row \<and> pg_now db < t_expires_at row then Inr (t_user_id row)
      else Inl (Sentinel Authtoken_ErrInvalidToken), consumed_by (hashToken tok) p db)"
    and "fst (redeem TokenPG tok p (consumed_by (hashToken tok) p db)) = Inl (Sentinel Authtoken_ErrInvalidToken)"
proof -
  have redeem: "redeemable (hashToken tok) p (pg_now db) t
      \<longleftrightarrow> t = row \<and> p = t_purpose row \<and> pg_now db < t_expires_at row"
    if "t \<in> set (pg_rows db)" for t
    using that assms(2,3) row by (auto simp: redeemable_def)
  have row_in: "row \<in> set (pg_rows db)" by (simp add: assms(2))
  have find: "find (redeemable (hashToken tok) p (pg_now db)) (pg_scan db)
      = (if p = t_purpose row \<and> pg_now db < t_expires_at row then Some row else None)"
  proof (cases "p = t_purpose row \<and> pg_now db < t_expires_at row")
    case True
    then have "find (redeemable (hashToken tok) p (pg_now db)) (pg_scan db) = Some row"
      by (intro find_scan_unique) (use redeem row_in in blast)+
    then show ?thesis using True by simp
  next
    case False
    then have "find (redeemable (hashToken tok) p (pg_now db)) (pg_scan db) = None"
      by (simp add: find_scan_None redeem)
    then show ?thesis using False by (simp only: if_False)
  qed
  show "redeem TokenPG tok p db = (if p = t_purpose row \<and> pg_now db < t_expires_at row then Inr (t_user_id row)
      else Inl (Sentinel Authtoken_ErrInvalidToken), consumed_by (hashToken tok) p db)"
    using assms(1,4) by (simp add: redeem_def token_Consume_healthy find)
  show "fst (redeem TokenPG tok p (consumed_by (hashToken tok) p db)) = Inl (Sentinel Authtoken_ErrInvalidToken)"
    using assms(1,4) consumed_by_none [of _ "hashToken tok" p db]
    by (auto simp: redeem_def token_Consume_healthy find_scan_None split: option.split dest!: find_scan_Some)
qed

text \<open>
  C20. The reset round trip, over databases that answer. \<open>RequestReset\<close> for an email some account
  has succeeds, sends one mail, to that account's stored address, with a link carrying the token.
  Presented to \<open>PerformReset\<close> while the database clock is before the issuing clock plus the TTL,
  the token sets exactly that account's hash, which then verifies with the new password; from the
  expiry on it is refused and nothing changes. It is never good for verifying an email, and a
  second reset with it is refused whatever the password.
\<close>

theorem reset_round_trip:
  assumes w: "users_inv (w_users w)" "healthy (w_users w)" "healthy (w_tokens w)"
    and f: "tf_Tokens f = TokenPG" "tf_Users f = PGStore lower" "tf_Mail f = (\<lambda>_. None)"
    and buf: "length buf = 32"
    and fresh: "\<forall>t\<in>set (pg_rows (w_tokens w)). t_token_hash t \<noteq> hashToken (base64_rawurl buf)"
    and known: "u0 \<in> set (pg_rows (w_users w))" "mailed lower email u0"
    and pw: "token_minLen f \<le> int (length pw)" "Hash B salt (tf_Hasher f) pw = Inr h" "bcrypt_sound B"
    and req: "RequestReset (Inr buf) now f email w = (r, w1)"
    and w2: "w2 = w1\<lparr>w_tokens := (w_tokens w1)\<lparr>pg_now := tm\<rparr>\<rparr>"
    and reset: "PerformReset B salt f (base64_rawurl buf) pw w2 = (r2, w3)"
  shows "r = Inr () \<and> (\<exists>u m pre post. u \<in> set (pg_rows (w_users w)) \<and> mailed lower email u
    \<and> w_sent w1 = w_sent w @ [m] \<and> mail_to m = u_Email u
    \<and> mail_body m = pre @ reset_link f (base64_rawurl buf) @ post
    \<and> (if tm < now + resetTTL f
       then r2 = Inr () \<and> users_tbl (w_users w3) = (users_tbl (w_users w))(u_ID u \<mapsto> u\<lparr>u_PasswordHash := h\<rparr>)
         \<and> Verify B (tf_Hasher f) h pw = (True, False)
       else r2 = Inl (Sentinel Authtoken_ErrInvalidToken) \<and> users_tbl (w_users w3) = users_tbl (w_users w))
    \<and> fst (ConfirmVerify f (base64_rawurl buf) w2) = Inl (Sentinel Authtoken_ErrInvalidToken)
    \<and> fst (PerformReset B salt2 f (base64_rawurl buf) pw2 w3)
        \<in> {Inl (Sentinel Authtoken_ErrInvalidToken), Inl (Sentinel Authtoken_ErrWeakPassword)})"
proof -
  let ?tok = "base64_rawurl buf"
  let ?udb = "next_stmt (w_users w)"
  have "buf \<noteq> []" using buf by auto
  then have tok: "TrimSpace ?tok \<noteq> []" using token_text [of buf] by simp
  from known obtain u where u: "find (\<lambda>u. u_Email u \<noteq> [] \<and> lower (u_Email u) = lower email) (pg_scan (w_users w)) = Some u"
    by (cases "find (\<lambda>u. u_Email u \<noteq> [] \<and> lower (u_Email u) = lower email) (pg_scan (w_users w))")
      (auto simp: find_scan_None mailed_def)
  note mem = find_scan_Some [OF u]
  define row where "row = \<lparr>t_ID = pg_next (w_tokens w), t_user_id = u_ID u, t_purpose = PasswordReset,
    t_token_hash = hashToken ?tok, t_expires_at = now + resetTTL f, t_used_at = None,
    t_created_at = pg_now (w_tokens w)\<rparr>"
  define db2 where "db2 = (next_stmt (w_tokens w))\<lparr>pg_next := pg_next (w_tokens w) + 1,
    pg_rows := pg_rows (w_tokens w) @ [row], pg_now := tm\<rparr>"
  define m where "m = reset_mail f (u_Email u) ?tok"
  obtain pre post where m: "mail_to m = u_Email u" "mail_body m = pre @ reset_link f ?tok @ post"
    using reset_mail_parts [of f "u_Email u" ?tok] unfolding m_def by blast
  have req': "r = Inr ()" "w1 = w\<lparr>w_users := ?udb, w_tokens := (next_stmt (w_tokens w))
      \<lparr>pg_next := pg_next (w_tokens w) + 1, pg_rows := pg_rows (w_tokens w) @ [row]\<rparr>, w_sent := w_sent w @ [m]\<rparr>"
    using req RequestReset_healthy [OF w(2,3) f, of buf now email] u by (auto simp: row_def m_def)
  have w2': "w2 = w\<lparr>w_users := ?udb, w_tokens := db2, w_sent := w_sent w @ [m]\<rparr>"
    by (simp add: w2 req'(2) db2_def)
  have h2: "healthy db2" using w(3) by (simp add: db2_def)
  have rows2: "pg_rows db2 = pg_rows (w_tokens w) @ [row]" "pg_now db2 = tm" by (simp_all add: db2_def)
  let ?after = "consumed_by (hashToken ?tok) PasswordReset db2"
  have row: "t_token_hash row = hashToken ?tok" "t_used_at row = None" "t_purpose row = PasswordReset"
    "t_user_id row = u_ID u" "t_expires_at row = now + resetTTL f" by (simp_all add: row_def)
  note con2 = fresh_token_redeems(1) [OF h2 rows2(1) fresh tok row(1,2), unfolded row(3-5) rows2(2)]
    and con3 = fresh_token_redeems(2) [OF h2 rows2(1) fresh tok row(1,2), of PasswordReset]
  have upd: "UpdatePasswordHash (u_ID u) h ?udb = (Inr (), (next_stmt ?udb)
      \<lparr>pg_rows := map (\<lambda>v. if u_ID v = u_ID u then v\<lparr>u_PasswordHash := h\<rparr> else v) (pg_rows (w_users w))\<rparr>)"
    using w(2) by (simp add: UpdatePasswordHash_def exec_update_healthy)
  have tbl: "users_tbl (snd (UpdatePasswordHash (u_ID u) h ?udb)) = (users_tbl (w_users w))(u_ID u \<mapsto> u\<lparr>u_PasswordHash := h\<rparr>)"
    using users_update [OF w(1), of "u_PasswordHash_update (\<lambda>_. h)" _ "u_ID u"] upd mem
      users_tbl_iff [OF w(1), of "u_ID u" u] by simp
  have w3: "w_tokens w3 = ?after" "r2 = (if tm < now + resetTTL f then Inr () else Inl (Sentinel Authtoken_ErrInvalidToken))"
    "w_users w3 = (if tm < now + resetTTL f then snd (UpdatePasswordHash (u_ID u) h ?udb) else ?udb)"
    using reset pw f con2 [of PasswordReset] upd
    by (auto simp: PerformReset_def on_tokens_def on_users_def w2' PGStore_def split: if_splits)
  have "fst (PerformReset B salt2 f ?tok pw2 w3)
      \<in> {Inl (Sentinel Authtoken_ErrInvalidToken), Inl (Sentinel Authtoken_ErrWeakPassword)}"
    using con3 f w3(1) by (auto simp: PerformReset_def on_tokens_def split: prod.split)
  moreover have "fst (ConfirmVerify f ?tok w2) = Inl (Sentinel Authtoken_ErrInvalidToken)"
    using con2 [of EmailVerify] f by (simp add: ConfirmVerify_def on_tokens_def w2')
  moreover have "Verify B (tf_Hasher f) h pw = (True, False)" using pw by (simp add: Hash_Verify)
  moreover have "if tm < now + resetTTL f
       then r2 = Inr () \<and> users_tbl (w_users w3) = (users_tbl (w_users w))(u_ID u \<mapsto> u\<lparr>u_PasswordHash := h\<rparr>)
         \<and> Verify B (tf_Hasher f) h pw = (True, False)
       else r2 = Inl (Sentinel Authtoken_ErrInvalidToken) \<and> users_tbl (w_users w3) = users_tbl (w_users w)"
    using w3 tbl users_tbl_cong [of ?udb "w_users w"] calculation(3) by simp
  moreover have "u \<in> set (pg_rows (w_users w))" "mailed lower email u" using mem by (simp_all add: mailed_def)
  moreover have "w_sent w1 = w_sent w @ [m]" by (simp add: req'(2))
  ultimately show ?thesis using req'(1) m by blast
qed

theorem reset_round_trip_witness:
  "let buf = replicate 32 CHR ''a'';
       w = \<lparr>w_tokens = pg_table [] 1 10, w_users = ex_users, w_sent = []\<rparr>;
       w1 = snd (RequestReset (Inr buf) 15 ex_tflow ''b@x'' w);
       w2 = w1\<lparr>w_tokens := (w_tokens w1)\<lparr>pg_now := 20\<rparr>\<rparr>
   in length (w_sent w1) = 1
      \<and> fst (PerformReset plain_bcrypt [] ex_tflow (base64_rawurl buf) ''better-one'' w2) = Inr ()"
proof -
  let ?w = "\<lparr>w_tokens = pg_table [] 1 10, w_users = ex_users, w_sent = []\<rparr> :: (tokens_db, users_db) tworld"
  let ?buf = "replicate 32 CHR ''a''"
  obtain r w1 where req: "RequestReset (Inr ?buf) 15 ex_tflow ''b@x'' ?w = (r, w1)" by fastforce
  obtain r2 w3 where reset: "PerformReset plain_bcrypt [] ex_tflow (base64_rawurl ?buf) ''better-one''
      (w1\<lparr>w_tokens := (w_tokens w1)\<lparr>pg_now := 20\<rparr>\<rparr>) = (r2, w3)" by fastforce
  have u: "ex_row 1 ''bob'' ''b@x'' ''secret12'' \<in> set (pg_rows ex_users)"
    "mailed (\<lambda>x. x) ''b@x'' (ex_row 1 ''bob'' ''b@x'' ''secret12'')"
    by (simp_all add: ex_users_def pg_table_def mailed_def ex_row_def)
  have none: "\<forall>t\<in>set (pg_rows (w_tokens ?w)). t_token_hash t \<noteq> hashToken (base64_rawurl ?buf)"
    by (simp add: pg_table_def)
  have pw: "token_minLen ex_tflow \<le> int (length ''better-one'')"
    "Hash plain_bcrypt [] (tf_Hasher ex_tflow) ''better-one'' = Inr ''better-one''"
    by (simp_all add: ex_flow_Hash)
  have "r2 = Inr () \<and> length (w_sent w1) = 1"
    using reset_round_trip [of ?w ex_tflow "\<lambda>x. x" ?buf, OF _ _ _ _ _ _ length_replicate none _ _ pw
        plain_bcrypt_promises(1) req refl reset] u
    by simp (metis One_nat_def length_Cons list.size(3))
  with req reset show ?thesis by (simp add: Let_def)
qed

text \<open>
  A reset request tells nobody whether an email is registered. When the stores answer and the
  mailer accepts, \<open>RequestReset\<close> returns success for every email; for one that no account has, no
  token is created, no mail is sent and neither table changes. For any token flow the token itself is 43
  visible ASCII characters, only its 64-digit SHA-256 text is stored, and different random bytes
  give different tokens.
\<close>

theorem reset_request_silent:
  assumes "healthy (w_users w)" and "healthy (w_tokens w)"
    and f: "tf_Tokens f = TokenPG" "tf_Users f = PGStore lower" "tf_Mail f = (\<lambda>_. None)"
    and buf: "length buf = 32" "length buf2 = 32"
  shows "fst (RequestReset (Inr buf) now f email w) = Inr ()
    \<and> ((\<forall>u\<in>set (pg_rows (w_users w)). \<not> mailed lower email u) \<longrightarrow>
        snd (RequestReset (Inr buf) now f email w) = w\<lparr>w_users := next_stmt (w_users w)\<rparr>)
    \<and> set (map t_token_hash (pg_rows (w_tokens (snd (RequestReset (Inr buf) now f email w)))))
        \<subseteq> set (map t_token_hash (pg_rows (w_tokens w))) \<union> {hashToken (base64_rawurl buf)}
    \<and> length (base64_rawurl buf) = 43 \<and> (\<forall>c\<in>set (base64_rawurl buf). visible c)
    \<and> length (hashToken (base64_rawurl buf)) = 64
    \<and> (base64_rawurl buf = base64_rawurl buf2 \<longleftrightarrow> buf = buf2)"
proof -
  let ?q = "find (\<lambda>u. u_Email u \<noteq> [] \<and> lower (u_Email u) = lower email) (pg_scan (w_users w))"
  note run = RequestReset_healthy [OF assms(1,2) f, of buf now email]
  have "fst (RequestReset (Inr buf) now f email w) = Inr ()"
    "?q = None \<Longrightarrow> snd (RequestReset (Inr buf) now f email w) = w\<lparr>w_users := next_stmt (w_users w)\<rparr>"
    unfolding run by simp_all
  moreover have "set (map t_token_hash (pg_rows (w_tokens (snd (RequestReset (Inr buf) now f email w)))))
        \<subseteq> set (map t_token_hash (pg_rows (w_tokens w))) \<union> {hashToken (base64_rawurl buf)}"
    unfolding run by (cases ?q) auto
  moreover have "(\<forall>u\<in>set (pg_rows (w_users w)). \<not> mailed lower email u) \<Longrightarrow> ?q = None"
    by (auto simp: find_scan_None mailed_def)
  moreover have "length (base64_rawurl buf) = 43" "length (hashToken (base64_rawurl buf)) = 64"
    using buf by (simp_all add: length_b64_rawurl hashToken_def)
  moreover have "base64_rawurl buf = base64_rawurl buf2 \<longleftrightarrow> buf = buf2"
    using buf by (simp add: base64_rawurl_inj)
  moreover have "\<forall>c\<in>set (base64_rawurl buf). visible c" by (simp add: base64_rawurl_visible)
  ultimately show ?thesis by (intro conjI impI) simp_all
qed

theorem reset_request_silent_witness:
  "fst (RequestReset (Inr (replicate 32 CHR ''a'')) 15 ex_tflow ''nobody@x'' ex_world) = Inr ()
    \<and> w_sent (snd (RequestReset (Inr (replicate 32 CHR ''a'')) 15 ex_tflow ''nobody@x'' ex_world)) = []"
proof -
  have h: "healthy (w_users ex_world)" "healthy (w_tokens ex_world)" by (simp_all add: ex_world_def)
  have "\<forall>u\<in>set (pg_rows (w_users ex_world)). \<not> mailed (\<lambda>x. x) ''nobody@x'' u"
    by (simp add: ex_world_def ex_users_def pg_table_def mailed_def ex_row_def)
  with reset_request_silent [OF h, of ex_tflow "\<lambda>x. x" "replicate 32 CHR ''a''" "replicate 32 CHR ''a''" 15 "''nobody@x''"]
  show ?thesis by (simp add: ex_world_def)
qed

end
