(* ===== verification/Ratelimit.thy ===== *)
theory Ratelimit
  imports Gin "HOL-Library.AList"
begin

text \<open>
  ratelimit/ratelimit.go, ratelimit/memory/memory.go and ratelimit/redis/redis.go: fixed-window
  counters and the middleware that enforces a list of windowed rules with them. The locale
  \<open>counter\<close> states what a counter promises, \<open>sure_counter\<close> that it never fails; the in-memory
  counter is an interpretation of both. Redis is not code of the repository: the commands of the
  script are parameters, and \<open>redis_laws\<close> names their documented behaviour.
\<close>

section \<open>The middleware\<close>

record 's counter_ops =
  ct_Incr :: "string \<Rightarrow> duration \<Rightarrow> ('s, int) call"

record rule =
  ru_Name :: string
  ru_Window :: duration
  ru_Limit :: "gctx \<Rightarrow> int"

record 's rl_config =
  rl_Counter :: "'s counter_ops"
  rl_Key :: "gctx \<Rightarrow> string"
  rl_Rules :: "rule list"
  rl_OnLimit :: bool

definition setHeaders :: "int \<Rightarrow> int \<Rightarrow> gctx \<Rightarrow> gctx" where
  "setHeaders limit remaining c =
     call (CHeader ''X-RateLimit-Remaining'' (Itoa remaining)) (call (CHeader ''X-RateLimit-Limit'' (Itoa limit)) c)"

definition counter_key :: "rule \<Rightarrow> string \<Rightarrow> string" where
  "counter_key r key = ''rl:'' @ ru_Name r @ '':'' @ key"

definition reject :: "'s rl_config \<Rightarrow> rule \<Rightarrow> int \<Rightarrow> gctx \<Rightarrow> gctx" where
  "reject cfg r limit c =
     (let c = setHeaders limit 0 c;
          c = call (CHeader ''Retry-After'' (Itoa (dur_int Second (ru_Window r)))) c;
          c = (if rl_OnLimit cfg then call (COnLimit (ru_Window r)) c
               else call (CString 429 ''rate limit exceeded'') c)
      in call CAbort c)"

fun enforce :: "'s rl_config \<Rightarrow> string \<Rightarrow> rule list \<Rightarrow> int \<Rightarrow> int \<Rightarrow> gctx \<Rightarrow> 's \<Rightarrow> gctx \<times> 's" where
  "enforce cfg key [] bestRemaining bestLimit c s =
     (call CNext (if bestRemaining \<ge> 0 then setHeaders bestLimit bestRemaining c else c), s)"
| "enforce cfg key (r # rs) bestRemaining bestLimit c s =
     (let limit = ru_Limit r c
      in if limit \<le> 0 then enforce cfg key rs bestRemaining bestLimit c s
         else
           case ct_Incr (rl_Counter cfg) (counter_key r key) (ru_Window r) s of
             (Inl err, s) \<Rightarrow> enforce cfg key rs bestRemaining bestLimit c s
           | (Inr n, s) \<Rightarrow>
               if n > limit then (reject cfg r limit c, s)
               else
                 let remaining = i64 (limit - n)
                 in if bestRemaining < 0 \<or> remaining < bestRemaining
                    then enforce cfg key rs remaining limit c s
                    else enforce cfg key rs bestRemaining bestLimit c s)"

definition rl_Middleware :: "'s rl_config \<Rightarrow> gctx \<Rightarrow> 's \<Rightarrow> gctx \<times> 's" where
  "rl_Middleware cfg c s =
     (if rl_Key cfg c = [] then (call CNext c, s)
      else enforce cfg (rl_Key cfg c) (rl_Rules cfg) (-1) 0 c s)"

section \<open>The in-memory counter\<close>

record entry =
  e_n :: int
  e_exp :: time

record mem_counter =
  mc_m :: "(string \<times> entry) list"
  mc_now :: time

definition mem_Incr :: "string \<Rightarrow> duration \<Rightarrow> (mem_counter, int) call" where
  "mem_Incr key ttl c =
     (let now = mc_now c;
          m = (if length (mc_m c) > 10000 then filter (\<lambda>(k, e). \<not> now > e_exp e) (mc_m c) else mc_m c);
          e = (case map_of m key of
                 None \<Rightarrow> \<lparr>e_n = 0, e_exp = now + ttl\<rparr>
               | Some e \<Rightarrow> if now > e_exp e then \<lparr>e_n = 0, e_exp = now + ttl\<rparr> else e);
          e = e\<lparr>e_n := i64 (e_n e + 1)\<rparr>
      in (Inr (e_n e), c\<lparr>mc_m := AList.update key e m\<rparr>))"

definition MemCounter :: "mem_counter counter_ops" where
  "MemCounter = \<lparr>ct_Incr = mem_Incr\<rparr>"

definition mem_New :: "time \<Rightarrow> mem_counter" where
  "mem_New now = \<lparr>mc_m = [], mc_now = now\<rparr>"

section \<open>The Redis counter\<close>

record 'r redis =
  rd_INCR :: "string \<Rightarrow> 'r \<Rightarrow> int \<times> 'r"
  rd_PEXPIRE :: "string \<Rightarrow> int \<Rightarrow> 'r \<Rightarrow> 'r"
  rd_Run :: "('r \<Rightarrow> int \<times> 'r) \<Rightarrow> ('r, int) call"

text \<open>The script, and the client that runs it with the key and the milliseconds as arguments.\<close>

definition incrExpire :: "'r redis \<Rightarrow> string \<Rightarrow> int \<Rightarrow> 'r \<Rightarrow> int \<times> 'r" where
  "incrExpire R key ms r =
     (case rd_INCR R key r of (n, r) \<Rightarrow> (n, if n = 1 then rd_PEXPIRE R key ms r else r))"

definition redis_Incr :: "'r redis \<Rightarrow> string \<Rightarrow> duration \<Rightarrow> ('r, int) call" where
  "redis_Incr R key ttl = rd_Run R (incrExpire R key (ttl sdiv 1000000))"

section \<open>What a counter promises\<close>

text \<open>
  \<open>view s k\<close> is the live window of a key: its count and its end. \<open>later t s\<close> is the state after
  the clock has moved on to \<open>t\<close>, and \<open>tallied\<close> counts one more hit.
\<close>

definition tallied :: "time \<Rightarrow> duration \<Rightarrow> (int \<times> time) option \<Rightarrow> int \<times> time" where
  "tallied now ttl w = (case w of None \<Rightarrow> (1, now + ttl) | Some (m, e) \<Rightarrow> (m + 1, e))"

definition hits :: "(int \<times> time) option \<Rightarrow> int" where
  "hits w = (case w of None \<Rightarrow> 0 | Some (m, e) \<Rightarrow> m)"

lemma tallied_hits [simp]: "fst (tallied now ttl w) = hits w + 1"
  by (cases w) (auto simp: tallied_def hits_def)

lemma hits_simps [simp]: "hits None = 0" "hits (Some (m, e)) = m" "hits (Some x) = fst x"
  by (simp_all add: hits_def split: prod.split)

locale counter =
  fixes C :: "'s counter_ops"
    and view :: "'s \<Rightarrow> string \<Rightarrow> (int \<times> time) option"
    and clock :: "'s \<Rightarrow> time"
    and later :: "time \<Rightarrow> 's \<Rightarrow> 's"
    and inv :: "'s \<Rightarrow> bool"
  assumes Incr_ok: "inv s \<Longrightarrow> ct_Incr C k ttl s = (Inr n, s') \<Longrightarrow> hits (view s k) < max_i64 \<Longrightarrow>
      inv s' \<and> clock s' = clock s \<and> n = hits (view s k) + 1
      \<and> view s' = (view s)(k := (if clock s \<le> snd (tallied (clock s) ttl (view s k))
                                then Some (tallied (clock s) ttl (view s k)) else None))"
    and Incr_err: "inv s \<Longrightarrow> ct_Incr C k ttl s = (Inl err, s') \<Longrightarrow> inv s' \<and> clock s' = clock s"
    and later_clock: "inv s \<Longrightarrow> clock s \<le> t \<Longrightarrow> inv (later t s) \<and> clock (later t s) = t"
    and later_view: "inv s \<Longrightarrow> clock s \<le> t \<Longrightarrow>
      view (later t s) k = (case view s k of None \<Rightarrow> None | Some (m, e) \<Rightarrow> if t > e then None else Some (m, e))"
    and live: "inv s \<Longrightarrow> view s k = Some (m, e) \<Longrightarrow> clock s \<le> e \<and> 0 < m"

locale sure_counter = counter +
  assumes Incr_sure: "inv s \<Longrightarrow> \<exists>n s'. ct_Incr C k ttl s = (Inr n, s')"

section \<open>The middleware over a counter that answers\<close>

definition answered :: "gctx \<Rightarrow> gctx \<Rightarrow> bool" where
  "answered c c' \<longleftrightarrow> CNext \<in> set (calls_since c c')"

text \<open>
  A window of a key that still lasts until \<open>T\<close> (or is not there yet): its count never goes down,
  and never exceeds the number of requests times the number of rules.
\<close>

context counter
begin

definition bounded :: "int \<Rightarrow> 's \<Rightarrow> bool" where
  "bounded N s \<longleftrightarrow> (\<forall>k. hits (view s k) \<le> N)"

definition covers :: "time \<Rightarrow> string \<Rightarrow> 's \<Rightarrow> bool" where
  "covers T k s \<longleftrightarrow> (\<forall>m e. view s k = Some (m, e) \<longrightarrow> T \<le> e)"

lemma hits_nonneg: "inv s \<Longrightarrow> 0 \<le> hits (view s k)"
  using live [of s k] by (cases "view s k") (auto simp: hits_def split: prod.split)

lemma Incr_step:
  assumes "inv s" "bounded N s" "N < max_i64" "ct_Incr C k ttl s = (Inr n, s')" "0 \<le> ttl"
  shows "inv s' \<and> clock s' = clock s \<and> n = hits (view s k) + 1 \<and> bounded (N + 1) s'
    \<and> view s' = (view s)(k \<mapsto> tallied (clock s) ttl (view s k))"
proof -
  have h: "hits (view s k) < max_i64" using assms(2,3) by (auto simp: bounded_def intro: le_less_trans)
  have "clock s \<le> snd (tallied (clock s) ttl (view s k))"
    using live [OF assms(1), of k] assms(5) by (cases "view s k") (auto simp: tallied_def)
  with Incr_ok [OF assms(1,4) h]
  have st: "inv s' \<and> clock s' = clock s \<and> n = hits (view s k) + 1
      \<and> view s' = (view s)(k \<mapsto> tallied (clock s) ttl (view s k))" by simp
  moreover have "bounded (N + 1) s'"
    using st assms(2) unfolding bounded_def by (auto intro: order_trans [of _ N])
  ultimately show ?thesis by blast
qed

lemma later_step:
  assumes "inv s" "clock s \<le> t" "t \<le> T"
  shows "inv (later t s) \<and> clock (later t s) = t \<and> (bounded N s \<longrightarrow> 0 \<le> N \<longrightarrow> bounded N (later t s))
    \<and> (covers T k s \<longrightarrow> covers T k (later t s) \<and> view (later t s) k = view s k)"
  using later_clock [OF assms(1,2)] later_view [OF assms(1,2)] assms(3)
  by (auto simp: bounded_def covers_def hits_def split: option.splits prod.splits)

end

context sure_counter
begin

lemma enforce_step:
  assumes "enforce cfg key rs br bl c s = (c', s')" and "rl_Counter cfg = C"
    and "inv s" and "bounded N s" and "N + int (length rs) \<le> max_i64"
    and "\<forall>r\<in>set rs. 0 \<le> ru_Window r \<and> (counter_key r key = k \<longrightarrow> T \<le> clock s + ru_Window r)"
    and "covers T k s"
  shows "inv s' \<and> clock s' = clock s \<and> bounded (N + int (length rs)) s' \<and> covers T k s'
    \<and> hits (view s k) \<le> hits (view s' k)
    \<and> (answered c c' \<longrightarrow> (\<forall>r\<in>set rs. 0 < ru_Limit r c \<longrightarrow> counter_key r key = k \<longrightarrow>
         hits (view s k) < hits (view s' k) \<and> hits (view s k) < ru_Limit r c))"
  using assms
proof (induction rs arbitrary: br bl s N)
  case Nil
  then show ?case by auto
next
  case (Cons r rs)
  let ?ck = "counter_key r key"
  show ?case
  proof (cases "ru_Limit r c \<le> 0")
    case True
    with Cons.prems have e: "enforce cfg key rs br bl c s = (c', s')" by (simp add: Let_def)
    have mono: "bounded (N + int (length rs)) s' \<Longrightarrow> bounded (N + int (length (r # rs))) s'"
      by (auto simp: bounded_def intro: order_trans)
    show ?thesis
      using Cons.IH [OF e Cons.prems(2,3,4)] Cons.prems(5-7) True mono by auto
  next
    case False
    obtain n s1 where incr: "ct_Incr C ?ck (ru_Window r) s = (Inr n, s1)"
      using Incr_sure [OF Cons.prems(3)] by blast
    note S = Incr_step [OF Cons.prems(3,4) _ incr]
    have S1: "inv s1" "clock s1 = clock s" "n = hits (view s ?ck) + 1" "bounded (N + 1) s1"
      "view s1 = (view s)(?ck \<mapsto> tallied (clock s) (ru_Window r) (view s ?ck))"
      using S Cons.prems(5,6) by auto
    have cov: "covers T k s1"
      using Cons.prems(6,7) S1(5) by (auto simp: covers_def tallied_def split: option.splits)
    have up: "hits (view s k) \<le> hits (view s1 k)" "?ck = k \<Longrightarrow> hits (view s1 k) = n"
      using S1 by auto
    show ?thesis
    proof (cases "n > ru_Limit r c")
      case True
      with Cons.prems(1,2) incr False have "s' = s1" "c' = reject cfg r (ru_Limit r c) c"
        by (auto simp: Let_def)
      moreover have "\<not> answered c (reject cfg r (ru_Limit r c) c)"
        by (auto simp: answered_def reject_def setHeaders_def calls_since_def Let_def)
      moreover have "bounded (N + int (length (r # rs))) s1"
        using S1(4) by (auto simp: bounded_def intro: order_trans)
      ultimately show ?thesis using S1 cov up by auto
    next
      case le: False
      obtain br2 bl2 where e: "enforce cfg key rs br2 bl2 c s1 = (c', s')"
        using Cons.prems(1,2) incr False le by (auto simp: Let_def split: if_splits)
      have "N + 1 + int (length rs) \<le> max_i64" using Cons.prems(5) by simp
      note IH = Cons.IH [OF e Cons.prems(2) S1(1,4) this _ cov]
      have IH1: "inv s' \<and> clock s' = clock s1 \<and> bounded (N + 1 + int (length rs)) s' \<and> covers T k s'
        \<and> hits (view s1 k) \<le> hits (view s' k)
        \<and> (answered c c' \<longrightarrow> (\<forall>r\<in>set rs. 0 < ru_Limit r c \<longrightarrow> counter_key r key = k \<longrightarrow>
             hits (view s1 k) < hits (view s' k) \<and> hits (view s1 k) < ru_Limit r c))"
        using IH Cons.prems(6) S1(2) by simp
      have "hits (view s k) < hits (view s' k) \<and> hits (view s k) < ru_Limit q c"
        if "answered c c'" "q \<in> set (r # rs)" "0 < ru_Limit q c" "counter_key q key = k" for q
        using that IH1 up le S1(3) by (cases "q = r") (fastforce, auto intro: le_less_trans)
      moreover have "N + 1 + int (length rs) = N + int (length (r # rs))" by simp
      ultimately show ?thesis using IH1 S1(2) up(1) by (metis (no_types, lifting) order_trans)
    qed
  qed
qed

end

text \<open>Which rule rejects a request, and the tightest budget otherwise.\<close>

definition enabled :: "gctx \<Rightarrow> rule list \<Rightarrow> rule list" where
  "enabled c rs = filter (\<lambda>r. 0 < ru_Limit r c) rs"

lemma enabled_simps [simp]:
  "enabled c [] = []"
  "enabled c (r # rs) = (if 0 < ru_Limit r c then r # enabled c rs else enabled c rs)"
  by (simp_all add: enabled_def)

definition remaining :: "(string \<Rightarrow> (int \<times> time) option) \<Rightarrow> string \<Rightarrow> gctx \<Rightarrow> rule \<Rightarrow> int" where
  "remaining v key c r = ru_Limit r c - hits (v (counter_key r key)) - 1"

fun tightest :: "(rule \<Rightarrow> int) \<Rightarrow> (rule \<Rightarrow> int) \<Rightarrow> rule list \<Rightarrow> int \<Rightarrow> int \<Rightarrow> int \<times> int" where
  "tightest lmt budget [] br bl = (br, bl)"
| "tightest lmt budget (r # rs) br bl =
     (if br < 0 \<or> budget r < br then tightest lmt budget rs (budget r) (lmt r) else tightest lmt budget rs br bl)"

lemma tightest_min:
  "tightest lmt budget rs br bl = (br', bl') \<Longrightarrow> \<forall>r\<in>set rs. 0 \<le> budget r \<Longrightarrow>
     (br' = br \<and> bl' = bl \<or> (\<exists>r\<in>set rs. br' = budget r \<and> bl' = lmt r))
     \<and> (0 \<le> br \<longrightarrow> 0 \<le> br' \<and> br' \<le> br) \<and> (\<forall>r\<in>set rs. 0 \<le> br' \<and> br' \<le> budget r)"
proof (induction lmt budget rs br bl arbitrary: br' bl' rule: tightest.induct)
  case (2 lmt budget r rs br bl)
  show ?case
  proof (cases "br < 0 \<or> budget r < br")
    case True
    with "2.prems" have "tightest lmt budget rs (budget r) (lmt r) = (br', bl')" by simp
    from "2.IH"(1) [OF True this] "2.prems"(2) True show ?thesis by fastforce
  next
    case False
    with "2.prems" have "tightest lmt budget rs br bl = (br', bl')" by simp
    from "2.IH"(2) [OF False this] "2.prems"(2) False show ?thesis by fastforce
  qed
qed simp

lemma counter_key_inj: "counter_key r key = counter_key q key \<longleftrightarrow> ru_Name r = ru_Name q"
  by (simp add: counter_key_def)

context sure_counter
begin

lemma enforce_verdict:
  assumes "enforce cfg key rs br bl c s = (c', s')" and "rl_Counter cfg = C"
    and "inv s" and "bounded N s" and "N + int (length rs) \<le> max_i64"
    and "distinct (map ru_Name rs)" and "\<forall>r\<in>set rs. 0 \<le> ru_Window r \<and> ru_Limit r c \<le> max_i64"
    and "\<forall>r\<in>set rs. hits (view s (counter_key r key)) = hits (v (counter_key r key))"
  shows "c' = (case find (\<lambda>r. remaining v key c r < 0) (enabled c rs) of
      Some r \<Rightarrow> reject cfg r (ru_Limit r c) c
    | None \<Rightarrow> (case tightest (\<lambda>r. ru_Limit r c) (remaining v key c) (enabled c rs) br bl of
        (br, bl) \<Rightarrow> call CNext (if br \<ge> 0 then setHeaders bl br c else c)))"
  using assms
proof (induction rs arbitrary: br bl s N)
  case (Cons r rs)
  let ?ck = "counter_key r key"
  have len: "N + 1 + int (length rs) \<le> max_i64" "N + int (length rs) \<le> max_i64" using Cons.prems(5) by simp_all
  show ?case
  proof (cases "ru_Limit r c \<le> 0")
    case True
    with Cons.prems(1) have "enforce cfg key rs br bl c s = (c', s')" by (simp add: Let_def)
    moreover have en: "enabled c (r # rs) = enabled c rs" using True by simp
    ultimately show ?thesis using Cons.IH [OF _ Cons.prems(2-4) len(2)] Cons.prems(6-8)
      unfolding en by simp
  next
    case False
    obtain n s1 where incr: "ct_Incr C ?ck (ru_Window r) s = (Inr n, s1)"
      using Incr_sure [OF Cons.prems(3)] by blast
    have S1: "inv s1" "n = hits (view s ?ck) + 1" "bounded (N + 1) s1"
      "view s1 = (view s)(?ck \<mapsto> tallied (clock s) (ru_Window r) (view s ?ck))"
      using Incr_step [OF Cons.prems(3,4) _ incr] Cons.prems(5,7) by auto
    have n: "n = hits (v ?ck) + 1" "1 \<le> n" using S1(2) Cons.prems(8) hits_nonneg [OF Cons.prems(3), of ?ck] by auto
    have rest: "\<forall>q\<in>set rs. hits (view s1 (counter_key q key)) = hits (v (counter_key q key))"
    proof
      fix q assume q: "q \<in> set rs"
      then have "ru_Name q \<noteq> ru_Name r" using Cons.prems(6) by (auto simp: image_iff)
      then have "counter_key q key \<noteq> ?ck" by (simp add: counter_key_inj)
      then show "hits (view s1 (counter_key q key)) = hits (v (counter_key q key))"
        using Cons.prems(8) q by (simp add: S1(4))
    qed
    show ?thesis
    proof (cases "n > ru_Limit r c")
      case True
      with Cons.prems(1,2) incr False have "c' = reject cfg r (ru_Limit r c) c" by (auto simp: Let_def)
      with True False n show ?thesis by (simp add: remaining_def)
    next
      case le: False
      have budget: "i64 (ru_Limit r c - n) = remaining v key c r" "0 \<le> remaining v key c r"
        using n le Cons.prems(7) by (simp_all add: remaining_def i64_ok_def)
      let ?b = "br < 0 \<or> remaining v key c r < br"
      have "enforce cfg key rs (if ?b then remaining v key c r else br) (if ?b then ru_Limit r c else bl) c s1 = (c', s')"
        using Cons.prems(1,2) incr False le budget(1) by (auto simp: Let_def split: if_splits)
      from Cons.IH [OF this Cons.prems(2) S1(1,3) len(1)] Cons.prems(6,7) rest
      have IH: "c' = (case find (\<lambda>r. remaining v key c r < 0) (enabled c rs) of
          Some r \<Rightarrow> reject cfg r (ru_Limit r c) c
        | None \<Rightarrow> (case tightest (\<lambda>r. ru_Limit r c) (remaining v key c) (enabled c rs)
            (if ?b then remaining v key c r else br) (if ?b then ru_Limit r c else bl) of
            (br, bl) \<Rightarrow> call CNext (if br \<ge> 0 then setHeaders bl br c else c)))" by simp
      have en: "enabled c (r # rs) = r # enabled c rs" using False by simp
      from IH budget(2) show ?thesis unfolding en by (cases ?b) (simp_all split: option.split)
    qed
  qed
qed simp

end

text \<open>A sequence of requests, each at its time, on one counter: which keys were let through.\<close>

fun serve :: "(time \<Rightarrow> 's \<Rightarrow> 's) \<Rightarrow> 's rl_config \<Rightarrow> (time \<times> gctx) list \<Rightarrow> 's \<Rightarrow> (string \<times> bool) list \<times> 's" where
  "serve later cfg [] s = ([], s)"
| "serve later cfg ((t, c) # reqs) s =
     (case rl_Middleware cfg c (later t s) of
        (c', s) \<Rightarrow>
          (case serve later cfg reqs s of (out, s) \<Rightarrow> ((rl_Key cfg c, answered c c') # out, s)))"

definition admitted :: "string \<Rightarrow> (string \<times> bool) list \<Rightarrow> nat" where
  "admitted key out = length (filter (\<lambda>x. x = (key, True)) out)"

lemma counter_key_unique:
  assumes "CHR '':'' \<notin> set (ru_Name r)" "CHR '':'' \<notin> set (ru_Name q)"
  shows "counter_key r key = counter_key q key' \<longleftrightarrow> ru_Name r = ru_Name q \<and> key = key'"
proof -
  have name: "takeWhile (\<lambda>c. c \<noteq> CHR '':'') (ru_Name r @ '':'' @ k) = ru_Name r"
    if "CHR '':'' \<notin> set (ru_Name r)" for r :: rule and k
    using that by (subst takeWhile_append2) auto
  show ?thesis using name [OF assms(1), of key] name [OF assms(2), of key']
    by (auto simp: counter_key_def)
qed

context sure_counter
begin

lemma Middleware_step:
  assumes "rl_Middleware cfg c s = (c', s')" and "rl_Counter cfg = C"
    and "inv s" and "bounded N s" and "N + int (length (rl_Rules cfg)) \<le> max_i64"
    and "\<forall>r\<in>set (rl_Rules cfg). 0 \<le> ru_Window r \<and> (\<forall>key. counter_key r key = k \<longrightarrow> T \<le> clock s + ru_Window r)"
    and "covers T k s"
  shows "inv s' \<and> clock s' = clock s \<and> bounded (N + int (length (rl_Rules cfg))) s' \<and> covers T k s'
    \<and> hits (view s k) \<le> hits (view s' k)
    \<and> (answered c c' \<longrightarrow> rl_Key cfg c \<noteq> [] \<longrightarrow> (\<forall>r\<in>set (rl_Rules cfg). 0 < ru_Limit r c \<longrightarrow>
         counter_key r (rl_Key cfg c) = k \<longrightarrow>
         hits (view s k) < hits (view s' k) \<and> hits (view s k) < ru_Limit r c))"
proof (cases "rl_Key cfg c = []")
  case True
  with assms(1) have "s' = s" by (simp add: rl_Middleware_def)
  moreover have "bounded (N + int (length (rl_Rules cfg))) s"
    using assms(4) by (auto simp: bounded_def intro: order_trans)
  ultimately show ?thesis using assms(3,7) True by simp
next
  case False
  with assms(1) have "enforce cfg (rl_Key cfg c) (rl_Rules cfg) (-1) 0 c s = (c', s')"
    by (simp add: rl_Middleware_def)
  from enforce_step [OF this assms(2-5) _ assms(7)] assms(6) show ?thesis by blast
qed

lemma serve_bound:
  assumes "serve later cfg reqs s = (out, s')" and "rl_Counter cfg = C"
    and "inv s" and "bounded N s" and "0 \<le> N" and "N + int (length reqs * length (rl_Rules cfg)) \<le> max_i64"
    and "sorted (map fst reqs)" and "\<forall>(t, c)\<in>set reqs. clock s \<le> t \<and> t \<le> T"
    and "\<forall>q\<in>set (rl_Rules cfg). 0 \<le> ru_Window q \<and> (\<forall>key'. counter_key q key' = counter_key r key \<longrightarrow> T \<le> clock s + ru_Window q)"
    and "r \<in> set (rl_Rules cfg)" and "key \<noteq> []" and "0 < L"
    and "\<forall>(t, c)\<in>set reqs. rl_Key cfg c = key \<longrightarrow> ru_Limit r c = L"
    and "covers T (counter_key r key) s"
  shows "int (admitted key out) \<le> max 0 (L - hits (view s (counter_key r key)))"
  using assms
proof (induction reqs arbitrary: s N out)
  case Nil
  then show ?case by (simp add: admitted_def)
next
  case (Cons req reqs)
  obtain t c where req: "req = (t, c)" by fastforce
  let ?ck = "counter_key r key"
  let ?n = "int (length (rl_Rules cfg))"
  obtain c' s2 where mw: "rl_Middleware cfg c (later t s) = (c', s2)" by fastforce
  obtain out' where rest: "serve later cfg reqs s2 = (out', s')" and out: "out = (rl_Key cfg c, answered c c') # out'"
    using Cons.prems(1) mw by (auto simp: req split: prod.splits)
  have t: "clock s \<le> t" "t \<le> T" using Cons.prems(8) by (auto simp: req)
  have S1: "inv (later t s)" "clock (later t s) = t" "bounded N (later t s)" "covers T ?ck (later t s)"
    "view (later t s) ?ck = view s ?ck"
    using later_step [OF Cons.prems(3) t, of N ?ck] Cons.prems(4,5,14) by auto
  have N: "N + ?n \<le> max_i64" "N + ?n + int (length reqs * length (rl_Rules cfg)) \<le> max_i64"
    using Cons.prems(6) by (simp_all add: algebra_simps)
      (smt (verit) of_nat_0_le_iff mult_nonneg_nonneg)
  have win: "\<forall>q\<in>set (rl_Rules cfg). 0 \<le> ru_Window q \<and> (\<forall>key'. counter_key q key' = ?ck \<longrightarrow> T \<le> t + ru_Window q)"
    using Cons.prems(9) t(1) by fastforce
  note M = Middleware_step [OF mw Cons.prems(2) S1(1,3) N(1) _ S1(4), unfolded S1(2), OF win]
  have later_reqs: "\<forall>(t, c)\<in>set reqs. clock s2 \<le> t \<and> t \<le> T" "sorted (map fst reqs)"
    "\<forall>(t, c)\<in>set reqs. rl_Key cfg c = key \<longrightarrow> ru_Limit r c = L"
    using Cons.prems(7,8,13) M by (auto simp: req)
  have S2: "inv s2" "bounded (N + ?n) s2" "covers T ?ck s2" "0 \<le> N + ?n"
    "\<forall>q\<in>set (rl_Rules cfg). 0 \<le> ru_Window q \<and> (\<forall>key'. counter_key q key' = ?ck \<longrightarrow> T \<le> clock s2 + ru_Window q)"
    using M Cons.prems(5) win by auto
  have "int (admitted key out') \<le> max 0 (L - hits (view s2 ?ck))"
    by (rule Cons.IH [OF rest Cons.prems(2) S2(1,2,4) N(2) later_reqs(2,1) S2(5) Cons.prems(10-12) later_reqs(3) S2(3)])
  moreover have "hits (view s ?ck) < hits (view s2 ?ck) \<and> hits (view s ?ck) < L"
    if "rl_Key cfg c = key" "answered c c'"
    using M that Cons.prems(10-13) S1(5) by (auto simp: req)
  moreover have "hits (view s ?ck) \<le> hits (view s2 ?ck)" using M S1(5) by simp
  ultimately show ?case by (auto simp: out admitted_def split: if_splits)
qed

end

section \<open>The in-memory counter keeps the contract\<close>

definition mem_view :: "mem_counter \<Rightarrow> string \<Rightarrow> (int \<times> time) option" where
  "mem_view c k = (case map_of (mc_m c) k of
     None \<Rightarrow> None | Some e \<Rightarrow> if mc_now c > e_exp e then None else Some (e_n e, e_exp e))"

definition mem_later :: "time \<Rightarrow> mem_counter \<Rightarrow> mem_counter" where
  "mem_later t c = c\<lparr>mc_now := t\<rparr>"

definition mem_inv :: "mem_counter \<Rightarrow> bool" where
  "mem_inv c \<longleftrightarrow> distinct (map fst (mc_m c)) \<and> (\<forall>k e. map_of (mc_m c) k = Some e \<longrightarrow> 0 < e_n e)"

lemma map_of_filter_distinct:
  "distinct (map fst m) \<Longrightarrow> map_of (filter (\<lambda>(k, e). P e) m) k
     = (case map_of m k of None \<Rightarrow> None | Some e \<Rightarrow> if P e then Some e else None)"
proof (induction m)
  case (Cons x m)
  then show ?case by (cases x) (auto split: option.splits simp flip: map_of_eq_None_iff)
qed simp

lemma mem_Incr_result:
  assumes inv: "mem_inv c" and small: "hits (mem_view c k) < max_i64" and r: "mem_Incr k ttl c = (Inr n, c')"
  shows "mem_inv c' \<and> mc_now c' = mc_now c \<and> n = hits (mem_view c k) + 1
    \<and> mem_view c' = (mem_view c)(k := (if mc_now c \<le> snd (tallied (mc_now c) ttl (mem_view c k))
                                then Some (tallied (mc_now c) ttl (mem_view c k)) else None))"
proof -
  define m where "m = (if length (mc_m c) > 10000 then filter (\<lambda>(k, e). \<not> mc_now c > e_exp e) (mc_m c) else mc_m c)"
  define e where "e = (case map_of m k of None \<Rightarrow> \<lparr>e_n = 0, e_exp = mc_now c + ttl\<rparr>
    | Some e \<Rightarrow> if mc_now c > e_exp e then \<lparr>e_n = 0, e_exp = mc_now c + ttl\<rparr> else e)"
  have dist: "distinct (map fst m)"
    using inv by (auto simp: m_def mem_inv_def distinct_map inj_on_subset)
  have pos: "map_of m j = Some x \<Longrightarrow> 0 < e_n x" for j x
    using inv map_of_filter_distinct [of "mc_m c" "\<lambda>e. \<not> mc_now c > e_exp e" j]
    by (auto simp: m_def mem_inv_def split: if_splits option.splits)
  have live: "(case map_of m j of None \<Rightarrow> None | Some e \<Rightarrow> if mc_now c > e_exp e then None else Some (e_n e, e_exp e))
      = mem_view c j" for j
    using inv map_of_filter_distinct [of "mc_m c" "\<lambda>e. \<not> mc_now c > e_exp e" j]
    by (auto simp: m_def mem_view_def mem_inv_def split: option.split)
  have e: "e_n e = hits (mem_view c k)" "e_n e + 1 = fst (tallied (mc_now c) ttl (mem_view c k))"
    "e_exp e = snd (tallied (mc_now c) ttl (mem_view c k))"
    by (auto simp: live [symmetric] e_def tallied_def split: option.split)
  have e0: "0 \<le> e_n e" using pos by (auto simp: e_def split: option.split dest!: pos)
  have i: "i64 (e_n e + 1) = e_n e + 1" using e0 small e(1) by (simp add: i64_ok_def)
  have "mem_Incr k ttl c = (Inr (e_n e + 1), c\<lparr>mc_m := AList.update k (e\<lparr>e_n := e_n e + 1\<rparr>) m\<rparr>)"
    by (simp add: mem_Incr_def Let_def m_def [symmetric] e_def [symmetric] i)
  with r have r': "n = e_n e + 1" "c' = c\<lparr>mc_m := AList.update k (e\<lparr>e_n := e_n e + 1\<rparr>) m\<rparr>" by auto
  have "mem_inv c'"
    using dist pos e0 by (auto simp: r'(2) mem_inv_def distinct_update update_conv')
  moreover have "mem_view c' j = (if j = k then (if mc_now c \<le> e_exp e then Some (e_n e + 1, e_exp e) else None)
      else mem_view c j)" for j
    using live [of j] unfolding mem_view_def r'(2) by (simp add: update_conv' cong: option.case_cong)
  moreover have "tallied (mc_now c) ttl (mem_view c k) = (e_n e + 1, e_exp e)"
    using e(2,3) by (simp add: prod_eq_iff)
  moreover have "mc_now c' = mc_now c" "n = hits (mem_view c k) + 1" using r' e(1) by simp_all
  ultimately show ?thesis by (auto simp: fun_eq_iff)
qed

interpretation mem: sure_counter MemCounter mem_view mc_now mem_later mem_inv
proof (unfold_locales, goal_cases)
  case (1 s k ttl n s')
  then show ?case using mem_Incr_result [of s k ttl n s'] by (simp add: MemCounter_def)
next
  case (2 s k ttl err s')
  then show ?case by (simp add: MemCounter_def mem_Incr_def Let_def)
next
  case (3 s t)
  then show ?case by (simp add: mem_later_def mem_inv_def)
next
  case (4 s t k)
  then show ?case by (auto simp: mem_later_def mem_view_def split: option.split)
next
  case (5 s k m e)
  then show ?case by (auto simp: mem_view_def mem_inv_def split: option.splits if_splits)
next
  case (6 s k ttl)
  then show ?case by (simp add: MemCounter_def mem_Incr_def Let_def)
qed

lemma mem_New_simps [simp]:
  "mem_inv (mem_New t)" "mem_view (mem_New t) k = None" "mc_now (mem_New t) = t"
  by (simp_all add: mem_New_def mem_inv_def mem_view_def)

section \<open>Properties\<close>

text \<open>
  C25. What one request gets from the in-memory limiter, for rules with different names. It is
  rejected by the first enabled rule whose window is full - with that rule's limit, nothing
  remaining and its window as Retry-After - and let through otherwise; then the headers show an
  enabled rule with the least remaining budget, which is not negative, or there are none when no
  rule is enabled.
\<close>

theorem rl_verdict:
  assumes "rl_Middleware cfg c s = (c', s')" and "rl_Counter cfg = MemCounter" and "rl_Key cfg c = key" "key \<noteq> []"
    and "mem_inv s" and "\<forall>k. hits (mem_view s k) \<le> N" and "N + int (length (rl_Rules cfg)) \<le> max_i64"
    and "distinct (map ru_Name (rl_Rules cfg))"
    and "\<forall>r\<in>set (rl_Rules cfg). 0 \<le> ru_Window r \<and> ru_Limit r c \<le> max_i64"
  shows "case find (\<lambda>r. remaining (mem_view s) key c r < 0) (enabled c (rl_Rules cfg)) of
      Some r \<Rightarrow> c' = reject cfg r (ru_Limit r c) c \<and> \<not> answered c c'
    | None \<Rightarrow> (if enabled c (rl_Rules cfg) = [] then c' = call CNext c
        else \<exists>r\<in>set (enabled c (rl_Rules cfg)). 0 \<le> remaining (mem_view s) key c r
          \<and> (\<forall>q\<in>set (enabled c (rl_Rules cfg)). remaining (mem_view s) key c r \<le> remaining (mem_view s) key c q)
          \<and> c' = call CNext (setHeaders (ru_Limit r c) (remaining (mem_view s) key c r) c))"
proof -
  let ?rs = "enabled c (rl_Rules cfg)"
  let ?left = "remaining (mem_view s) key c"
  have e: "enforce cfg key (rl_Rules cfg) (-1) 0 c s = (c', s')"
    using assms(1,3,4) by (simp add: rl_Middleware_def)
  have "mem.bounded N s" using assms(6) by (simp add: mem.bounded_def)
  note V = mem.enforce_verdict [OF e assms(2,5) this assms(7,8,9), of "mem_view s"]
  show ?thesis
  proof (cases "find (\<lambda>r. ?left r < 0) ?rs")
    case (Some r)
    with V show ?thesis
      by (auto simp: answered_def reject_def setHeaders_def calls_since_def Let_def)
  next
    case None
    then have pos: "\<forall>r\<in>set ?rs. 0 \<le> ?left r" by (auto simp: find_None_iff)
    obtain br bl where t: "tightest (\<lambda>r. ru_Limit r c) ?left ?rs (-1) 0 = (br, bl)" by fastforce
    with V None have c': "c' = call CNext (if br \<ge> 0 then setHeaders bl br c else c)" by simp
    note T = tightest_min [OF t pos]
    show ?thesis
    proof (cases "?rs = []")
      case True
      with t c' None show ?thesis by simp
    next
      case False
      then obtain q where "q \<in> set ?rs" by (cases ?rs) auto
      with T have "0 \<le> br" by blast
      with T obtain r where "r \<in> set ?rs" "br = ?left r" "bl = ru_Limit r c" by auto
      with T \<open>0 \<le> br\<close> c' None False show ?thesis by auto
    qed
  qed
qed

definition ex_rule :: "string \<Rightarrow> int \<Rightarrow> int \<Rightarrow> rule" where
  "ex_rule n w l = \<lparr>ru_Name = n, ru_Window = w, ru_Limit = (\<lambda>c. l)\<rparr>"

definition ex_limiter :: "mem_counter rl_config" where
  "ex_limiter = \<lparr>rl_Counter = MemCounter, rl_Key = g_ip,
     rl_Rules = [ex_rule ''minute'' Minute 2, ex_rule ''day'' (24 * Hour) 100], rl_OnLimit = False\<rparr>"

definition ex_request :: gctx where
  "ex_request = (fresh_ctx \<lparr>s_vals = Map.empty, s_saved = Map.empty, s_fault = None\<rparr>)\<lparr>g_ip := ''1.2.3.4''\<rparr>"

lemma ex_limiter_simps [simp]:
  "rl_Counter ex_limiter = MemCounter" "rl_Key ex_limiter ex_request = ''1.2.3.4''"
  "rl_Rules ex_limiter = [ex_rule ''minute'' Minute 2, ex_rule ''day'' (24 * Hour) 100]"
  "ru_Name (ex_rule n w l) = n" "ru_Window (ex_rule n w l) = w" "ru_Limit (ex_rule n w l) = (\<lambda>c. l)"
  by (simp_all add: ex_limiter_def ex_request_def ex_rule_def)

theorem rl_verdict_witness:
  "fst (rl_Middleware ex_limiter ex_request (mem_New 0)) = call CNext (setHeaders 2 1 ex_request)"
proof -
  obtain c' s' where mw: "rl_Middleware ex_limiter ex_request (mem_New 0) = (c', s')" by fastforce
  from rl_verdict [OF mw, of "''1.2.3.4''" 0] show ?thesis by (simp add: remaining_def mw)
qed

text \<open>
  C9. A limit holds over its window. Take any sequence of requests, of any keys and in any order,
  served by the in-memory limiter from a state in which the rule's window for \<open>key\<close> is not open,
  all within one window length: at most \<open>L\<close> of the requests with that key are let through, however
  many other rules there are.
\<close>

theorem rl_window_bound:
  assumes "serve mem_later cfg reqs s = (out, s')" and "rl_Counter cfg = MemCounter"
    and "mem_inv s" and "\<forall>k. hits (mem_view s k) \<le> N" and "0 \<le> N"
    and "N + int (length reqs * length (rl_Rules cfg)) \<le> max_i64"
    and "sorted (map fst reqs)" and "\<forall>(t, c)\<in>set reqs. mc_now s \<le> t \<and> t \<le> mc_now s + ru_Window r"
    and "distinct (map ru_Name (rl_Rules cfg))"
    and "\<forall>q\<in>set (rl_Rules cfg). 0 \<le> ru_Window q \<and> CHR '':'' \<notin> set (ru_Name q)"
    and "r \<in> set (rl_Rules cfg)" and "key \<noteq> []" and "0 < L"
    and "\<forall>(t, c)\<in>set reqs. rl_Key cfg c = key \<longrightarrow> ru_Limit r c = L"
    and "mem_view s (counter_key r key) = None"
  shows "int (admitted key out) \<le> L"
proof -
  have same: "q = r" if "q \<in> set (rl_Rules cfg)" "counter_key q key' = counter_key r key" for q key'
    using that assms(9,10,11) counter_key_unique [of q r key' key] by (auto simp: distinct_map inj_on_def)
  have "int (admitted key out) \<le> max 0 (L - hits (mem_view s (counter_key r key)))"
    by (rule mem.serve_bound [OF assms(1,2,3) _ assms(5-8) _ assms(11-14)])
      (use assms(4,10,15) same in \<open>auto simp: mem.bounded_def mem.covers_def\<close>)
  with assms(13,15) show ?thesis by simp
qed

theorem rl_window_bound_witness:
  "admitted ''1.2.3.4'' (fst (serve mem_later ex_limiter
     [(0, ex_request), (10, ex_request), (20, ex_request), (Minute, ex_request)] (mem_New 0))) \<le> 2"
proof -
  let ?reqs = "[(0, ex_request), (10, ex_request), (20, ex_request), (Minute, ex_request)]"
  obtain out s' where run: "serve mem_later ex_limiter ?reqs (mem_New 0) = (out, s')" by fastforce
  from rl_window_bound [OF run, of 0 "ex_rule ''minute'' Minute 2" "''1.2.3.4''" 2]
  have "admitted ''1.2.3.4'' out \<le> 2" by simp
  then show ?thesis by (simp only: run fst_conv)
qed

lemma enforce_open:
  "\<forall>k w s. \<exists>err. fst (ct_Incr (rl_Counter cfg) k w s) = Inl err \<Longrightarrow>
     fst (enforce cfg key rs br bl c s) = fst (enforce cfg key [] br bl c s)"
proof (induction rs arbitrary: s)
  case (Cons r rs)
  obtain err s1 where "ct_Incr (rl_Counter cfg) (counter_key r key) (ru_Window r) s = (Inl err, s1)"
    using Cons.prems by (metis prod.collapse)
  with Cons show ?case by (simp add: Let_def)
qed simp

text \<open>
  The limiter is best effort: when the counter's backend fails, whatever it leaves behind, every
  request goes on to the next handler, untouched, for every configuration.
\<close>

theorem rl_fail_open:
  assumes "\<forall>k w s. \<exists>err. fst (ct_Incr (rl_Counter cfg) k w s) = Inl err"
  shows "fst (rl_Middleware cfg c s) = call CNext c"
  using enforce_open [OF assms, of "rl_Key cfg c" "rl_Rules cfg" "-1" 0 c s] by (simp add: rl_Middleware_def)

theorem rl_fail_open_witness:
  "fst (rl_Middleware \<lparr>rl_Counter = \<lparr>ct_Incr = (\<lambda>k w s. (Inl (Foreign ''down''), s + (1::int)))\<rparr>,
     rl_Key = g_ip, rl_Rules = [ex_rule ''minute'' Minute 2], rl_OnLimit = True\<rparr> ex_request 5) = call CNext ex_request"
  by (rule rl_fail_open) simp

text \<open>The documented behaviour of the two Redis commands and of the client's script call.\<close>

definition redis_laws :: "'r redis \<Rightarrow> ('r \<Rightarrow> time) \<Rightarrow> ('r \<Rightarrow> string \<Rightarrow> (int \<times> time option) option) \<Rightarrow> bool" where
  "redis_laws R clock rv \<longleftrightarrow>
     (\<forall>k r n e. rv r k = Some (n, e) \<longrightarrow> n < max_i64 \<longrightarrow> fst (rd_INCR R k r) = n + 1
        \<and> clock (snd (rd_INCR R k r)) = clock r \<and> rv (snd (rd_INCR R k r)) = (rv r)(k \<mapsto> (n + 1, e)))
     \<and> (\<forall>k r. rv r k = None \<longrightarrow> fst (rd_INCR R k r) = 1
        \<and> clock (snd (rd_INCR R k r)) = clock r \<and> rv (snd (rd_INCR R k r)) = (rv r)(k \<mapsto> (1, None)))
     \<and> (\<forall>k ms r. 0 < ms \<longrightarrow> clock (rd_PEXPIRE R k ms r) = clock r
        \<and> rv (rd_PEXPIRE R k ms r) = (rv r)(k := map_option (\<lambda>(n, e). (n, Some (clock r + ms * 1000000))) (rv r k)))
     \<and> (\<forall>f r. rd_Run R f r = (Inr (fst (f r)), snd (f r)))"

lemma redis_Incr_new:
  assumes L: "redis_laws R clock rv" and "0 < ms" and "rv r k = None"
  shows "fst (redis_Incr R k (ms * 1000000) r) = Inr 1
    \<and> clock (snd (redis_Incr R k (ms * 1000000) r)) = clock r
    \<and> rv (snd (redis_Incr R k (ms * 1000000) r)) = (rv r)(k \<mapsto> (1, Some (clock r + ms * 1000000)))"
proof -
  obtain n r1 where i: "rd_INCR R k r = (n, r1)" by fastforce
  have ms: "(ms * 1000000) sdiv 1000000 = ms" using assms(2) by (simp add: signed_divide_int_def sgn_mult)
  have "fst (rd_INCR R k r) = 1 \<and> clock (snd (rd_INCR R k r)) = clock r
      \<and> rv (snd (rd_INCR R k r)) = (rv r)(k \<mapsto> (1, None))" using L assms(3) unfolding redis_laws_def by blast
  then have "n = 1" "clock r1 = clock r" "rv r1 = (rv r)(k \<mapsto> (1, None))" by (simp_all add: i)
  moreover have "clock (rd_PEXPIRE R k ms r1) = clock r1 \<and> rv (rd_PEXPIRE R k ms r1)
      = (rv r1)(k := map_option (\<lambda>(n, e). (n, Some (clock r1 + ms * 1000000))) (rv r1 k))"
    using L assms(2) unfolding redis_laws_def by blast
  moreover have "redis_Incr R k (ms * 1000000) r = (Inr (fst (incrExpire R k ms r)), snd (incrExpire R k ms r))"
    using L unfolding redis_laws_def redis_Incr_def ms by blast
  ultimately show ?thesis by (simp add: incrExpire_def i)
qed

lemma redis_Incr_open:
  assumes L: "redis_laws R clock rv" and "rv r k = Some (m, e)" and "0 < m" and "m < max_i64"
  shows "fst (redis_Incr R k ttl r) = Inr (m + 1) \<and> clock (snd (redis_Incr R k ttl r)) = clock r
    \<and> rv (snd (redis_Incr R k ttl r)) = (rv r)(k \<mapsto> (m + 1, e))"
proof -
  obtain n r1 where i: "rd_INCR R k r = (n, r1)" by fastforce
  have "fst (rd_INCR R k r) = m + 1 \<and> clock (snd (rd_INCR R k r)) = clock r
      \<and> rv (snd (rd_INCR R k r)) = (rv r)(k \<mapsto> (m + 1, e))" using L assms(2,4) unfolding redis_laws_def by blast
  then have "n = m + 1" "clock r1 = clock r" "rv r1 = (rv r)(k \<mapsto> (m + 1, e))" by (simp_all add: i)
  moreover have "rd_Run R f r = (Inr (fst (f r)), snd (f r))" for f using L unfolding redis_laws_def by blast
  ultimately show ?thesis using assms(3) by (simp add: redis_Incr_def incrExpire_def i)
qed

text \<open>
  C24. The two counters are interchangeable. When every key is in the same window in Redis and in
  memory, incrementing any key for a whole number of milliseconds returns the same count from
  both and leaves every key in the same window again; in particular no key is left without an
  expiry.
\<close>

theorem redis_counter_agrees:
  assumes "redis_laws R clock rv" and "mem_inv c" and "clock r = mc_now c" and "0 < ms"
    and "\<forall>k. rv r k = map_option (\<lambda>(n, e). (n, Some e)) (mem_view c k)" and "hits (mem_view c key) < max_i64"
  shows "fst (redis_Incr R key (ms * 1000000) r) = fst (mem_Incr key (ms * 1000000) c)
    \<and> (\<forall>k. rv (snd (redis_Incr R key (ms * 1000000) r)) k
         = map_option (\<lambda>(n, e). (n, Some e)) (mem_view (snd (mem_Incr key (ms * 1000000) c)) k))
    \<and> clock (snd (redis_Incr R key (ms * 1000000) r)) = mc_now (snd (mem_Incr key (ms * 1000000) c))"
proof -
  obtain n c' where m: "mem_Incr key (ms * 1000000) c = (Inr n, c')"
    using mem.Incr_sure [OF assms(2), of key "ms * 1000000"] by (auto simp: MemCounter_def)
  have "mc_now c \<le> snd (tallied (mc_now c) (ms * 1000000) (mem_view c key))"
    using mem.live [OF assms(2), of key] assms(4) by (cases "mem_view c key") (auto simp: tallied_def)
  with mem_Incr_result [OF assms(2,6) m] have M: "mc_now c' = mc_now c" "n = hits (mem_view c key) + 1"
    "mem_view c' = (mem_view c)(key \<mapsto> tallied (mc_now c) (ms * 1000000) (mem_view c key))" by simp_all
  show ?thesis
  proof (cases "mem_view c key")
    case None
    with assms(5) have "rv r key = None" by simp
    note red = redis_Incr_new [OF assms(1,4) this]
    show ?thesis using red m M None assms(3,5) by (auto simp: tallied_def)
  next
    case (Some w)
    obtain h e where w: "w = (h, e)" by fastforce
    with Some assms(5) have rv: "rv r key = Some (h, Some e)" by simp
    moreover have "0 < h" "h < max_i64" using mem.live [OF assms(2), of key h e] Some w assms(6) by auto
    ultimately have red: "fst (redis_Incr R key (ms * 1000000) r) = Inr (h + 1)
        \<and> clock (snd (redis_Incr R key (ms * 1000000) r)) = clock r
        \<and> rv (snd (redis_Incr R key (ms * 1000000) r)) = (rv r)(key \<mapsto> (h + 1, Some e))"
      by (intro redis_Incr_open [OF assms(1)])
    show ?thesis using red m M Some w assms(3,5) by (auto simp: tallied_def)
  qed
qed

record ex_redis =
  xr_now :: time
  xr_vals :: "string \<Rightarrow> (int \<times> time option) option"

text \<open>A concrete server that keeps the promises.\<close>

definition ex_server :: "ex_redis redis" where
  "ex_server = \<lparr>rd_INCR = (\<lambda>k r. case xr_vals r k of
       None \<Rightarrow> (1, r\<lparr>xr_vals := (xr_vals r)(k \<mapsto> (1, None))\<rparr>)
     | Some (n, e) \<Rightarrow> (n + 1, r\<lparr>xr_vals := (xr_vals r)(k \<mapsto> (n + 1, e))\<rparr>)),
     rd_PEXPIRE = (\<lambda>k ms r. r\<lparr>xr_vals := (xr_vals r)(k := map_option (\<lambda>(n, e). (n, Some (xr_now r + ms * 1000000))) (xr_vals r k))\<rparr>),
     rd_Run = (\<lambda>f r. (Inr (fst (f r)), snd (f r)))\<rparr>"

theorem redis_counter_agrees_witness:
  "fst (redis_Incr ex_server ''k'' (60000 * 1000000) \<lparr>xr_now = 5, xr_vals = Map.empty\<rparr>)
     = fst (mem_Incr ''k'' (60000 * 1000000) (mem_New 5))"
proof -
  have "redis_laws ex_server xr_now xr_vals" by (auto simp: redis_laws_def ex_server_def)
  from redis_counter_agrees [OF this, of "mem_New 5" "\<lparr>xr_now = 5, xr_vals = Map.empty\<rparr>" 60000 "''k''"]
  show ?thesis by simp
qed

end
