(* ===== verification/Cache.thy ===== *)
theory Cache
  imports GoNum "HOL-Library.AList"
begin

text \<open>
  cache/cache.go, cache/memory/memory.go and cache/redis/redis.go: the byte cache as a record of
  operations, the JSON helpers over any cache (the codec is a parameter), the in-memory cache
  with lazy expiry, and the Redis cache with its batched prefix deletion (the client's commands are
  parameters). The locale \<open>cache\<close> is the contract: a map from keys to values with an end.
\<close>

section \<open>The interface and the JSON helpers\<close>

record 's cache_ops =
  ca_Get :: "string \<Rightarrow> ('s, bytes option) call"
  ca_Set :: "string \<Rightarrow> bytes \<Rightarrow> duration \<Rightarrow> ('s, unit) call"
  ca_Delete :: "string \<Rightarrow> ('s, unit) call"

text \<open>
  \<open>GetJSON\<close> returns whether there was a value and the error, with the destination it leaves: the
  decoder is given the old destination.
\<close>

definition GetJSON ::
    "(bytes \<Rightarrow> 'v \<Rightarrow> gerr option \<times> 'v) \<Rightarrow> 's cache_ops \<Rightarrow> string \<Rightarrow> 'v \<Rightarrow> 's \<Rightarrow> (bool \<times> gerr option \<times> 'v) \<times> 's" where
  "GetJSON unmarshal C key dst s =
     (case ca_Get C key s of
        (Inl err, s) \<Rightarrow> ((False, Some err, dst), s)
      | (Inr None, s) \<Rightarrow> ((False, None, dst), s)
      | (Inr (Some b), s) \<Rightarrow> (case unmarshal b dst of (err, dst) \<Rightarrow> ((True, err, dst), s)))"

definition SetJSON ::
    "('v \<Rightarrow> gerr + bytes) \<Rightarrow> 's cache_ops \<Rightarrow> string \<Rightarrow> 'v \<Rightarrow> duration \<Rightarrow> ('s, unit) call" where
  "SetJSON marshal C key v ttl s =
     (case marshal v of
        Inl err \<Rightarrow> (Inl err, s)
      | Inr b \<Rightarrow> ca_Set C key b ttl s)"

section \<open>The in-memory cache\<close>

record centry =
  ce_val :: bytes
  ce_exp :: time

record mem_cache =
  mk_m :: "(string \<times> centry) list"
  mk_now :: time

definition mcache_New :: "time \<Rightarrow> mem_cache" where
  "mcache_New now = \<lparr>mk_m = [], mk_now = now\<rparr>"

definition mcache_Get :: "string \<Rightarrow> (mem_cache, bytes option) call" where
  "mcache_Get key c =
     (case map_of (mk_m c) key of
        None \<Rightarrow> (Inr None, c)
      | Some e \<Rightarrow>
          if \<not> IsZero (ce_exp e) \<and> mk_now c > ce_exp e
          then (Inr None, c\<lparr>mk_m := AList.delete key (mk_m c)\<rparr>)
          else (Inr (Some (ce_val e)), c))"

definition mcache_Set :: "string \<Rightarrow> bytes \<Rightarrow> duration \<Rightarrow> (mem_cache, unit) call" where
  "mcache_Set key val ttl c =
     (let e = \<lparr>ce_val = val, ce_exp = (if ttl > 0 then mk_now c + ttl else 0)\<rparr>
      in (Inr (), c\<lparr>mk_m := AList.update key e (mk_m c)\<rparr>))"

definition mcache_Delete :: "string \<Rightarrow> (mem_cache, unit) call" where
  "mcache_Delete key c = (Inr (), c\<lparr>mk_m := AList.delete key (mk_m c)\<rparr>)"

definition mcache_DeletePrefix :: "string \<Rightarrow> (mem_cache, unit) call" where
  "mcache_DeletePrefix p c = (Inr (), c\<lparr>mk_m := filter (\<lambda>(k, e). \<not> HasPrefix k p) (mk_m c)\<rparr>)"

definition MemCache :: "mem_cache cache_ops" where
  "MemCache = \<lparr>ca_Get = mcache_Get, ca_Set = mcache_Set, ca_Delete = mcache_Delete\<rparr>"

section \<open>The Redis cache\<close>

text \<open>
  The client's commands; a missing key is the client's own error \<open>cl_Nil\<close>. The scan is the
  sequence of keys its iterator yields during the call, and the error it ends with.
\<close>

record 'r redis_client =
  cl_Nil :: gerr
  cl_Get :: "string \<Rightarrow> ('r, bytes) call"
  cl_Set :: "string \<Rightarrow> bytes \<Rightarrow> duration \<Rightarrow> ('r, unit) call"
  cl_Del :: "string list \<Rightarrow> ('r, unit) call"

definition rcache_Get :: "'r redis_client \<Rightarrow> string \<Rightarrow> ('r, bytes option) call" where
  "rcache_Get R key r =
     (case cl_Get R key r of
        (Inl err, r) \<Rightarrow> if errors_Is err (cl_Nil R) then (Inr None, r) else (Inl err, r)
      | (Inr b, r) \<Rightarrow> (Inr (Some b), r))"

definition rcache_Set :: "'r redis_client \<Rightarrow> string \<Rightarrow> bytes \<Rightarrow> duration \<Rightarrow> ('r, unit) call" where
  "rcache_Set R = cl_Set R"

definition rcache_Delete :: "'r redis_client \<Rightarrow> string \<Rightarrow> ('r, unit) call" where
  "rcache_Delete R key = cl_Del R [key]"

definition flush :: "'r redis_client \<Rightarrow> string list \<Rightarrow> ('r, unit) call" where
  "flush R batch r = (if batch = [] then (Inr (), r) else cl_Del R batch r)"

fun scan_loop :: "'r redis_client \<Rightarrow> string list \<Rightarrow> gerr option \<Rightarrow> string list \<Rightarrow> ('r, unit) call" where
  "scan_loop R [] iter_err batch r =
     (case iter_err of Some err \<Rightarrow> (Inl err, r) | None \<Rightarrow> flush R batch r)"
| "scan_loop R (key # keys) iter_err batch r =
     (let batch = batch @ [key]
      in if length batch \<ge> 256
         then (case flush R batch r of
                 (Inl err, r) \<Rightarrow> (Inl err, r)
               | (Inr _, r) \<Rightarrow> scan_loop R keys iter_err [] r)
         else scan_loop R keys iter_err batch r)"

definition rcache_DeletePrefix ::
    "'r redis_client \<Rightarrow> (string \<Rightarrow> string list \<times> gerr option) \<Rightarrow> string \<Rightarrow> ('r, unit) call" where
  "rcache_DeletePrefix R scan p r =
     (case scan (p @ ''*'') of (keys, iter_err) \<Rightarrow> scan_loop R keys iter_err [] r)"

section \<open>The contract of a cache\<close>

text \<open>
  \<open>view s k\<close> is the live value of a key with its end (\<open>None\<close>: it has none); \<open>later t s\<close> is the
  state when the clock has moved on to \<open>t\<close>.
\<close>

definition until :: "time \<Rightarrow> duration \<Rightarrow> time option" where
  "until now ttl = (if 0 < ttl then Some (now + ttl) else None)"

definition still_live :: "time \<Rightarrow> (bytes \<times> time option) option \<Rightarrow> (bytes \<times> time option) option" where
  "still_live t w = (case w of None \<Rightarrow> None | Some (v, e) \<Rightarrow>
     (case e of None \<Rightarrow> Some (v, e) | Some x \<Rightarrow> if t > x then None else Some (v, e)))"

locale cache =
  fixes C :: "'s cache_ops"
    and view :: "'s \<Rightarrow> string \<Rightarrow> (bytes \<times> time option) option"
    and clock :: "'s \<Rightarrow> time"
    and later :: "time \<Rightarrow> 's \<Rightarrow> 's"
    and inv :: "'s \<Rightarrow> bool"
  assumes Get_ok: "inv s \<Longrightarrow> ca_Get C k s = (r, s') \<Longrightarrow>
      inv s' \<and> clock s' = clock s \<and> view s' = view s \<and> r = Inr (map_option fst (view s k))"
    and Set_ok: "inv s \<Longrightarrow> 0 < clock s \<Longrightarrow> ca_Set C k v ttl s = (q, s') \<Longrightarrow>
      inv s' \<and> clock s' = clock s \<and> q = Inr () \<and> view s' = (view s)(k \<mapsto> (v, until (clock s) ttl))"
    and Delete_ok: "inv s \<Longrightarrow> ca_Delete C k s = (q, s') \<Longrightarrow>
      inv s' \<and> clock s' = clock s \<and> q = Inr () \<and> view s' = (view s)(k := None)"
    and later_ok: "inv s \<Longrightarrow> clock s \<le> t \<Longrightarrow>
      inv (later t s) \<and> clock (later t s) = t \<and> view (later t s) k = still_live t (view s k)"
begin

lemma Get_after_Set:
  assumes "inv s" "0 < clock s" "clock s \<le> t" "0 < ttl \<longrightarrow> t \<le> clock s + ttl"
  shows "fst (ca_Get C k (later t (snd (ca_Set C k v ttl s)))) = Inr (Some v)"
proof -
  obtain q s1 where s: "ca_Set C k v ttl s = (q, s1)" by fastforce
  note S = Set_ok [OF assms(1,2) s]
  then have "view (later t s1) k = Some (v, until (clock s) ttl)"
    using later_ok [of s1 t k] assms(3,4) by (auto simp: still_live_def until_def)
  moreover have "inv (later t s1)" using S later_ok [of s1 t k] assms(3) by simp
  ultimately show ?thesis using Get_ok [of "later t s1" k] s by (cases "ca_Get C k (later t s1)") auto
qed

lemma JSON_roundtrip:
  assumes "inv s" "0 < clock s" "clock s \<le> t" "0 < ttl \<longrightarrow> t \<le> clock s + ttl"
    and "marshal v = Inr b" and "unmarshal b dst = (None, v)"
  shows "fst (GetJSON unmarshal C k dst (later t (snd (SetJSON marshal C k v ttl s)))) = (True, None, v)"
proof -
  from Get_after_Set [OF assms(1-4), of k b] show ?thesis
    by (cases "ca_Get C k (later t (snd (ca_Set C k b ttl s)))")
      (auto simp: GetJSON_def SetJSON_def assms(5,6))
qed

end

section \<open>The in-memory cache keeps the contract\<close>

definition mcache_view :: "mem_cache \<Rightarrow> string \<Rightarrow> (bytes \<times> time option) option" where
  "mcache_view c k =
     (case map_of (mk_m c) k of
        None \<Rightarrow> None
      | Some e \<Rightarrow> still_live (mk_now c) (Some (ce_val e, if IsZero (ce_exp e) then None else Some (ce_exp e))))"

definition mcache_later :: "time \<Rightarrow> mem_cache \<Rightarrow> mem_cache" where
  "mcache_later t c = c\<lparr>mk_now := t\<rparr>"

definition mcache_inv :: "mem_cache \<Rightarrow> bool" where
  "mcache_inv c \<longleftrightarrow> distinct (map fst (mk_m c))"

lemma mcache_view_delete:
  "mcache_view (c\<lparr>mk_m := AList.delete k (mk_m c)\<rparr>) = (mcache_view c)(k := None)"
  by (rule ext) (simp add: mcache_view_def delete_conv' cong: option.case_cong)

lemma mcache_Get_result:
  "mcache_Get k c = (r, c') \<Longrightarrow> (c' = c \<or> c' = c\<lparr>mk_m := AList.delete k (mk_m c)\<rparr> \<and> mcache_view c k = None)
     \<and> r = Inr (map_option fst (mcache_view c k))"
  by (auto simp: mcache_Get_def mcache_view_def still_live_def split: option.splits if_splits)

lemma mcache_Set_view:
  "0 < mk_now c \<Longrightarrow> mcache_view (snd (mcache_Set k v ttl c)) = (mcache_view c)(k \<mapsto> (v, until (mk_now c) ttl))"
  by (rule ext) (simp add: mcache_Set_def Let_def mcache_view_def update_conv' still_live_def until_def IsZero_def
      cong: option.case_cong)

interpretation mcache: cache MemCache mcache_view mk_now mcache_later mcache_inv
proof (unfold_locales, goal_cases)
  case (1 s k r s')
  then have "mcache_Get k s = (r, s')" by (simp add: MemCache_def)
  from mcache_Get_result [OF this] 1(1) show ?case
    by (auto simp: mcache_view_delete mcache_inv_def distinct_delete fun_upd_idem)
next
  case (2 s k v ttl q s')
  then show ?case using mcache_Set_view [of s k v ttl]
    by (auto simp: MemCache_def mcache_Set_def Let_def mcache_inv_def distinct_update)
next
  case (3 s k q s')
  then show ?case
    by (auto simp: MemCache_def mcache_Delete_def mcache_view_delete mcache_inv_def distinct_delete)
next
  case (4 s t k)
  then show ?case
    by (simp add: mcache_later_def mcache_view_def mcache_inv_def still_live_def IsZero_def split: option.split)
qed

lemma mcache_New_simps [simp]:
  "mcache_inv (mcache_New t)" "mcache_view (mcache_New t) k = None" "mk_now (mcache_New t) = t"
  by (simp_all add: mcache_New_def mcache_inv_def mcache_view_def)

section \<open>Batched deletion\<close>

fun del_all :: "'r redis_client \<Rightarrow> string list list \<Rightarrow> ('r, unit) call" where
  "del_all R [] r = (Inr (), r)"
| "del_all R (b # bs) r =
     (case cl_Del R b r of (Inl err, r) \<Rightarrow> (Inl err, r) | (Inr _, r) \<Rightarrow> del_all R bs r)"

lemma scan_loop_batches:
  "length batch < 256 \<Longrightarrow> \<exists>bs rest. concat bs @ rest = batch @ keys \<and> (\<forall>b\<in>set bs. length b = 256) \<and> length rest < 256
     \<and> (\<forall>r. scan_loop R keys iter_err batch r =
         (case del_all R bs r of
            (Inl err, r) \<Rightarrow> (Inl err, r)
          | (Inr _, r) \<Rightarrow> (case iter_err of Some err \<Rightarrow> (Inl err, r) | None \<Rightarrow> flush R rest r)))"
proof (induction keys arbitrary: batch)
  case Nil
  then show ?case by (intro exI [of _ "[]"] exI [of _ batch]) simp
next
  case (Cons key keys)
  show ?case
  proof (cases "length (batch @ [key]) \<ge> 256")
    case False
    then have "length (batch @ [key]) < 256" by simp
    from Cons.IH [OF this] False show ?thesis by (simp add: Let_def)
  next
    case True
    with Cons.prems have len: "length (batch @ [key]) = 256" by simp
    obtain bs rest where IH: "concat bs @ rest = keys" "\<forall>b\<in>set bs. length b = 256" "length rest < 256"
      "\<And>r. scan_loop R keys iter_err [] r =
         (case del_all R bs r of
            (Inl err, r) \<Rightarrow> (Inl err, r)
          | (Inr _, r) \<Rightarrow> (case iter_err of Some err \<Rightarrow> (Inl err, r) | None \<Rightarrow> flush R rest r))"
      using Cons.IH [of "[]"] by auto
    have "scan_loop R (key # keys) iter_err batch r =
        (case del_all R ((batch @ [key]) # bs) r of
            (Inl err, r) \<Rightarrow> (Inl err, r)
          | (Inr _, r) \<Rightarrow> (case iter_err of Some err \<Rightarrow> (Inl err, r) | None \<Rightarrow> flush R rest r))" for r
      using True IH(4) by (simp add: Let_def flush_def split: sum.split prod.split)
    with IH len show ?thesis
      by (intro exI [of _ "(batch @ [key]) # bs"] exI [of _ rest]) simp
  qed
qed

section \<open>Properties\<close>

text \<open>
  C22. The in-memory cache is a map with expiry: from any state with distinct keys, \<open>Get\<close> returns the
  live value and changes nothing a caller can see, \<open>Set\<close> makes the value live until exactly the
  TTL (for ever when the TTL is not positive), \<open>Delete\<close> and \<open>DeletePrefix\<close> remove the key and all
  keys with the prefix and no other, and each of them keeps the keys distinct.
\<close>

theorem mem_cache_is_timed_map:
  assumes "mcache_inv c" and "0 < mk_now c"
  shows "fst (mcache_Get k c) = Inr (map_option fst (mcache_view c k)) \<and> mcache_view (snd (mcache_Get k c)) = mcache_view c
    \<and> mcache_view (snd (mcache_Set k v ttl c)) = (mcache_view c)(k \<mapsto> (v, if 0 < ttl then Some (mk_now c + ttl) else None))
    \<and> mcache_view (snd (mcache_Delete k c)) = (mcache_view c)(k := None)
    \<and> mcache_view (snd (mcache_DeletePrefix p c)) = (\<lambda>j. if prefix p j then None else mcache_view c j)
    \<and> mcache_inv (snd (mcache_Get k c)) \<and> mcache_inv (snd (mcache_Set k v ttl c))
    \<and> mcache_inv (snd (mcache_Delete k c)) \<and> mcache_inv (snd (mcache_DeletePrefix p c))"
proof -
  obtain r c' where g: "mcache_Get k c = (r, c')" by fastforce
  obtain q c2 where st: "mcache_Set k v ttl c = (q, c2)" by fastforce
  have "map_of (filter (\<lambda>(k, e). \<not> prefix p k) m) j = (if prefix p j then None else map_of m j)" for m :: "(string \<times> centry) list" and j
    by (induction m) auto
  then have dp: "mcache_view (snd (mcache_DeletePrefix p c)) = (\<lambda>j. if prefix p j then None else mcache_view c j)"
    by (auto simp: mcache_DeletePrefix_def HasPrefix_def mcache_view_def fun_eq_iff cong: option.case_cong)
  have "mcache_inv (snd (mcache_DeletePrefix p c))"
    using assms(1) by (auto simp: mcache_DeletePrefix_def mcache_inv_def distinct_map inj_on_subset)
  with dp mcache.Get_ok [of c k r c'] mcache.Set_ok [of c k v ttl q c2] g st assms
  show ?thesis
    by (simp add: MemCache_def until_def mcache_Delete_def mcache_view_delete mcache_inv_def distinct_delete)
qed

theorem mem_cache_is_timed_map_witness:
  "fst (mcache_Get ''k'' (snd (mcache_Set ''k'' ''v'' 5 (mcache_New 10)))) = Inr (Some ''v'')"
proof -
  have inv: "mcache_inv (snd (mcache_Set ''k'' ''v'' 5 (mcache_New 10)))" "0 < mk_now (snd (mcache_Set ''k'' ''v'' 5 (mcache_New 10)))"
    by (simp_all add: mcache_Set_def mcache_New_def mcache_inv_def)
  from mem_cache_is_timed_map [OF inv, of "''k''"] mem_cache_is_timed_map [of "mcache_New 10" "''k''" "''v''" 5]
  show ?thesis by (simp add: mcache_view_def mcache_Set_def mcache_New_def still_live_def IsZero_def)
qed

text \<open>
  JSON values go through the cache unchanged until they expire: what \<open>SetJSON\<close> stored in the
  in-memory cache, \<open>GetJSON\<close> decodes at any time up to the end of the TTL, and from then on it
  reports a miss without an error and leaves the destination as it was.
\<close>

theorem json_cached_until_expiry:
  assumes "mcache_inv c" and "0 < mk_now c" and "mk_now c \<le> t" and "0 < ttl"
    and "marshal v = Inr b" and "unmarshal b dst = (None, v)"
  shows "fst (GetJSON unmarshal MemCache k dst (mcache_later t (snd (SetJSON marshal MemCache k v ttl c))))
    = (if t \<le> mk_now c + ttl then (True, None, v) else (False, None, dst))"
proof (cases "t \<le> mk_now c + ttl")
  case True
  with mcache.JSON_roundtrip [OF assms(1-3), of ttl marshal v b unmarshal dst k] assms(5,6) show ?thesis by simp
next
  case False
  then show ?thesis using assms(2,4,5)
    by (simp add: GetJSON_def SetJSON_def MemCache_def mcache_Get_def mcache_Set_def mcache_later_def Let_def
        update_conv' IsZero_def)
qed

theorem json_cached_until_expiry_witness:
  "fst (GetJSON (\<lambda>b d. (None, b)) MemCache ''k'' ''old''
     (mcache_later 12 (snd (SetJSON Inr MemCache ''k'' ''new'' 5 (mcache_New 10))))) = (True, None, ''new'')"
  using json_cached_until_expiry [of "mcache_New 10" 12 5 Inr "''new''" "''new''" "\<lambda>b d. (None, b)" "''old''" "''k''"]
  by simp

text \<open>
  C40. The Redis prefix deletion deletes what the scan yields, in order and in calls of 256 keys: the
  yielded keys split into full batches and a rest of fewer than 256; the batches are deleted one
  after another until one fails, whose error is returned; then an error of the scan is returned,
  or the rest is deleted (with no call when it is empty).
\<close>

theorem redis_delete_prefix_batches:
  shows "\<exists>bs rest. concat bs @ rest = fst (scan (p @ ''*'')) \<and> list_all (\<lambda>b. length b = 256) bs \<and> length rest < 256
    \<and> rcache_DeletePrefix R scan p r =
        (case del_all R bs r of
           (Inl err, r) \<Rightarrow> (Inl err, r)
         | (Inr _, r) \<Rightarrow> (case snd (scan (p @ ''*'')) of
              Some err \<Rightarrow> (Inl err, r)
            | None \<Rightarrow> if rest = [] then (Inr (), r) else cl_Del R rest r))"
proof -
  obtain keys e where sc: "scan (p @ ''*'') = (keys, e)" by fastforce
  obtain bs rest where "concat bs @ rest = keys" "\<forall>b\<in>set bs. length b = 256" "length rest < 256"
    "\<forall>r. scan_loop R keys e [] r = (case del_all R bs r of (Inl err, r) \<Rightarrow> (Inl err, r)
      | (Inr _, r) \<Rightarrow> (case e of Some err \<Rightarrow> (Inl err, r) | None \<Rightarrow> flush R rest r))"
    using scan_loop_batches [of "[]" keys R e] by auto
  with sc show ?thesis
    by (intro exI [of _ bs] exI [of _ rest])
      (simp add: rcache_DeletePrefix_def flush_def list_all_iff split: sum.split prod.split option.split)
qed

end
