(* ===== verification/GoText.thy ===== *)
theory GoText
  imports GoNum
begin

text \<open>
  Text produced by Go's standard library for the sitemap files: the escaping of \<open>encoding/xml\<close>
  (with the UTF-8 decoding it rests on), the indented rendering of a list of flat elements, and the
  layout of a UTC instant; and a reader of \<open>loc\<close> elements to state what a crawler gets back.
\<close>

section \<open>UTF-8\<close>

definition byte_in :: "nat \<Rightarrow> nat \<Rightarrow> char \<Rightarrow> bool" where
  "byte_in lo hi c \<longleftrightarrow> lo \<le> of_char c \<and> of_char c \<le> hi"

abbreviation (input) "cont \<equiv> byte_in 128 191"

text \<open>The width of the valid encoding at the head of the bytes, or \<open>None\<close>.\<close>

fun utf8_width :: "string \<Rightarrow> nat option" where
  "utf8_width [] = None"
| "utf8_width (a # s) =
     (if byte_in 0 127 a then Some 1
      else case s of
        [] \<Rightarrow> None
      | b # s \<Rightarrow>
          if byte_in 194 223 a \<and> cont b then Some 2
          else case s of
            [] \<Rightarrow> None
          | c # s \<Rightarrow>
              if (byte_in 224 224 a \<and> byte_in 160 191 b \<or> (byte_in 225 236 a \<or> byte_in 238 239 a) \<and> cont b
                  \<or> byte_in 237 237 a \<and> byte_in 128 159 b) \<and> cont c then Some 3
              else case s of
                [] \<Rightarrow> None
              | d # _ \<Rightarrow>
                  if (byte_in 240 240 a \<and> byte_in 144 191 b \<or> byte_in 241 243 a \<and> cont b
                      \<or> byte_in 244 244 a \<and> byte_in 128 143 b) \<and> cont c \<and> cont d then Some 4
                  else None)"

section \<open>Escaping\<close>

definition replacement :: string where
  "replacement = [CHR 0xEF, CHR 0xBF, CHR 0xBD]"

definition xml_special :: "char \<Rightarrow> string option" where
  "xml_special c =
     (if c = CHR 0x22 then Some ''&#34;''
      else if c = CHR 0x27 then Some ''&#39;''
      else if c = CHR ''&'' then Some ''&amp;''
      else if c = CHR ''<'' then Some ''&lt;''
      else if c = CHR ''>'' then Some ''&gt;''
      else if c = CHR 0x09 then Some ''&#x9;''
      else if c = CHR 0x0A then Some ''&#xA;''
      else if c = CHR 0x0D then Some ''&#xD;''
      else None)"

text \<open>The characters XML does not allow: control characters and the two noncharacters of the BMP.\<close>

definition xml_forbidden :: "string \<Rightarrow> bool" where
  "xml_forbidden r \<longleftrightarrow> byte_in 0 31 (hd r) \<or> r = [CHR 0xEF, CHR 0xBF, CHR 0xBE] \<or> r = [CHR 0xEF, CHR 0xBF, CHR 0xBF]"

function xml_escape :: "string \<Rightarrow> string" where
  "xml_escape s =
     (if s = [] then []
      else case utf8_width s of
        None \<Rightarrow> replacement @ xml_escape (tl s)
      | Some n \<Rightarrow>
          (case xml_special (hd s) of
             Some e \<Rightarrow> e @ xml_escape (tl s)
           | None \<Rightarrow> (if xml_forbidden (take n s) then replacement else take n s) @ xml_escape (drop (max 1 n) s)))"
  by pat_completeness auto
termination by (relation "measure length") (auto simp: less_diff_conv)

declare xml_escape.simps [simp del]

text \<open>ASCII text without control characters.\<close>

definition plain_text :: "string \<Rightarrow> bool" where
  "plain_text s \<longleftrightarrow> (\<forall>c\<in>set s. byte_in 32 126 c)"

definition esc_char :: "char \<Rightarrow> string" where
  "esc_char c = (case xml_special c of Some e \<Rightarrow> e | None \<Rightarrow> [c])"

lemma xml_escape_plain: "plain_text s \<Longrightarrow> xml_escape s = concat (map esc_char s)"
proof (induction s)
  case Nil
  then show ?case by (simp add: xml_escape.simps)
next
  case (Cons c s)
  then have c: "byte_in 32 126 c" and s: "xml_escape s = concat (map esc_char s)" by (auto simp: plain_text_def)
  then have "utf8_width (c # s) = Some 1" "\<not> xml_forbidden [c]"
    by (auto simp: byte_in_def xml_forbidden_def)
  then show ?case by (subst xml_escape.simps) (simp add: s esc_char_def split: option.split)
qed

lemma utf8_width_high: "utf8_width (a # s) = Some n \<Longrightarrow> \<not> byte_in 0 127 a \<Longrightarrow>
    \<forall>c\<in>set (take n (a # s)). \<not> byte_in 0 127 c"
proof (cases s)
  case b: (Cons b s1)
  assume w: "utf8_width (a # s) = Some n" and a: "\<not> byte_in 0 127 a"
  show ?thesis
  proof (cases "n \<le> 1")
    case True
    with a show ?thesis by (cases n) auto
  next
    case False
    have cont: "byte_in lo hi c \<Longrightarrow> 128 \<le> lo \<Longrightarrow> \<not> byte_in 0 127 c" for lo hi c by (simp add: byte_in_def)
    consider "n = 2" "cont b" | c s2 where "n = 3" "s1 = c # s2" "\<not> byte_in 0 127 b" "cont c"
      | c d s3 where "n = 4" "s1 = c # d # s3" "\<not> byte_in 0 127 b" "cont c" "cont d"
      using w a b by (auto split: list.splits if_splits dest: cont)
    then show ?thesis using a b by cases (auto dest: cont)
  qed
qed simp

declare utf8_width.simps [simp del]

lemma utf8_width_ascii: "byte_in 0 127 a \<Longrightarrow> utf8_width (a # s) = Some 1"
  by (simp add: utf8_width.simps)

lemma xml_escape_no_lt: "CHR ''<'' \<notin> set (xml_escape s)"
proof (induction s rule: xml_escape.induct)
  case (1 s)
  show ?case
  proof (cases s)
    case Nil
    then show ?thesis by (simp add: xml_escape.simps)
  next
    case (Cons a s')
    have sp: "xml_special a = Some e \<Longrightarrow> CHR ''<'' \<notin> set e" for e
      by (auto simp: xml_special_def split: if_splits)
    show ?thesis
    proof (cases "utf8_width s")
      case None
      with 1(1) Cons show ?thesis by (subst xml_escape.simps) (simp add: replacement_def)
    next
      case (Some n)
      show ?thesis
      proof (cases "xml_special a")
        case (Some e)
        then have "CHR ''<'' \<notin> set (xml_escape (tl s))"
          using 1(3) [OF _ \<open>utf8_width s = Some n\<close>] Cons by simp
        with Some Cons \<open>utf8_width s = Some n\<close> sp show ?thesis by (subst xml_escape.simps) simp
      next
        case None
        then have a: "a \<noteq> CHR ''<''" by (auto simp: xml_special_def)
        have "CHR ''<'' \<notin> set (take n s)"
        proof (cases "byte_in 0 127 a")
          case True
          with Some Cons a utf8_width_ascii [OF True, of s'] show ?thesis by auto
        next
          case False
          with utf8_width_high [of a s' n] Some Cons show ?thesis by (auto simp: byte_in_def)
        qed
        moreover have "CHR ''<'' \<notin> set (xml_escape (drop (max 1 n) s))"
          using 1(2) [OF _ Some] Cons None by simp
        ultimately show ?thesis using Cons Some None
          by (subst xml_escape.simps) (simp add: replacement_def)
      qed
    qed
  qed
qed

section \<open>Reading escaped text back\<close>

fun xml_unescape :: "string \<Rightarrow> string" where
  "xml_unescape [] = []"
| "xml_unescape (c # s) =
     (if c \<noteq> CHR ''&'' then c # xml_unescape s
      else if prefix ''#34;'' s then CHR 0x22 # xml_unescape (drop 4 s)
      else if prefix ''#39;'' s then CHR 0x27 # xml_unescape (drop 4 s)
      else if prefix ''amp;'' s then CHR ''&'' # xml_unescape (drop 4 s)
      else if prefix ''lt;'' s then CHR ''<'' # xml_unescape (drop 3 s)
      else if prefix ''gt;'' s then CHR ''>'' # xml_unescape (drop 3 s)
      else if prefix ''#x9;'' s then CHR 0x09 # xml_unescape (drop 4 s)
      else if prefix ''#xA;'' s then CHR 0x0A # xml_unescape (drop 4 s)
      else if prefix ''#xD;'' s then CHR 0x0D # xml_unescape (drop 4 s)
      else c # xml_unescape s)"

lemma unescape_char: "xml_unescape (esc_char c @ s) = c # xml_unescape s"
  by (simp add: esc_char_def xml_special_def)

lemma unescape_escape: "plain_text s \<Longrightarrow> xml_unescape (xml_escape s) = s"
proof -
  have "xml_unescape (concat (map esc_char s)) = s" for s
    by (induction s) (simp_all add: unescape_char)
  then show "plain_text s \<Longrightarrow> xml_unescape (xml_escape s) = s" by (simp add: xml_escape_plain)
qed

text \<open>The contents of the \<open>loc\<close> elements, in order.\<close>

function read_locs :: "string \<Rightarrow> string list" where
  "read_locs s =
     (if s = [] then []
      else if prefix ''<loc>'' s
      then xml_unescape (takeWhile (\<lambda>c. c \<noteq> CHR ''<'') (drop 5 s))
             # read_locs (dropWhile (\<lambda>c. c \<noteq> CHR ''<'') (drop 5 s))
      else read_locs (tl s))"
  by pat_completeness auto
termination
proof (relation "measure length")
  fix s :: string
  assume "prefix ''<loc>'' s"
  moreover have "length (dropWhile (\<lambda>c. c \<noteq> CHR ''<'') (drop 5 s)) \<le> length (drop 5 s)"
    by (rule length_dropWhile_le)
  ultimately show "(dropWhile (\<lambda>c. c \<noteq> CHR ''<'') (drop 5 s), s) \<in> measure length"
    by (auto simp: prefix_def)
qed auto

declare read_locs.simps [simp del]

lemma read_locs_Nil [simp]: "read_locs [] = []"
  by (simp add: read_locs.simps)

lemma read_locs_text: "CHR ''<'' \<notin> set t \<Longrightarrow> read_locs (t @ s) = read_locs s"
proof (induction t)
  case (Cons c t)
  then have "read_locs (c # t @ s) = read_locs (t @ s)"
    by (subst read_locs.simps) (auto simp: prefix_def)
  with Cons show ?case by simp
qed simp

lemma read_locs_tag:
  "CHR ''<'' \<notin> set t \<Longrightarrow> \<not> prefix ''loc>'' (t @ s) \<Longrightarrow> read_locs (CHR ''<'' # t @ s) = read_locs s"
  by (subst read_locs.simps) (simp add: read_locs_text)

lemma read_locs_loc:
  "CHR ''<'' \<notin> set t \<Longrightarrow> read_locs (''<loc>'' @ t @ CHR ''<'' # s) = xml_unescape t # read_locs (CHR ''<'' # s)"
proof -
  assume t: "CHR ''<'' \<notin> set t"
  have "takeWhile (\<lambda>c. c \<noteq> CHR ''<'') (t @ CHR ''<'' # s) = t"
    using t by (subst takeWhile_append2) auto
  moreover have "dropWhile (\<lambda>c. c \<noteq> CHR ''<'') (t @ CHR ''<'' # s) = CHR ''<'' # s"
    using t by (subst dropWhile_append2) auto
  ultimately show ?thesis by (subst read_locs.simps) simp
qed

section \<open>The indented documents\<close>

text \<open>
  \<open>MarshalIndent\<close> with two spaces of a root element holding items of a \<open>loc\<close> and an optional
  \<open>lastmod\<close>, after the XML header.
\<close>

definition newline :: string where
  "newline = [CHR 0x0A]"

definition quote :: string where
  "quote = [CHR 0x22]"

definition xml_Header :: string where
  "xml_Header = ''<?xml version='' @ quote @ ''1.0'' @ quote @ '' encoding='' @ quote @ ''UTF-8'' @ quote @ ''?>'' @ newline"

definition xml_item :: "string \<Rightarrow> string \<times> string \<Rightarrow> string" where
  "xml_item tag e = (case e of (l, lastmod) \<Rightarrow>
     newline @ ''  <'' @ tag @ ''>'' @ newline @ ''    <loc>'' @ xml_escape l @ ''</loc>''
     @ (if lastmod = [] then [] else newline @ ''    <lastmod>'' @ xml_escape lastmod @ ''</lastmod>'')
     @ newline @ ''  </'' @ tag @ ''>'')"

definition xml_doc :: "string \<Rightarrow> string \<Rightarrow> string \<Rightarrow> (string \<times> string) list \<Rightarrow> string" where
  "xml_doc rt xmlns tag es =
     xml_Header @ ''<'' @ rt @ '' xmlns='' @ quote @ xml_escape xmlns @ quote @ ''>''
     @ concat (map (xml_item tag) es)
     @ (if es = [] then [] else newline) @ ''</'' @ rt @ ''>''"

lemma read_locs_item:
  assumes "plain_text l" and "CHR ''<'' \<notin> set tag" and "hd tag \<noteq> CHR ''l''" and "tag \<noteq> []"
  shows "read_locs (xml_item tag (l, lastmod) @ s) = l # read_locs s"
proof -
  have nl [simp]: "CHR ''<'' \<notin> set newline" by (simp add: newline_def)
  have tag: "\<not> prefix ''loc>'' (tag @ t)" for t
    using assms(3,4) by (cases tag) (auto simp: prefix_Cons)
  have opening_tag: "read_locs (newline @ ''  <'' @ tag @ ''>'' @ newline @ ''    '' @ t) = read_locs t" for t
    using read_locs_text [of "newline @ ''  ''" "''<'' @ tag @ ''>'' @ newline @ ''    '' @ t"]
      read_locs_tag [of "tag @ ''>'' @ newline @ ''    ''" t] assms(2) tag by simp
  have closing_tag: "read_locs (newline @ ''  </'' @ tag @ ''>'' @ t) = read_locs t" for t
    using read_locs_text [of "newline @ ''  ''" "''</'' @ tag @ ''>'' @ t"]
      read_locs_tag [of "''/'' @ tag @ ''>''" t] assms(2) by simp
  have mod: "read_locs (newline @ ''    <lastmod>'' @ xml_escape m @ ''</lastmod>'' @ t) = read_locs t" for m t
    using read_locs_text [of "newline @ ''    ''" "''<lastmod>'' @ xml_escape m @ ''</lastmod>'' @ t"]
      read_locs_tag [of "''lastmod>'' @ xml_escape m" "''</lastmod>'' @ t"]
      read_locs_tag [of "''/lastmod>''" t] xml_escape_no_lt [of m] by simp
  have loc: "read_locs (''<loc>'' @ xml_escape l @ ''</loc>'' @ t) = l # read_locs t" for t
    using read_locs_loc [OF xml_escape_no_lt [of l], of "''/loc>'' @ t"] read_locs_tag [of "''/loc>''" t]
      unescape_escape [OF assms(1)] by simp
  show ?thesis
    using opening_tag [of "''<loc>'' @ xml_escape l @ ''</loc>''
      @ (if lastmod = [] then [] else newline @ ''    <lastmod>'' @ xml_escape lastmod @ ''</lastmod>'')
      @ newline @ ''  </'' @ tag @ ''>'' @ s"] loc mod closing_tag [of s]
    by (cases "lastmod = []") (simp_all add: xml_item_def)
qed

lemma read_locs_doc:
  assumes "\<forall>e\<in>set es. plain_text (fst e)" and "CHR ''<'' \<notin> set tag" "hd tag \<noteq> CHR ''l''" "tag \<noteq> []"
    and "CHR ''<'' \<notin> set rt" "hd rt \<noteq> CHR ''l''" "rt \<noteq> []"
  shows "read_locs (xml_doc rt xmlns tag es) = map fst es"
proof -
  have nl [simp]: "CHR ''<'' \<notin> set newline" "CHR ''<'' \<notin> set quote" by (simp_all add: newline_def quote_def)
  have items: "read_locs (concat (map (xml_item tag) es) @ t) = map fst es @ read_locs t" for t
    using assms(1)
  proof (induction es)
    case (Cons e es)
    then show ?case using read_locs_item [OF _ assms(2-4), of "fst e" "snd e"] by simp
  qed simp
  have rt: "\<not> prefix ''loc>'' (rt @ t)" for t
    using assms(6,7) by (cases rt) (auto simp: prefix_Cons)
  have closing_tag: "read_locs ((if es = [] then [] else newline) @ ''</'' @ rt @ ''>'') = []"
    using read_locs_text [of newline "''</'' @ rt @ ''>''"] read_locs_tag [of "''/'' @ rt @ ''>''" "[]"] assms(5) by simp
  have opening_tag: "read_locs (''<'' @ rt @ '' xmlns='' @ quote @ xml_escape xmlns @ quote @ ''>'' @ t) = read_locs t" for t
    using read_locs_tag [of "rt @ '' xmlns='' @ quote @ xml_escape xmlns @ quote @ ''>''" t] assms(5) rt
      xml_escape_no_lt [of xmlns] by simp
  have header_tag: "read_locs (xml_Header @ t) = read_locs t" for t
    using read_locs_tag [of "''?xml version='' @ quote @ ''1.0'' @ quote @ '' encoding='' @ quote @ ''UTF-8'' @ quote @ ''?>'' @ newline" t]
    by (simp add: xml_Header_def)
  show ?thesis
    using header_tag opening_tag items closing_tag by (simp add: xml_doc_def del: append_Cons)
qed

section \<open>The layout of a UTC instant\<close>

definition pad :: "nat \<Rightarrow> nat \<Rightarrow> string" where
  "pad w n = replicate (w - length (utoa n)) (CHR ''0'') @ utoa n"

text \<open>Year, month and day of the \<open>d\<close>-th day after January 1 of year 1, counting years from March.\<close>

definition civil :: "int \<Rightarrow> int \<times> int \<times> int" where
  "civil d =
     (let z = d + 306; era = z div 146097; doe = z mod 146097;
          yoe = (doe - doe div 1460 + doe div 36524 - doe div 146096) div 365;
          doy = doe - (365 * yoe + yoe div 4 - yoe div 100);
          mp = (5 * doy + 2) div 153; day = doy - (153 * mp + 2) div 5 + 1;
          month = (if mp < 10 then mp + 3 else mp - 9);
          year = yoe + era * 400 + (if month \<le> 2 then 1 else 0)
      in (year, month, day))"

definition format_civil :: "int \<times> int \<times> int \<Rightarrow> int \<Rightarrow> string" where
  "format_civil ymd r =
     (case ymd of (y, m, day) \<Rightarrow>
        (if y < 0 then ''-'' else []) @ pad 4 (nat \<bar>y\<bar>) @ ''-'' @ pad 2 (nat m) @ ''-'' @ pad 2 (nat day) @ ''T''
        @ pad 2 (nat (r div 3600)) @ '':'' @ pad 2 (nat (r mod 3600 div 60)) @ '':'' @ pad 2 (nat (r mod 60)) @ ''Z'')"

definition format_utc :: "time \<Rightarrow> string" where
  "format_utc t = format_civil (civil (t div Second div 86400)) (t div Second mod 86400)"

lemma format_utc_nonempty [simp]: "format_utc t \<noteq> []"
proof -
  have "format_civil ymd r \<noteq> []" for ymd r by (cases ymd) (simp add: format_civil_def)
  then show ?thesis by (simp add: format_utc_def)
qed

end
