(* ===== verification/Sitemap.thy ===== *)
theory Sitemap
  imports Cache GoText
begin

text \<open>
  sitemap/sitemap.go: the generator over any cache. Sources are records of the host's functions,
  the generation time is an argument, and every function returns the error it stops with and the
  cache it leaves. \<open>Count\<close> is taken to be below \<open>2^63 - 50000\<close>, so the offset of the paging loop
  does not wrap. \<open>crawl\<close> is what a crawler collects from the cached files.
\<close>

section \<open>Configuration and sources\<close>

definition URLsPerFile :: int where
  "URLsPerFile = 50000"

record sm_entry =
  en_Loc :: string
  en_Lastmod :: time

record source =
  so_Kind :: string
  so_Count :: "gerr + int"
  so_Page :: "int \<Rightarrow> int \<Rightarrow> gerr + sm_entry list"

record sm_config =
  sm_BaseURL :: string
  sm_StaticPaths :: "string list"
  sm_TTL :: duration

record 's generator =
  gn_cfg :: sm_config
  gn_cache :: "'s cache_ops"
  gn_sources :: "source list"

definition sm_New :: "sm_config \<Rightarrow> 's cache_ops \<Rightarrow> source list \<Rightarrow> 's generator" where
  "sm_New cfg c sources = \<lparr>gn_cfg = cfg, gn_cache = c, gn_sources = sources\<rparr>"

lemma sm_New_sel [simp]:
  "gn_cfg (sm_New cfg c sources) = cfg" "gn_cache (sm_New cfg c sources) = c" "gn_sources (sm_New cfg c sources) = sources"
  by (simp_all add: sm_New_def)

record result =
  rs_Files :: int
  rs_URLs :: int
  rs_PerKind :: "string \<Rightarrow> (int \<times> int) option"

section \<open>Names, times and documents\<close>

definition PageName :: "string \<Rightarrow> int \<Rightarrow> string" where
  "PageName kind page = (if page \<le> 1 then kind else kind @ ''-'' @ Itoa page)"

definition formatLastmod :: "time \<Rightarrow> string" where
  "formatLastmod t = (if IsZero t then [] else format_utc t)"

definition xmlns :: string where
  "xmlns = ''http://www.sitemaps.org/schemas/sitemap/0.9''"

type_synonym url_entry = "string \<times> string"

definition urlset :: "url_entry list \<Rightarrow> bytes" where
  "urlset urls = xml_doc ''urlset'' xmlns ''url'' urls"

definition sitemapindex :: "url_entry list \<Rightarrow> bytes" where
  "sitemapindex entries = xml_doc ''sitemapindex'' xmlns ''sitemap'' entries"

definition writeSitemap :: "'s generator \<Rightarrow> string \<Rightarrow> url_entry list \<Rightarrow> ('s, unit) call" where
  "writeSitemap g name urls = ca_Set (gn_cache g) name (urlset urls) (sm_TTL (gn_cfg g))"

definition count_key :: "string \<Rightarrow> string" where
  "count_key kind = kind @ '':pagecount''"

definition setPageCount :: "'s generator \<Rightarrow> string \<Rightarrow> int \<Rightarrow> ('s, unit) call" where
  "setPageCount g kind count = ca_Set (gn_cache g) (count_key kind) (Itoa count) (sm_TTL (gn_cfg g))"

text \<open>
  \<open>fmt.Sscanf\<close> with \<open>%d\<close>: leading blanks but no newline, a sign, the longest run of digits; what
  follows is ignored.
\<close>

definition Sscanf_d :: "string \<Rightarrow> gerr + int" where
  "Sscanf_d body =
     (let s = trim_enc (filter (\<lambda>p. p \<noteq> newline) space_runes) body;
          sign = (if s \<noteq> [] \<and> (hd s = CHR ''+'' \<or> hd s = CHR ''-'') then [hd s] else []);
          ds = takeWhile is_digit (drop (length sign) s)
      in if ds = [] then Inl (Foreign ''expected integer'')
         else case ParseInt (sign @ ds) of
                (n, None) \<Rightarrow> Inr n
              | (n, Some err) \<Rightarrow> Inl err)"

definition getPageCount :: "'s generator \<Rightarrow> string \<Rightarrow> ('s, int) call" where
  "getPageCount g kind s =
     (case ca_Get (gn_cache g) (count_key kind) s of
        (Inl err, s) \<Rightarrow> (Inl err, s)
      | (Inr None, s) \<Rightarrow> (Inr 0, s)
      | (Inr (Some body), s) \<Rightarrow>
          if body = [] then (Inr 0, s)
          else case Sscanf_d body of
                 Inl err \<Rightarrow> (Inl (Wrapf (''page count '' @ quote @ body @ quote @ '' is not a number: '') err), s)
               | Inr n \<Rightarrow> (Inr n, s))"

section \<open>Generation\<close>

definition regenStatic :: "time \<Rightarrow> 's generator \<Rightarrow> 's \<Rightarrow> (int \<times> int \<times> gerr option) \<times> 's" where
  "regenStatic now g s =
     (let urls = map (\<lambda>p. (sm_BaseURL (gn_cfg g) @ p, formatLastmod now)) (sm_StaticPaths (gn_cfg g))
      in case writeSitemap g ''static'' urls s of
           (Inl err, s) \<Rightarrow> ((0, 0, Some err), s)
         | (Inr _, s) \<Rightarrow>
             (case setPageCount g ''static'' 1 s of
                (Inl err, s) \<Rightarrow> ((1, int (length urls), Some err), s)
              | (Inr _, s) \<Rightarrow> ((1, int (length urls), None), s)))"

definition page_urls :: "sm_entry list \<Rightarrow> url_entry list" where
  "page_urls page = map (\<lambda>e. (en_Loc e, formatLastmod (en_Lastmod e))) page"

function regen_pages ::
    "'s generator \<Rightarrow> source \<Rightarrow> int \<Rightarrow> int \<Rightarrow> int \<Rightarrow> int \<Rightarrow> 's \<Rightarrow> (int \<times> int \<times> gerr option) \<times> 's" where
  "regen_pages g src cnt offset files urls s =
     (if offset < cnt then
        case so_Page src URLsPerFile offset of
          Inl err \<Rightarrow> ((files, urls, Some (Wrapf (''page offset='' @ Itoa offset @ '': '') err)), s)
        | Inr page \<Rightarrow>
            let name = PageName (so_Kind src) (files + 1)
            in case writeSitemap g name (page_urls page) s of
                 (Inl err, s) \<Rightarrow> ((files, urls, Some (Wrapf (''write '' @ name @ '': '') err)), s)
               | (Inr _, s) \<Rightarrow>
                   regen_pages g src cnt (offset + URLsPerFile) (files + 1) (urls + int (length page)) s
      else ((files, urls, None), s))"
  by pat_completeness auto
termination
  by (relation "measure (\<lambda>(g, src, cnt, offset, files, urls, s). nat (cnt - offset))")
    (auto simp: URLsPerFile_def)

declare regen_pages.simps [simp del]

definition regenSource :: "'s generator \<Rightarrow> source \<Rightarrow> 's \<Rightarrow> (int \<times> int \<times> gerr option) \<times> 's" where
  "regenSource g src s =
     (case so_Count src of
        Inl err \<Rightarrow> ((0, 0, Some (Wrapf ''count: '' err)), s)
      | Inr n \<Rightarrow>
          (case regen_pages g src n 0 0 0 s of
             ((files, urls, Some err), s) \<Rightarrow> ((files, urls, Some err), s)
           | ((files, urls, None), s) \<Rightarrow>
               (case setPageCount g (so_Kind src) files s of
                  (Inl err, s) \<Rightarrow> ((files, urls, Some (Wrapf ''page count: '' err)), s)
                | (Inr _, s) \<Rightarrow> ((files, urls, None), s))))"

definition index_entries :: "'s generator \<Rightarrow> string \<Rightarrow> string \<Rightarrow> int \<Rightarrow> url_entry list" where
  "index_entries g now kind n =
     map (\<lambda>page. (sm_BaseURL (gn_cfg g) @ ''/sitemap-'' @ PageName kind page @ ''.xml'', now)) [1..n]"

fun list_kinds :: "'s generator \<Rightarrow> string \<Rightarrow> string list \<Rightarrow> url_entry list \<Rightarrow> ('s, url_entry list) call" where
  "list_kinds g now [] entries s = (Inr entries, s)"
| "list_kinds g now (kind # kinds) entries s =
     (case getPageCount g kind s of
        (Inl err, s) \<Rightarrow> (Inl (Wrapf (''page count '' @ kind @ '': '') err), s)
      | (Inr n, s) \<Rightarrow> list_kinds g now kinds (entries @ index_entries g now kind n) s)"

definition index_kinds :: "'s generator \<Rightarrow> string list" where
  "index_kinds g = (if sm_StaticPaths (gn_cfg g) \<noteq> [] then [''static''] else []) @ map so_Kind (gn_sources g)"

definition regenIndex :: "time \<Rightarrow> 's generator \<Rightarrow> ('s, unit) call" where
  "regenIndex now g s =
     (case list_kinds g (formatLastmod now) (index_kinds g) [] s of
        (Inl err, s) \<Rightarrow> (Inl err, s)
      | (Inr entries, s) \<Rightarrow> ca_Set (gn_cache g) ''index'' (sitemapindex entries) (sm_TTL (gn_cfg g)) s)"

definition count_kind :: "result \<Rightarrow> string \<Rightarrow> int \<Rightarrow> int \<Rightarrow> result" where
  "count_kind res kind files urls =
     res\<lparr>rs_PerKind := (rs_PerKind res)(kind \<mapsto> (files, urls)), rs_Files := rs_Files res + files,
         rs_URLs := rs_URLs res + urls\<rparr>"

fun regen_sources :: "'s generator \<Rightarrow> source list \<Rightarrow> result \<Rightarrow> 's \<Rightarrow> (result \<times> gerr option) \<times> 's" where
  "regen_sources g [] res s = ((res, None), s)"
| "regen_sources g (src # srcs) res s =
     (case regenSource g src s of
        ((files, urls, Some err), s) \<Rightarrow> ((res, Some (Wrapf (so_Kind src @ '': '') err)), s)
      | ((files, urls, None), s) \<Rightarrow> regen_sources g srcs (count_kind res (so_Kind src) files urls) s)"

definition Generate :: "time \<Rightarrow> 's generator \<Rightarrow> 's \<Rightarrow> (result \<times> gerr option) \<times> 's" where
  "Generate now g s =
     (let res = \<lparr>rs_Files = 0, rs_URLs = 0, rs_PerKind = Map.empty\<rparr>
      in case (if sm_StaticPaths (gn_cfg g) \<noteq> []
               then (case regenStatic now g s of
                       ((files, urls, Some err), s) \<Rightarrow> ((res, Some (Wrapf ''static: '' err)), s)
                     | ((files, urls, None), s) \<Rightarrow> ((count_kind res ''static'' files urls, None), s))
               else ((res, None), s)) of
           ((res, Some err), s) \<Rightarrow> ((res, Some err), s)
         | ((res, None), s) \<Rightarrow>
             (case regen_sources g (gn_sources g) res s of
                ((res, Some err), s) \<Rightarrow> ((res, Some err), s)
              | ((res, None), s) \<Rightarrow>
                  (case regenIndex now g s of
                     (Inl err, s) \<Rightarrow> ((res, Some (Wrapf ''index: '' err)), s)
                   | (Inr _, s) \<Rightarrow> ((res, None), s))))"

section \<open>Names\<close>

text \<open>Kinds for which the keys of different kinds cannot meet.\<close>

definition kind_ok :: "string \<Rightarrow> bool" where
  "kind_ok k \<longleftrightarrow> k \<noteq> ''index'' \<and> CHR ''-'' \<notin> set k \<and> CHR '':'' \<notin> set k"

definition own :: "string \<Rightarrow> string \<Rightarrow> bool" where
  "own kind key \<longleftrightarrow> key = count_key kind \<or> (\<exists>i. key = PageName kind i)"

definition key_kind :: "string \<Rightarrow> string" where
  "key_kind key = takeWhile (\<lambda>c. c \<noteq> CHR ''-'' \<and> c \<noteq> CHR '':'') key"

lemma own_kind:
  assumes k: "kind_ok k" and o: "own k key"
  shows "key_kind key = k"
proof -
  have cut: "takeWhile (\<lambda>c. c \<noteq> CHR ''-'' \<and> c \<noteq> CHR '':'') (k @ t) = k @ takeWhile (\<lambda>c. c \<noteq> CHR ''-'' \<and> c \<noteq> CHR '':'') t" for t
    using k by (intro takeWhile_append2) (auto simp: kind_ok_def)
  from o consider "key = k @ '':pagecount''" | "key = k @ []" | i where "key = k @ ''-'' @ Itoa i"
    by (fastforce simp: own_def count_key_def PageName_def split: if_splits)
  then show ?thesis by cases (simp_all only: key_kind_def cut, simp_all)
qed

lemma own_index: "kind_ok k \<Longrightarrow> \<not> own k ''index''"
  using own_kind [of k "''index''"] by (auto simp: key_kind_def kind_ok_def)

lemma own_keys [simp]: "own k (count_key k)" "own k (PageName k i)"
  by (auto simp: own_def)

lemma PageName_inj: "1 \<le> i \<Longrightarrow> 1 \<le> j \<Longrightarrow> PageName k i = PageName k j \<longleftrightarrow> i = j"
  by (auto simp: PageName_def Itoa_inj split: if_splits)

lemma count_key_page: "kind_ok k \<Longrightarrow> count_key k \<noteq> PageName k i"
  by (auto simp: count_key_def PageName_def)

lemma Sscanf_Itoa: "0 \<le> n \<Longrightarrow> n < 2 ^ 63 \<Longrightarrow> Sscanf_d (Itoa n) = Inr n"
proof -
  assume n: "0 \<le> n" "n < 2 ^ 63"
  have d: "is_digit c" if "c \<in> set (Itoa n)" for c using that n utoa_digits by (auto simp: Itoa_def)
  have ne: "Itoa n \<noteq> []" by simp
  have hd: "is_digit (hd (Itoa n))" using d [OF hd_in_set [OF ne]] .
  have "trim_enc (filter (\<lambda>p. p \<noteq> newline) space_runes) (Itoa n) = Itoa n"
    using space_runes_ends hd by (intro trim_enc_visible) (auto simp: is_digit_def visible_def)
  moreover have tw: "takeWhile is_digit (Itoa n) = Itoa n" using d by (simp add: takeWhile_eq_all_conv)
  moreover have "hd (Itoa n) \<noteq> CHR ''+''" "hd (Itoa n) \<noteq> CHR ''-''" using hd by (auto simp: is_digit_def)
  ultimately show ?thesis using n ParseInt_Itoa [of n] ne
    unfolding Sscanf_d_def Let_def by (simp add: i64_ok_def tw del: takeWhile_eq_all_conv)
qed

section \<open>What a run writes\<close>

text \<open>A source fails a run: it cannot say its count, or not read one of the pages below its count.\<close>

definition page_fails :: "source \<Rightarrow> int \<Rightarrow> bool" where
  "page_fails src cnt \<longleftrightarrow> (\<exists>i err. 0 \<le> i \<and> i * URLsPerFile < cnt \<and> so_Page src URLsPerFile (i * URLsPerFile) = Inl err)"

definition source_fails :: "source \<Rightarrow> bool" where
  "source_fails src \<longleftrightarrow> (case so_Count src of Inl err \<Rightarrow> True | Inr cnt \<Rightarrow> page_fails src cnt)"

context cache
begin

lemma write_ok:
  assumes "gn_cache g = C" "inv s" "0 < clock s" "writeSitemap g name urls s = (q, s')"
  shows "inv s' \<and> clock s' = clock s \<and> q = Inr ()
    \<and> view s' = (view s)(name \<mapsto> (urlset urls, until (clock s) (sm_TTL (gn_cfg g))))"
  using Set_ok [OF assms(2,3)] assms(1,4) by (simp add: writeSitemap_def)

lemma count_ok:
  assumes "gn_cache g = C" "inv s" "0 < clock s" "setPageCount g kind n s = (q, s')"
  shows "inv s' \<and> clock s' = clock s \<and> q = Inr ()
    \<and> view s' = (view s)(count_key kind \<mapsto> (Itoa n, until (clock s) (sm_TTL (gn_cfg g))))"
  using Set_ok [OF assms(2,3)] assms(1,4) by (simp add: setPageCount_def)

definition page_live :: "'s generator \<Rightarrow> source \<Rightarrow> time \<Rightarrow> 's \<Rightarrow> int \<Rightarrow> bool" where
  "page_live g src now s i \<longleftrightarrow> (\<exists>page. so_Page src URLsPerFile ((i - 1) * URLsPerFile) = Inr page
     \<and> view s (PageName (so_Kind src) i) = Some (urlset (page_urls page), until now (sm_TTL (gn_cfg g))))"

lemma regen_pages_effect:
  assumes "gn_cache g = C" and "inv s" and "0 < clock s" and "0 \<le> files" and "offset = files * URLsPerFile"
    and "regen_pages g src cnt offset files urls s = ((f, u, e), s')"
    and "\<forall>i. 1 \<le> i \<and> i \<le> files \<longrightarrow> page_live g src (clock s) s i"
  shows "inv s' \<and> clock s' = clock s \<and> files \<le> f \<and> f \<le> max files cnt
    \<and> (\<forall>key. \<not> own (so_Kind src) key \<longrightarrow> view s' key = view s key)
    \<and> (\<forall>i. 1 \<le> i \<and> i \<le> f \<longrightarrow> page_live g src (clock s) s' i)
    \<and> (e = None \<longrightarrow> cnt \<le> f * URLsPerFile \<and> (files < f \<longrightarrow> (f - 1) * URLsPerFile < cnt))
    \<and> (e \<noteq> None \<longrightarrow> page_fails src cnt)"
  using assms
proof (induction g src cnt offset files urls s rule: regen_pages.induct)
  case (1 g src cnt offset files urls s)
  show ?case
  proof (cases "offset < cnt")
    case False
    with "1.prems"(6) have "f = files" "e = None" "s' = s"
      by (simp_all add: regen_pages.simps [of g src cnt offset])
    with False "1.prems" show ?thesis by simp
  next
    case True
    show ?thesis
    proof (cases "so_Page src URLsPerFile offset")
      case (Inl err)
      with True "1.prems"(6) have "f = files" "e \<noteq> None" "s' = s"
        by (auto simp: regen_pages.simps [of g src cnt offset])
      moreover have "page_fails src cnt" using Inl True "1.prems"(4,5) by (auto simp: page_fails_def)
      ultimately show ?thesis using "1.prems" by auto
    next
      case (Inr page)
      let ?name = "PageName (so_Kind src) (files + 1)"
      obtain q s1 where w: "writeSitemap g ?name (page_urls page) s = (q, s1)" by fastforce
      note W = write_ok [OF "1.prems"(1,2,3) w]
      have run: "regen_pages g src cnt (offset + URLsPerFile) (files + 1) (urls + int (length page)) s1 = ((f, u, e), s')"
        using "1.prems"(6) True Inr w W by (subst (asm) regen_pages.simps) (simp add: Let_def)
      have live: "\<forall>i. 1 \<le> i \<and> i \<le> files + 1 \<longrightarrow> page_live g src (clock s1) s1 i"
      proof (intro allI impI, elim conjE)
        fix i :: int assume i: "1 \<le> i" "i \<le> files + 1"
        show "page_live g src (clock s1) s1 i"
        proof (cases "i = files + 1")
          case True
          with W Inr "1.prems"(5) show ?thesis by (simp add: page_live_def)
        next
          case False
          with i "1.prems"(4,7) have "page_live g src (clock s) s i" "PageName (so_Kind src) i \<noteq> ?name"
            by (auto simp: PageName_inj)
          with W show ?thesis by (simp add: page_live_def)
        qed
      qed
      have q: "q = Inr ()" "inv s1" "0 < clock s1" using W "1.prems"(3) by simp_all
      have "0 \<le> files + 1" "offset + URLsPerFile = (files + 1) * URLsPerFile"
        using "1.prems"(4,5) by (simp_all add: algebra_simps)
      note IH = "1.IH" [OF True Inr refl w [symmetric] q(1) "1.prems"(1) q(2,3) this run live]
      have "files \<le> offset" using "1.prems"(4,5) by (simp add: URLsPerFile_def)
      with IH W "1.prems"(5) True show ?thesis by (auto simp: algebra_simps)
    qed
  qed
qed

end

text \<open>What a file holds: the locations of the \<open>i\<close>-th page of a kind, and how many pages it has.\<close>

definition page_locs :: "'s generator \<Rightarrow> string \<Rightarrow> int \<Rightarrow> string list \<Rightarrow> bool" where
  "page_locs g k i locs \<longleftrightarrow>
     (k = ''static'' \<and> sm_StaticPaths (gn_cfg g) \<noteq> [] \<and> locs = map (\<lambda>p. sm_BaseURL (gn_cfg g) @ p) (sm_StaticPaths (gn_cfg g)))
     \<or> (\<exists>src\<in>set (gn_sources g). so_Kind src = k \<and>
          (\<exists>page. so_Page src URLsPerFile ((i - 1) * URLsPerFile) = Inr page \<and> locs = map en_Loc page))"

definition page_number :: "'s generator \<Rightarrow> string \<Rightarrow> int \<Rightarrow> bool" where
  "page_number g k f \<longleftrightarrow>
     (k = ''static'' \<and> sm_StaticPaths (gn_cfg g) \<noteq> [] \<and> f = 1)
     \<or> (\<exists>src\<in>set (gn_sources g). so_Kind src = k \<and>
          (\<exists>n. so_Count src = Inr n \<and> n \<le> f * URLsPerFile \<and> (0 < f \<longrightarrow> (f - 1) * URLsPerFile < n)))"

lemma page_locs_source:
  "src \<in> set (gn_sources g) \<Longrightarrow> so_Page src URLsPerFile ((i - 1) * URLsPerFile) = Inr page \<Longrightarrow>
   page_locs g (so_Kind src) i (map fst (page_urls page))"
  by (auto simp: page_locs_def page_urls_def comp_def)

definition files_of :: "result \<Rightarrow> string \<Rightarrow> int" where
  "files_of res k = fst (the (rs_PerKind res k))"

context cache
begin

lemma pages_live_ok:
  assumes "\<forall>i. 1 \<le> i \<and> i \<le> f \<longrightarrow> page_live g src now s i" "cnt \<le> f * URLsPerFile"
  shows "\<not> page_fails src cnt"
proof
  assume "page_fails src cnt"
  then obtain i err where i: "0 \<le> i" "i * URLsPerFile < cnt" "so_Page src URLsPerFile (i * URLsPerFile) = Inl err"
    by (auto simp: page_fails_def)
  with assms(2) have "i * URLsPerFile < f * URLsPerFile" by simp
  then have "i < f" by (simp add: URLsPerFile_def)
  with i(1) assms(1) have "page_live g src now s (i + 1)" by simp
  with i(3) show False by (simp add: page_live_def)
qed

lemma regenSource_effect:
  assumes "gn_cache g = C" and "inv s" and "0 < clock s" and "kind_ok (so_Kind src)"
    and "regenSource g src s = ((f, u, e), s')"
  shows "inv s' \<and> clock s' = clock s \<and> (\<forall>key. \<not> own (so_Kind src) key \<longrightarrow> view s' key = view s key)
    \<and> (e = None \<longrightarrow> (\<exists>n. so_Count src = Inr n \<and> 0 \<le> f \<and> f \<le> max 0 n
        \<and> n \<le> f * URLsPerFile \<and> (0 < f \<longrightarrow> (f - 1) * URLsPerFile < n)
        \<and> view s' (count_key (so_Kind src)) = Some (Itoa f, until (clock s) (sm_TTL (gn_cfg g)))
        \<and> (\<forall>i. 1 \<le> i \<and> i \<le> f \<longrightarrow> page_live g src (clock s) s' i)))
    \<and> (e \<noteq> None \<longleftrightarrow> source_fails src)"
proof (cases "so_Count src")
  case (Inl err)
  with assms show ?thesis by (auto simp: regenSource_def source_fails_def)
next
  case (Inr n)
  obtain f1 u1 e1 s1 where p: "regen_pages g src n 0 0 0 s = ((f1, u1, e1), s1)" by (metis prod.collapse)
  have P: "inv s1 \<and> clock s1 = clock s \<and> 0 \<le> f1 \<and> f1 \<le> max 0 n
    \<and> (\<forall>key. \<not> own (so_Kind src) key \<longrightarrow> view s1 key = view s key)
    \<and> (\<forall>i. 1 \<le> i \<and> i \<le> f1 \<longrightarrow> page_live g src (clock s) s1 i)
    \<and> (e1 = None \<longrightarrow> n \<le> f1 * URLsPerFile \<and> (0 < f1 \<longrightarrow> (f1 - 1) * URLsPerFile < n))
    \<and> (e1 \<noteq> None \<longleftrightarrow> page_fails src n)"
  proof -
    have "\<forall>i. 1 \<le> i \<and> i \<le> 0 \<longrightarrow> page_live g src (clock s) s i" by (intro allI impI) linarith
    from regen_pages_effect [OF assms(1-3) _ _ p this] pages_live_ok [of f1 g src "clock s" s1 n] show ?thesis by auto
  qed
  show ?thesis
  proof (cases e1)
    case (Some err)
    with assms(5) Inr p have "s' = s1" "e \<noteq> None" by (auto simp: regenSource_def)
    with P Some Inr show ?thesis by (auto simp: source_fails_def)
  next
    case None
    obtain q s2 where c: "setPageCount g (so_Kind src) f1 s1 = (q, s2)" by fastforce
    have C2: "inv s2 \<and> clock s2 = clock s1 \<and> q = Inr () \<and> view s2 = (view s1)
        (count_key (so_Kind src) \<mapsto> (Itoa f1, until (clock s1) (sm_TTL (gn_cfg g))))"
      using count_ok [OF assms(1) _ _ c] P assms(3) by simp
    with assms(5) Inr p None c have r: "f = f1" "s' = s2" "e = None" by (auto simp: regenSource_def)
    have "page_live g src (clock s) s2 i" if "page_live g src (clock s) s1 i" for i
      using that C2 count_key_page [OF assms(4), of i] by (auto simp: page_live_def)
    with P C2 None Inr r show ?thesis by (auto simp: source_fails_def)
  qed
qed

definition kind_live :: "'s generator \<Rightarrow> time \<Rightarrow> 's \<Rightarrow> string \<Rightarrow> int \<Rightarrow> bool" where
  "kind_live g now s k f \<longleftrightarrow> 0 \<le> f \<and> f < 2 ^ 63 \<and> page_number g k f
     \<and> view s (count_key k) = Some (Itoa f, until now (sm_TTL (gn_cfg g)))
     \<and> (\<forall>i. 1 \<le> i \<and> i \<le> f \<longrightarrow> (\<exists>urls. page_locs g k i (map fst urls) \<and>
          view s (PageName k i) = Some (urlset urls, until now (sm_TTL (gn_cfg g)))))"

lemma kind_live_frame:
  "kind_live g now s k f \<Longrightarrow> \<forall>key. own k key \<longrightarrow> view s' key = view s key \<Longrightarrow> kind_live g now s' k f"
  by (simp add: kind_live_def)

definition published :: "'s generator \<Rightarrow> time \<Rightarrow> 's \<Rightarrow> result \<Rightarrow> string list \<Rightarrow> bool" where
  "published g now s res kinds \<longleftrightarrow> (\<forall>k\<in>set kinds. rs_PerKind res k \<noteq> None \<and> kind_live g now s k (files_of res k))
     \<and> rs_Files res = sum_list (map (files_of res) kinds)"

lemma published_step:
  assumes "published g now s res kinds" and "distinct (kinds @ [k])" and "\<forall>k\<in>set (kinds @ [k]). kind_ok k"
    and "\<forall>key. \<not> own k key \<longrightarrow> view s' key = view s key" and "kind_live g now s' k f"
  shows "published g now s' (count_kind res k f u) (kinds @ [k])"
proof -
  have same: "files_of (count_kind res k f u) j = files_of res j" "rs_PerKind (count_kind res k f u) j = rs_PerKind res j"
    if "j \<in> set kinds" for j
    using that assms(2) by (auto simp: files_of_def count_kind_def)
  have "view s' key = view s key" if "j \<in> set kinds" "own j key" for j key
  proof -
    have "j \<noteq> k" using that assms(2) by auto
    then have "\<not> own k key" using that assms(3) own_kind [of j key] own_kind [of k key] by auto
    with assms(4) show ?thesis by simp
  qed
  then have "kind_live g now s' j (files_of res j)" if "j \<in> set kinds" for j
    using that assms(1) kind_live_frame [of g now s j "files_of res j" s'] by (auto simp: published_def)
  moreover have "sum_list (map (files_of (count_kind res k f u)) kinds) = sum_list (map (files_of res) kinds)"
    using same by (intro arg_cong [of _ _ sum_list] map_cong) simp_all
  moreover have "files_of (count_kind res k f u) k = f" "rs_PerKind (count_kind res k f u) k \<noteq> None"
    "rs_Files (count_kind res k f u) = rs_Files res + f"
    by (simp_all add: count_kind_def files_of_def)
  ultimately show ?thesis using assms(1,5) same by (auto simp: published_def)
qed

lemma regen_sources_effect:
  assumes "gn_cache g = C" and "inv s" and "0 < clock s" and "\<forall>src\<in>set srcs. kind_ok (so_Kind src)"
    and "\<forall>src\<in>set srcs. \<forall>n. so_Count src = Inr n \<longrightarrow> n < 2 ^ 63"
    and "regen_sources g srcs res s = ((res', e), s')" and "set srcs \<subseteq> set (gn_sources g)"
  shows "inv s' \<and> clock s' = clock s
    \<and> (\<forall>key. (\<forall>src\<in>set srcs. \<not> own (so_Kind src) key) \<longrightarrow> view s' key = view s key)
    \<and> (e \<noteq> None \<longleftrightarrow> (\<exists>src\<in>set srcs. source_fails src))
    \<and> (\<forall>kinds. e = None \<longrightarrow> published g (clock s) s res kinds \<longrightarrow> distinct (kinds @ map so_Kind srcs)
        \<longrightarrow> (\<forall>k\<in>set kinds. kind_ok k) \<longrightarrow> published g (clock s) s' res' (kinds @ map so_Kind srcs))"
  using assms
proof (induction srcs arbitrary: res s)
  case (Cons src srcs)
  obtain f u e1 s1 where r: "regenSource g src s = ((f, u, e1), s1)" by (metis prod.collapse)
  note S = regenSource_effect [OF Cons.prems(1-3) _ r]
  have ok: "kind_ok (so_Kind src)" using Cons.prems(4) by simp
  show ?case
  proof (cases e1)
    case (Some err)
    with Cons.prems(6) r have "s' = s1" "e \<noteq> None" by auto
    with S [OF ok] Some show ?thesis by auto
  next
    case None
    with Cons.prems(6) r have run: "regen_sources g srcs (count_kind res (so_Kind src) f u) s1 = ((res', e), s')" by simp
    have s1: "inv s1" "0 < clock s1" "clock s1 = clock s" using S [OF ok] Cons.prems(3) by simp_all
    note IH = Cons.IH [OF Cons.prems(1) s1(1,2) _ _ run]
    have sub: "src \<in> set (gn_sources g)" "set srcs \<subseteq> set (gn_sources g)" using Cons.prems(7) by auto
    obtain n where n: "so_Count src = Inr n" "0 \<le> f" "f \<le> max 0 n" "n \<le> f * URLsPerFile" "0 < f \<longrightarrow> (f - 1) * URLsPerFile < n"
      and key: "view s1 (count_key (so_Kind src)) = Some (Itoa f, until (clock s) (sm_TTL (gn_cfg g)))"
      and pages: "\<forall>i. 1 \<le> i \<and> i \<le> f \<longrightarrow> page_live g src (clock s) s1 i"
      using S [OF ok] None by auto
    have "f < 2 ^ 63" using n Cons.prems(5) by auto
    moreover have "page_number g (so_Kind src) f" using n sub(1) by (auto simp: page_number_def)
    moreover have "\<exists>urls. page_locs g (so_Kind src) i (map fst urls) \<and>
        view s1 (PageName (so_Kind src) i) = Some (urlset urls, until (clock s) (sm_TTL (gn_cfg g)))"
      if "1 \<le> i \<and> i \<le> f" for i
      using pages that page_locs_source [OF sub(1)] unfolding page_live_def by blast
    ultimately have live: "kind_live g (clock s) s1 (so_Kind src) f"
      using n(2) key by (simp add: kind_live_def)
    have "published g (clock s) s' res' (kinds @ map so_Kind (src # srcs))"
      if pub: "e = None" "published g (clock s) s res kinds" "distinct (kinds @ map so_Kind (src # srcs))" "\<forall>k\<in>set kinds. kind_ok k" for kinds
    proof -
      have "published g (clock s) s1 (count_kind res (so_Kind src) f u) (kinds @ [so_Kind src])"
        by (rule published_step [OF pub(2)]) (use pub S [OF ok] live ok in auto)
      moreover have "distinct ((kinds @ [so_Kind src]) @ map so_Kind srcs)" using pub(3) by simp
      moreover have "\<forall>k\<in>set (kinds @ [so_Kind src]). kind_ok k" using pub(4) ok by simp
      moreover have "\<forall>src\<in>set srcs. kind_ok (so_Kind src)" "\<forall>src\<in>set srcs. \<forall>n. so_Count src = Inr n \<longrightarrow> n < 2 ^ 63"
        using Cons.prems(4,5) by simp_all
      ultimately have "published g (clock s) s' res' ((kinds @ [so_Kind src]) @ map so_Kind srcs)"
        using IH sub(2) pub(1) s1(3) by metis
      then show ?thesis by simp
    qed
    moreover have "e \<noteq> None \<longleftrightarrow> (\<exists>src\<in>set (src # srcs). source_fails src)"
      using IH [OF _ _ sub(2)] S [OF ok] None Cons.prems(4,5) by simp
    moreover have "inv s' \<and> clock s' = clock s" using IH [OF _ _ sub(2)] s1 Cons.prems(4,5) by simp
    moreover have "view s' key = view s key" if "\<forall>src\<in>set (src # srcs). \<not> own (so_Kind src) key" for key
      using IH [OF _ _ sub(2)] S [OF ok] that Cons.prems(4,5) by simp
    ultimately show ?thesis by blast
  qed
qed auto

lemma list_kinds_live:
  assumes "gn_cache g = C" and "inv s" and "\<forall>k\<in>set kinds. kind_live g t s k (fs k)"
  shows "\<exists>s'. list_kinds g now kinds entries s = (Inr (entries @ concat (map (\<lambda>k. index_entries g now k (fs k)) kinds)), s')
    \<and> inv s' \<and> clock s' = clock s \<and> view s' = view s"
  using assms
proof (induction kinds arbitrary: entries s)
  case (Cons k kinds)
  obtain q s1 where get: "ca_Get C (count_key k) s = (q, s1)" by fastforce
  have "view s (count_key k) = Some (Itoa (fs k), until t (sm_TTL (gn_cfg g)))" "Sscanf_d (Itoa (fs k)) = Inr (fs k)"
    using Cons.prems(3) by (auto simp: kind_live_def intro: Sscanf_Itoa)
  with Get_ok [OF Cons.prems(2) get] have n: "getPageCount g k s = (Inr (fs k), s1)"
    and s1: "inv s1" "clock s1 = clock s" "view s1 = view s"
    using get Cons.prems(1) by (auto simp: getPageCount_def)
  have "\<forall>k\<in>set kinds. kind_live g t s1 k (fs k)" using Cons.prems(3) s1(3) by (simp add: kind_live_def)
  from Cons.IH [OF Cons.prems(1) s1(1) this, of "entries @ index_entries g now k (fs k)"] s1 n show ?case by simp
qed simp

lemma regenStatic_effect:
  assumes "gn_cache g = C" and "inv s" and "0 < clock s" and "regenStatic now g s = ((f, u, e), s')"
    and "sm_StaticPaths (gn_cfg g) \<noteq> []"
  shows "inv s' \<and> clock s' = clock s \<and> e = None \<and> f = 1 \<and> kind_live g (clock s) s' ''static'' 1
    \<and> (\<forall>key. \<not> own ''static'' key \<longrightarrow> view s' key = view s key)"
proof -
  let ?urls = "map (\<lambda>p. (sm_BaseURL (gn_cfg g) @ p, formatLastmod now)) (sm_StaticPaths (gn_cfg g))"
  obtain q s1 where w: "writeSitemap g ''static'' ?urls s = (q, s1)" by fastforce
  note W = write_ok [OF assms(1-3) w]
  obtain q2 s2 where c: "setPageCount g ''static'' 1 s1 = (q2, s2)" by fastforce
  have C2: "inv s2 \<and> clock s2 = clock s1 \<and> q2 = Inr () \<and> view s2 = (view s1)
      (count_key ''static'' \<mapsto> (Itoa 1, until (clock s1) (sm_TTL (gn_cfg g))))"
    using count_ok [OF assms(1) _ _ c] W assms(3) by simp
  have r: "f = 1" "e = None" "s' = s2" using assms(4) w W c C2 by (simp_all add: regenStatic_def Let_def)
  have one: "PageName ''static'' i = ''static''" if "i \<le> 1" for i using that by (simp add: PageName_def)
  have "kind_live g (clock s) s2 ''static'' 1"
    using W C2 assms(5)
    by (auto simp: kind_live_def one count_key_def page_number_def page_locs_def comp_def intro!: exI [of _ ?urls])
  moreover have "own ''static'' ''static''" using one [of 1] own_keys(2) [of "''static''" 1] by simp
  ultimately show ?thesis using W C2 r by auto
qed

lemma Generate_effect:
  assumes "gn_cache g = C" and "inv s" and "0 < clock s"
    and "distinct (index_kinds g)" and "\<forall>k\<in>set (index_kinds g). kind_ok k"
    and "\<forall>src\<in>set (gn_sources g). \<forall>n. so_Count src = Inr n \<longrightarrow> n < 2 ^ 63"
    and "Generate now g s = ((res, e), s')"
  shows "inv s' \<and> clock s' = clock s \<and> (e \<noteq> None \<longleftrightarrow> (\<exists>src\<in>set (gn_sources g). source_fails src))
    \<and> (e \<noteq> None \<longrightarrow> view s' ''index'' = view s ''index'')
    \<and> (e = None \<longrightarrow> published g (clock s) s' res (index_kinds g)
        \<and> view s' ''index'' = Some (sitemapindex (concat (map (\<lambda>k. index_entries g (formatLastmod now) k (files_of res k))
              (index_kinds g))), until (clock s) (sm_TTL (gn_cfg g))))"
proof -
  let ?res0 = "\<lparr>rs_Files = 0, rs_URLs = 0, rs_PerKind = Map.empty\<rparr>"
  let ?statics = "if sm_StaticPaths (gn_cfg g) \<noteq> [] then [''static''] else []"
  have kinds: "\<forall>src\<in>set (gn_sources g). kind_ok (so_Kind src)" "\<forall>k\<in>set ?statics. kind_ok k"
    using assms(5) by (auto simp: index_kinds_def kind_ok_def)
  obtain res1 s1 where static: "inv s1" "clock s1 = clock s" "view s1 ''index'' = view s ''index''"
      "published g (clock s) s1 res1 ?statics"
    and gen: "Generate now g s = (case regen_sources g (gn_sources g) res1 s1 of
        ((res, Some err), s) \<Rightarrow> ((res, Some err), s)
      | ((res, None), s) \<Rightarrow> (case regenIndex now g s of
           (Inl err, s) \<Rightarrow> ((res, Some (Wrapf ''index: '' err)), s) | (Inr _, s) \<Rightarrow> ((res, None), s)))"
  proof (cases "sm_StaticPaths (gn_cfg g) = []")
    case True
    with assms(2) show ?thesis
      by (intro that [of s ?res0]) (simp_all add: published_def Generate_def Let_def)
  next
    case False
    obtain f u e1 s1 where r: "regenStatic now g s = ((f, u, e1), s1)" by (metis prod.collapse)
    note S = regenStatic_effect [OF assms(1-3) r False]
    have ok: "kind_ok ''static''" by (simp add: kind_ok_def)
    have "published g (clock s) s1 (count_kind ?res0 ''static'' f u) ([] @ [''static''])"
      using S ok by (intro published_step [where s = s]) (auto simp: published_def)
    with S False own_index [OF ok] r show ?thesis
      by (intro that [of s1 "count_kind ?res0 ''static'' f u"]) (simp_all add: Generate_def Let_def)
  qed
  obtain res2 e2 s2 where src: "regen_sources g (gn_sources g) res1 s1 = ((res2, e2), s2)" by (metis prod.collapse)
  have pos: "0 < clock s1" using static(2) assms(3) by simp
  note R = regen_sources_effect [OF assms(1) static(1) pos kinds(1) assms(6) src subset_refl]
  have idx: "view s2 ''index'' = view s ''index''" using R static(3) own_index kinds(1) by simp
  show ?thesis
  proof (cases e2)
    case (Some err)
    with assms(7) gen src have "s' = s2" "e = Some err" by auto
    with R static idx Some show ?thesis by simp
  next
    case None
    have pub: "published g (clock s) s2 res2 (index_kinds g)"
      using R None static(2,4) assms(4) kinds(2) unfolding index_kinds_def by metis
    then have "\<forall>k\<in>set (index_kinds g). kind_live g (clock s) s2 k (files_of res2 k)" by (simp add: published_def)
    from list_kinds_live [OF assms(1) _ this, of "formatLastmod now" "[]"] R
    obtain s3 where l: "list_kinds g (formatLastmod now) (index_kinds g) [] s2 = (Inr (concat
          (map (\<lambda>k. index_entries g (formatLastmod now) k (files_of res2 k)) (index_kinds g))), s3)"
      "inv s3" "clock s3 = clock s2" "view s3 = view s2" by auto
    let ?body = "sitemapindex (concat (map (\<lambda>k. index_entries g (formatLastmod now) k (files_of res2 k)) (index_kinds g)))"
    obtain q s4 where st: "ca_Set C ''index'' ?body (sm_TTL (gn_cfg g)) s3 = (q, s4)" by fastforce
    have pos3: "0 < clock s3" "clock s3 = clock s" using l R static(2) assms(3) by simp_all
    note S4 = Set_ok [OF l(2) pos3(1) st]
    have "regenIndex now g s2 = (Inr (), s4)" using l st S4 assms(1) by (simp add: regenIndex_def)
    with assms(7) gen src None have r: "res = res2" "e = None" "s' = s4" by auto
    have "kind_live g (clock s) s4 k f" if "k \<in> set (index_kinds g)" "kind_live g (clock s) s2 k f" for k f
      using that S4 l(4) own_index assms(5) by (intro kind_live_frame [OF that(2)]) auto
    with pub have "published g (clock s) s4 res2 (index_kinds g)" by (simp add: published_def)
    moreover have "\<not> (\<exists>src\<in>set (gn_sources g). source_fails src)" using R None by blast
    ultimately show ?thesis using S4 pos3(2) r by simp
  qed
qed

end

section \<open>Properties\<close>

text \<open>After a successful run the cached index reads as the list of its entries.\<close>

lemma index_readable:
  assumes "Generate now g c = ((res, None), c')" and "gn_cache g = MemCache" and "mcache_inv c" "0 < mk_now c"
    and "distinct (index_kinds g)" and "\<forall>k\<in>set (index_kinds g). kind_ok k \<and> plain_text k"
    and "plain_text (sm_BaseURL (gn_cfg g))"
    and "\<forall>src\<in>set (gn_sources g). \<forall>n. so_Count src = Inr n \<longrightarrow> n < 2 ^ 63"
    and "entries = concat (map (\<lambda>k. index_entries g (formatLastmod now) k (files_of res k)) (index_kinds g))"
  shows "mcache.published g (mk_now c) c' res (index_kinds g)
    \<and> mcache_view c' ''index'' = Some (sitemapindex entries, until (mk_now c) (sm_TTL (gn_cfg g)))
    \<and> read_locs (sitemapindex entries) = map fst entries"
proof -
  have "\<forall>k\<in>set (index_kinds g). kind_ok k" using assms(6) by simp
  note G = mcache.Generate_effect [OF assms(2,3,4,5) this assms(8,1)]
  have "byte_in 32 126 c" if "is_digit c" for c using that by (simp add: is_digit_def byte_in_def)
  then have plain: "plain_text (Itoa i)" for i
    using utoa_digits by (auto simp: plain_text_def Itoa_def) (simp add: byte_in_def)
  have pt: "plain_text (s @ t) \<longleftrightarrow> plain_text s \<and> plain_text t" for s t by (auto simp: plain_text_def)
  have "plain_text (fst e)" if e: "e \<in> set entries" for e
  proof -
    from e obtain k i where "k \<in> set (index_kinds g)"
      and "fst e = sm_BaseURL (gn_cfg g) @ ''/sitemap-'' @ PageName k i @ ''.xml''" by (auto simp: assms(9) index_entries_def)
    moreover have "plain_text ''/sitemap-''" "plain_text ''.xml''" "plain_text ''-''" by (simp_all add: plain_text_def byte_in_def)
    ultimately show ?thesis using assms(6,7) plain by (auto simp: pt PageName_def simp del: append_Cons)
  qed
  then have "read_locs (sitemapindex entries) = map fst entries"
    unfolding sitemapindex_def by (intro read_locs_doc) auto
  with G assms(9) show ?thesis by simp
qed

text \<open>
  A successful run publishes a closed index. On the in-memory cache, for kinds whose names
  cannot collide, after \<open>Generate\<close> reports success the cached index, read as XML, lists exactly the
  files of every kind, in order: the static kind and then the sources, each kind with as many pages
  as the result reports for it; every listed file is in the cache as a urlset; and the reported
  total is the number of listed files.
\<close>

theorem index_lists_exactly_the_files:
  assumes "Generate now g c = ((res, None), c')" and "gn_cache g = MemCache" and "mcache_inv c" "0 < mk_now c"
    and "distinct (index_kinds g)" and "\<forall>k\<in>set (index_kinds g). kind_ok k \<and> plain_text k"
    and "plain_text (sm_BaseURL (gn_cfg g))"
    and "\<forall>src\<in>set (gn_sources g). \<forall>n. so_Count src = Inr n \<longrightarrow> n < 2 ^ 63"
  shows "\<exists>body files. map_option fst (mcache_view c' ''index'') = Some body
    \<and> read_locs body = concat (map (\<lambda>k. map (\<lambda>i. sm_BaseURL (gn_cfg g) @ ''/sitemap-'' @ PageName k i @ ''.xml'') [1..files k])
        (index_kinds g))
    \<and> (\<forall>k\<in>set (index_kinds g). rs_PerKind res k \<noteq> None \<and> files k = fst (the (rs_PerKind res k))
        \<and> (\<forall>i\<in>{1..files k}. \<exists>urls. map_option fst (mcache_view c' (PageName k i)) = Some (urlset urls)))
    \<and> int (length (read_locs body)) = rs_Files res"
proof -
  let ?ks = "index_kinds g"
  let ?entries = "concat (map (\<lambda>k. index_entries g (formatLastmod now) k (files_of res k)) ?ks)"
  from index_readable [OF assms refl]
  have pub: "mcache.published g (mk_now c) c' res ?ks"
    and idx: "mcache_view c' ''index'' = Some (sitemapindex ?entries, until (mk_now c) (sm_TTL (gn_cfg g)))"
    and locs: "read_locs (sitemapindex ?entries) = map fst ?entries" by simp_all
  have fsts: "map fst ?entries = concat (map (\<lambda>k. map (\<lambda>i. sm_BaseURL (gn_cfg g) @ ''/sitemap-'' @ PageName k i @ ''.xml'')
      [1..files_of res k]) ?ks)"
    by (simp add: index_entries_def map_concat comp_def)
  have "int (length (concat (map (\<lambda>k. index_entries g (formatLastmod now) k (files_of res k)) ks)))
      = sum_list (map (files_of res) ks)" if "\<forall>k\<in>set ks. 0 \<le> files_of res k" for ks
    using that by (induction ks) (simp_all add: index_entries_def)
  moreover have "\<forall>k\<in>set ?ks. 0 \<le> files_of res k" "rs_Files res = sum_list (map (files_of res) ?ks)"
    using pub by (auto simp: mcache.published_def mcache.kind_live_def)
  ultimately have len: "int (length ?entries) = rs_Files res" by simp
  have pages: "\<exists>urls. map_option fst (mcache_view c' (PageName k i)) = Some (urlset urls)"
    if "k \<in> set ?ks" "i \<in> {1..files_of res k}" for k i
    using that pub by (fastforce simp: mcache.published_def mcache.kind_live_def)
  have "int (length (read_locs (sitemapindex ?entries))) = rs_Files res" using locs len by simp
  moreover have "\<forall>k\<in>set ?ks. rs_PerKind res k \<noteq> None \<and> files_of res k = fst (the (rs_PerKind res k))
      \<and> (\<forall>i\<in>{1..files_of res k}. \<exists>urls. map_option fst (mcache_view c' (PageName k i)) = Some (urlset urls))"
    using pages pub by (auto simp: mcache.published_def files_of_def)
  moreover have "map_option fst (mcache_view c' ''index'') = Some (sitemapindex ?entries)" using idx by simp
  moreover have "read_locs (sitemapindex ?entries) = concat (map (\<lambda>k. map (\<lambda>i. sm_BaseURL (gn_cfg g) @ ''/sitemap-''
      @ PageName k i @ ''.xml'') [1..files_of res k]) ?ks)" unfolding locs fsts ..
  ultimately show ?thesis by (intro exI [of _ "sitemapindex ?entries"] exI [of _ "files_of res"] conjI)
qed

definition ex_source :: "sm_entry list \<Rightarrow> source" where
  "ex_source es = \<lparr>so_Kind = ''anime'', so_Count = Inr (int (length es)),
     so_Page = (\<lambda>limit offset. Inr (take (nat limit) (drop (nat offset) es)))\<rparr>"

definition ex_gen :: "source list \<Rightarrow> mem_cache generator" where
  "ex_gen srcs = sm_New \<lparr>sm_BaseURL = ''https://x'', sm_StaticPaths = [''/''], sm_TTL = Hour\<rparr> MemCache srcs"

lemma ex_gen_simps [simp]:
  "gn_cache (ex_gen srcs) = MemCache" "gn_sources (ex_gen srcs) = srcs"
  "index_kinds (ex_gen srcs) = ''static'' # map so_Kind srcs" "sm_BaseURL (gn_cfg (ex_gen srcs)) = ''https://x''"
  "so_Kind (ex_source es) = ''anime''" "so_Count (ex_source es) = Inr (int (length es))"
  by (simp_all add: ex_gen_def ex_source_def index_kinds_def)

lemma ex_gen_kinds [simp]: "kind_ok ''static''" "kind_ok ''anime''" "plain_text ''static''" "plain_text ''anime''" "plain_text ''https://x''"
  by (simp_all add: kind_ok_def plain_text_def byte_in_def)

lemma ex_source_total [simp]: "\<not> source_fails (ex_source es)"
  by (simp add: source_fails_def page_fails_def ex_source_def)

theorem index_lists_exactly_the_files_witness:
  "\<exists>res c' body. Generate 7 (ex_gen [ex_source [\<lparr>en_Loc = ''https://x/a'', en_Lastmod = 0\<rparr>]]) (mcache_New 5) = ((res, None), c')
     \<and> map_option fst (mcache_view c' ''index'') = Some body \<and> int (length (read_locs body)) = rs_Files res"
proof -
  let ?g = "ex_gen [ex_source [\<lparr>en_Loc = ''https://x/a'', en_Lastmod = 0\<rparr>]]"
  obtain res e c' where run: "Generate 7 ?g (mcache_New 5) = ((res, e), c')" by (metis prod.collapse)
  have "e = None" using mcache.Generate_effect [OF _ _ _ _ _ _ run] by auto
  with run have run: "Generate 7 ?g (mcache_New 5) = ((res, None), c')" by simp
  from index_lists_exactly_the_files [OF run] obtain body where
    "map_option fst (mcache_view c' ''index'') = Some body" "int (length (read_locs body)) = rs_Files res" by auto
  with run show ?thesis by blast
qed

text \<open>
  C33. A failing source fails the run. On the in-memory cache, for kinds whose names cannot collide, \<open>Generate\<close>
  returns an error exactly when some source fails: its count, or one of the pages the count asks for. The
  index in the cache is then the one that was there before the run.
\<close>

theorem failed_run_keeps_index:
  assumes "Generate now g c = ((res, e), c')" and "gn_cache g = MemCache" and "mcache_inv c" "0 < mk_now c"
    and "distinct (index_kinds g)" and "\<forall>k\<in>set (index_kinds g). kind_ok k"
    and "\<forall>src\<in>set (gn_sources g). \<forall>n. so_Count src = Inr n \<longrightarrow> n < 2 ^ 63"
  shows "(e \<noteq> None \<longleftrightarrow> (\<exists>src\<in>set (gn_sources g). (\<exists>err. so_Count src = Inl err)
        \<or> (\<exists>n i err. so_Count src = Inr n \<and> 0 \<le> i \<and> i * URLsPerFile < n \<and> so_Page src URLsPerFile (i * URLsPerFile) = Inl err)))
    \<and> (e \<noteq> None \<longrightarrow> mcache_view c' ''index'' = mcache_view c ''index'') \<and> mcache_inv c'"
proof -
  have "source_fails src \<longleftrightarrow> (\<exists>err. so_Count src = Inl err)
      \<or> (\<exists>n i err. so_Count src = Inr n \<and> 0 \<le> i \<and> i * URLsPerFile < n \<and> so_Page src URLsPerFile (i * URLsPerFile) = Inl err)" for src
    by (auto simp: source_fails_def page_fails_def split: sum.splits)
  with mcache.Generate_effect [OF assms(2-7) assms(1)] show ?thesis by simp
qed

theorem failed_run_keeps_index_witness:
  "\<exists>res err c'. Generate 7 (ex_gen [(ex_source [])\<lparr>so_Count := Inr 60000, so_Page := (\<lambda>limit offset.
         if offset = 0 then Inr [] else Inl (Foreign ''down''))\<rparr>])
       \<lparr>mk_m = [(''index'', \<lparr>ce_val = ''old'', ce_exp = 0\<rparr>)], mk_now = 5\<rparr> = ((res, Some err), c')
     \<and> mcache_view c' ''index'' = Some (''old'', None)"
proof -
  let ?src = "(ex_source [])\<lparr>so_Count := Inr 60000, so_Page := (\<lambda>limit offset.
      if offset = 0 then Inr [] else Inl (Foreign ''down''))\<rparr>"
  let ?g = "ex_gen [?src]"
  let ?c = "\<lparr>mk_m = [(''index'', \<lparr>ce_val = ''old'', ce_exp = 0\<rparr>)], mk_now = 5\<rparr>"
  obtain res e c' where run: "Generate 7 ?g ?c = ((res, e), c')" by (metis prod.collapse)
  have "so_Count ?src = Inr 60000 \<and> (0::int) \<le> 1 \<and> 1 * URLsPerFile < 60000
      \<and> so_Page ?src URLsPerFile (1 * URLsPerFile) = Inl (Foreign ''down'')"
    by (simp add: URLsPerFile_def)
  then have fails: "\<exists>src\<in>set (gn_sources ?g). (\<exists>err. so_Count src = Inl err)
      \<or> (\<exists>n i err. so_Count src = Inr n \<and> 0 \<le> i \<and> i * URLsPerFile < n \<and> so_Page src URLsPerFile (i * URLsPerFile) = Inl err)"
    unfolding ex_gen_simps by (intro bexI [of _ ?src]) (blast, simp)
  have "e \<noteq> None \<and> mcache_view c' ''index'' = mcache_view ?c ''index''"
    using failed_run_keeps_index [OF run] fails by (simp add: mcache_inv_def)
  with run show ?thesis by (auto simp: mcache_view_def still_live_def IsZero_def)
qed

definition slice :: "sm_entry list \<Rightarrow> int \<Rightarrow> int \<Rightarrow> gerr + sm_entry list" where
  "slice es limit offset = Inr (take (nat limit) (drop (nat offset) es))"

lemma concat_slices:
  "concat (map (\<lambda>i. take c (drop (c * i) es)) [0..<n]) = take (c * n) es"
proof (induction n)
  case (Suc n)
  have "take (c * Suc n) es = take (c * n) es @ take c (drop (c * n) es)"
    by (simp add: add.commute flip: take_add)
  with Suc show ?case by simp
qed simp

context cache
begin

lemma regen_pages_slices:
  assumes "gn_cache g = C" "inv s" "0 < clock s" "so_Page src = slice es" "cnt = int (length es)" "0 \<le> offset"
  shows "\<exists>f s'. regen_pages g src cnt offset files urls s = ((f, urls + max 0 (int (length es) - offset), None), s')"
  using assms
proof (induction g src cnt offset files urls s rule: regen_pages.induct)
  case (1 g src cnt offset files urls s)
  show ?case
  proof (cases "offset < cnt")
    case False
    with "1.prems"(5) show ?thesis by (subst regen_pages.simps) simp
  next
    case True
    let ?page = "take (nat URLsPerFile) (drop (nat offset) es)"
    have page: "so_Page src URLsPerFile offset = Inr ?page" using "1.prems"(4) by (simp add: slice_def)
    obtain q s1 where w: "writeSitemap g (PageName (so_Kind src) (files + 1)) (page_urls ?page) s = (q, s1)" by fastforce
    note W = write_ok [OF "1.prems"(1,2,3) w]
    have q: "q = Inr ()" "inv s1" "0 < clock s1" "0 \<le> offset + URLsPerFile"
      using W "1.prems"(3,6) by (simp_all add: URLsPerFile_def)
    have "int (length ?page) + max 0 (int (length es) - (offset + URLsPerFile)) = max 0 (int (length es) - offset)"
      using True "1.prems"(5,6) by (simp add: URLsPerFile_def min_def)
    then have tot: "urls + int (length ?page) + max 0 (int (length es) - (offset + URLsPerFile)) = urls + max 0 (int (length es) - offset)"
      by linarith
    obtain f s' where "regen_pages g src cnt (offset + URLsPerFile) (files + 1) (urls + int (length ?page)) s1
        = ((f, urls + max 0 (int (length es) - offset), None), s')"
      using "1.IH" [OF True page refl w [symmetric] q(1) "1.prems"(1) q(2,3) "1.prems"(4,5) q(4)] unfolding tot by blast
    then show ?thesis using True page w q(1)
      by (simp add: regen_pages.simps [of g src cnt offset] Let_def del: length_take)
  qed
qed

end

text \<open>
  A source's URLs are partitioned over its files. For a source whose pages are the slices of
  its list of entries, written to the in-memory cache: no error, every URL counted, just enough
  files, none of them empty or above the 50,000 cap; file \<open>i\<close>, under its page name, is the urlset of the
  \<open>i\<close>-th part, the parts make up the list in order, and the stored page count is their number.
\<close>

theorem source_files_partition:
  assumes "regenSource g src c = ((f, u, e), c')" and "gn_cache g = MemCache" and "mcache_inv c" "0 < mk_now c"
    and "kind_ok (so_Kind src)" and "so_Count src = Inr (int (length es))" and "so_Page src = slice es"
  shows "e = None \<and> u = int (length es) \<and> (\<exists>pages. concat pages = es \<and> int (length pages) = f
    \<and> (\<forall>i<length pages. 0 < length (pages ! i) \<and> length (pages ! i) \<le> 50000
         \<and> map_option fst (mcache_view c' (PageName (so_Kind src) (int i + 1))) = Some (urlset (page_urls (pages ! i))))
    \<and> map_option fst (mcache_view c' (count_key (so_Kind src))) = Some (Itoa f))"
proof -
  obtain f1 c1 where p: "regen_pages g src (int (length es)) 0 0 0 c = ((f1, int (length es), None), c1)"
    using mcache.regen_pages_slices [OF assms(2,3,4,7) refl, of 0 0 0] by auto
  have "source_fails src \<Longrightarrow> False" using assms(6,7) by (auto simp: source_fails_def page_fails_def slice_def)
  note S = mcache.regenSource_effect [OF assms(2,3,4,5,1)]
  then have e: "e = None" using \<open>source_fails src \<Longrightarrow> False\<close> by auto
  then have u: "u = int (length es)" using assms(1,6) p
    by (auto simp: regenSource_def split: sum.splits prod.splits)
  from S e assms(6) have f: "0 \<le> f" "int (length es) \<le> f * 50000" "0 < f \<longrightarrow> (f - 1) * 50000 < int (length es)"
    and cnt: "mcache_view c' (count_key (so_Kind src)) = Some (Itoa f, until (mk_now c) (sm_TTL (gn_cfg g)))"
    and live: "\<And>i. 1 \<le> i \<Longrightarrow> i \<le> f \<Longrightarrow> mcache.page_live g src (mk_now c) c' i" by (auto simp: URLsPerFile_def)
  define pages where "pages = map (\<lambda>i. take 50000 (drop (50000 * i) es)) [0..<nat f]"
  have "concat pages = take (50000 * nat f) es" unfolding pages_def by (rule concat_slices)
  moreover have "length es \<le> 50000 * nat f" using f(1,2) by linarith
  ultimately have cat: "concat pages = es" by simp
  have each: "0 < length (pages ! i) \<and> length (pages ! i) \<le> 50000
      \<and> map_option fst (mcache_view c' (PageName (so_Kind src) (int i + 1))) = Some (urlset (page_urls (pages ! i)))"
    if i: "i < length pages" for i
  proof -
    have i': "i < nat f" "pages ! i = take 50000 (drop (50000 * i) es)" using i by (simp_all add: pages_def)
    moreover have "int i < f" using i'(1) f(1) by linarith
    moreover from this have "50000 * i < length es" using f(1,3) by force
    moreover have "mcache.page_live g src (mk_now c) c' (int i + 1)" using i'(1) by (intro live) auto
    moreover have "nat (int i * URLsPerFile) = 50000 * i" by (simp add: URLsPerFile_def nat_mult_distrib)
    moreover have "nat URLsPerFile = 50000" by (simp add: URLsPerFile_def)
    ultimately show ?thesis using assms(7) by (auto simp: mcache.page_live_def slice_def)
  qed
  have "int (length pages) = f" using f(1) by (simp add: pages_def)
  with e u cat each cnt show ?thesis by (intro conjI exI [of _ pages]) auto
qed

theorem source_files_partition_witness:
  "\<exists>f u e c'. regenSource (ex_gen []) (ex_source (replicate 3 \<lparr>en_Loc = ''https://x/a'', en_Lastmod = 0\<rparr>)) (mcache_New 5)
     = ((f, u, e), c') \<and> e = None \<and> u = 3"
proof -
  let ?es = "replicate 3 \<lparr>en_Loc = ''https://x/a'', en_Lastmod = 0\<rparr>"
  obtain f u e c' where run: "regenSource (ex_gen []) (ex_source ?es) (mcache_New 5) = ((f, u, e), c')" by (metis prod.collapse)
  have "so_Page (ex_source ?es) = slice ?es" by (simp add: ex_source_def slice_def fun_eq_iff)
  with source_files_partition [OF run, of ?es] run show ?thesis by simp
qed

text \<open>Kinds whose names end like a page number do collide, so the restriction on them is needed.\<close>

lemma page_name_collision: "PageName ''anime'' 2 = PageName ''anime-2'' 1"
  by code_simp

section \<open>What a crawler finds\<close>

text \<open>
  A crawler reads the index, asks the host for every listed file and reads its locations. The host
  serves \<open>/sitemap-NAME.xml\<close> from the cache entry \<open>NAME\<close>.
\<close>

definition file_key :: "string \<Rightarrow> string \<Rightarrow> string option" where
  "file_key base loc =
     (let name = drop (length (base @ ''/sitemap-'')) loc
      in if prefix (base @ ''/sitemap-'') loc \<and> suffix ''.xml'' name then Some (take (length name - 4) name) else None)"

definition fetch_locs :: "(string \<Rightarrow> (bytes \<times> 'x) option) \<Rightarrow> string \<Rightarrow> string list" where
  "fetch_locs view key = (case view key of None \<Rightarrow> [] | Some (body, _) \<Rightarrow> read_locs body)"

definition crawl :: "(string \<Rightarrow> (bytes \<times> 'x) option) \<Rightarrow> string \<Rightarrow> string list" where
  "crawl view base =
     concat (map (\<lambda>loc. case file_key base loc of None \<Rightarrow> [] | Some key \<Rightarrow> fetch_locs view key) (fetch_locs view ''index''))"

lemma file_key_of: "file_key base (base @ ''/sitemap-'' @ k @ ''.xml'') = Some k"
proof -
  have "drop (length (base @ ''/sitemap-'')) ((base @ ''/sitemap-'') @ k @ ''.xml'') = k @ ''.xml''"
    by (rule append_eq_conv_conj [THEN iffD1, THEN conjunct2, OF refl, symmetric])
  then show ?thesis by (simp add: file_key_def Let_def suffix_def)
qed

lemma read_urlset: "list_all (\<lambda>u. plain_text (fst u)) urls \<Longrightarrow> read_locs (urlset urls) = map fst urls"
  unfolding urlset_def by (intro read_locs_doc) (auto simp: list_all_iff)

lemma pages_of_slices:
  assumes "0 \<le> f" "int (length es) \<le> f * URLsPerFile"
  shows "concat (map (\<lambda>i. take (nat URLsPerFile) (drop (nat ((i - 1) * URLsPerFile)) es)) [1..f]) = es"
proof -
  have "[1..f] = map (\<lambda>i. int i + 1) [0..<nat f]"
    by (rule nth_equalityI) (simp_all add: nth_upto)
  then have "map (\<lambda>i. take (nat URLsPerFile) (drop (nat ((i - 1) * URLsPerFile)) es)) [1..f]
      = map (\<lambda>i. take 50000 (drop (50000 * i) es)) [0..<nat f]"
    by (simp add: URLsPerFile_def nat_mult_distrib mult.commute)
  moreover have "length es \<le> 50000 * nat f" using assms by (simp add: URLsPerFile_def)
  ultimately show ?thesis by (simp add: concat_slices)
qed

lemma concat_concat_map: "concat (map h (concat (map f xs))) = concat (map (\<lambda>x. concat (map h (f x))) xs)"
  by (induction xs) simp_all

lemma kinds_distinct:
  assumes "distinct (index_kinds g)" "src \<in> set (gn_sources g)"
  shows "sm_StaticPaths (gn_cfg g) \<noteq> [] \<Longrightarrow> so_Kind src \<noteq> ''static''"
    and "src' \<in> set (gn_sources g) \<Longrightarrow> so_Kind src' = so_Kind src \<Longrightarrow> src' = src"
  using assms by (simp_all add: index_kinds_def distinct_map inj_on_def) (metis image_eqI)

text \<open>The locations a crawler reads from a live file.\<close>

lemma fetch_live:
  assumes "mcache.kind_live g t c' k f" "1 \<le> i" "i \<le> f"
    and "\<And>locs. page_locs g k i locs \<Longrightarrow> locs = ls" and "list_all plain_text ls"
  shows "fetch_locs (mcache_view c') (PageName k i) = ls"
proof -
  obtain urls where u: "page_locs g k i (map fst urls)"
    "mcache_view c' (PageName k i) = Some (urlset urls, until t (sm_TTL (gn_cfg g)))"
    using assms(1-3) unfolding mcache.kind_live_def by blast
  have l: "map fst urls = ls" using assms(4) u(1) by blast
  have "list_all (\<lambda>u. plain_text (fst u)) urls" using assms(5) unfolding l [symmetric] by (simp add: list_all_iff)
  then show ?thesis using l u(2) by (simp add: fetch_locs_def read_urlset)
qed

text \<open>What a crawler reads of the static kind, and of a source whose pages are slices.\<close>

lemma plain_append: "plain_text (s @ t) \<longleftrightarrow> plain_text s \<and> plain_text t"
  by (auto simp: plain_text_def)

lemma static_locs:
  assumes "mcache.kind_live g t c' ''static'' f" "distinct (index_kinds g)" "sm_StaticPaths (gn_cfg g) \<noteq> []"
    and "plain_text (sm_BaseURL (gn_cfg g))" "\<forall>p\<in>set (sm_StaticPaths (gn_cfg g)). plain_text p"
  shows "concat (map (\<lambda>i. fetch_locs (mcache_view c') (PageName ''static'' i)) [1..f])
    = map (\<lambda>p. sm_BaseURL (gn_cfg g) @ p) (sm_StaticPaths (gn_cfg g))"
proof -
  let ?ls = "map (\<lambda>p. sm_BaseURL (gn_cfg g) @ p) (sm_StaticPaths (gn_cfg g))"
  have only: "so_Kind src \<noteq> ''static''" if "src \<in> set (gn_sources g)" for src
    using kinds_distinct(1) [OF assms(2) that assms(3)] .
  have f: "f = 1" using assms(1) only by (auto simp: mcache.kind_live_def page_number_def)
  have "fetch_locs (mcache_view c') (PageName ''static'' 1) = ?ls"
  proof (rule fetch_live [OF assms(1)])
    show "ls = ?ls" if "page_locs g ''static'' 1 ls" for ls
      using that only by (auto simp: page_locs_def)
    show "list_all plain_text ?ls" using assms(4,5) by (auto simp: list_all_iff plain_append)
  qed (simp_all add: f)
  then show ?thesis by (simp add: f)
qed

lemma source_locs:
  assumes "mcache.kind_live g t c' (so_Kind src) f" "distinct (index_kinds g)" "src \<in> set (gn_sources g)"
    and "so_Count src = Inr (int (length es))" "so_Page src = slice es" "\<forall>e\<in>set es. plain_text (en_Loc e)"
  shows "concat (map (\<lambda>i. fetch_locs (mcache_view c') (PageName (so_Kind src) i)) [1..f]) = map en_Loc es"
proof -
  have self: "src' = src" if "src' \<in> set (gn_sources g)" "so_Kind src' = so_Kind src" for src'
    using kinds_distinct(2) [OF assms(2,3) that] .
  have nost: "\<not> (so_Kind src = ''static'' \<and> sm_StaticPaths (gn_cfg g) \<noteq> [])"
    using kinds_distinct(1) [OF assms(2,3)] by blast
  have "0 \<le> f" "page_number g (so_Kind src) f" using assms(1) by (simp_all add: mcache.kind_live_def)
  moreover obtain src' n where "src' \<in> set (gn_sources g)" "so_Kind src' = so_Kind src" "so_Count src' = Inr n" "n \<le> f * URLsPerFile"
    using calculation(2) nost unfolding page_number_def by blast
  moreover from this self have "src' = src" by blast
  ultimately have f: "0 \<le> f" "int (length es) \<le> f * URLsPerFile" using assms(4) by simp_all
  let ?part = "\<lambda>i. take (nat URLsPerFile) (drop (nat ((i - 1) * URLsPerFile)) es)"
  have part: "fetch_locs (mcache_view c') (PageName (so_Kind src) i) = map en_Loc (?part i)" if i: "1 \<le> i" "i \<le> f" for i
  proof (rule fetch_live [OF assms(1) i])
    show "ls = map en_Loc (?part i)" if "page_locs g (so_Kind src) i ls" for ls
    proof -
      obtain src' page where p: "src' \<in> set (gn_sources g)" "so_Kind src' = so_Kind src"
        "so_Page src' URLsPerFile ((i - 1) * URLsPerFile) = Inr page" "ls = map en_Loc page"
        using \<open>page_locs g (so_Kind src) i ls\<close> nost unfolding page_locs_def by blast
      then have "src' = src" using self by blast
      then show ?thesis using p(3,4) assms(5) by (simp add: slice_def)
    qed
    show "list_all plain_text (map en_Loc (?part i))"
      using assms(6) by (auto simp: list_all_iff dest: in_set_takeD in_set_dropD)
  qed
  have "concat (map (\<lambda>i. fetch_locs (mcache_view c') (PageName (so_Kind src) i)) [1..f]) = concat (map (\<lambda>i. map en_Loc (?part i)) [1..f])"
    using part by (intro arg_cong [of _ _ concat] map_cong) auto
  also have "\<dots> = map en_Loc (concat (map ?part [1..f]))" by (simp add: map_concat comp_def)
  also have "\<dots> = map en_Loc es" using pages_of_slices [OF f] by simp
  finally show ?thesis .
qed

text \<open>
  C32. A crawler finds exactly what the site publishes. On the in-memory cache, for kinds whose names
  cannot collide and sources whose pages are the slices of their list of entries, after \<open>Generate\<close>
  reports success a crawler that starts from the index collects the static paths and then every
  entry of every source, in order, none left out and none twice.
\<close>

theorem crawler_finds_every_url:
  assumes "Generate now g c = ((res, None), c')" and "gn_cache g = MemCache" and "mcache_inv c" "0 < mk_now c"
    and "distinct (index_kinds g)" and "\<forall>k\<in>set (index_kinds g). kind_ok k \<and> plain_text k"
    and "plain_text (sm_BaseURL (gn_cfg g))" and "\<forall>p\<in>set (sm_StaticPaths (gn_cfg g)). plain_text p"
    and "\<forall>src\<in>set (gn_sources g). so_Count src = Inr (int (length (entries src))) \<and> so_Page src = slice (entries src)
      \<and> int (length (entries src)) < 2 ^ 63 \<and> (\<forall>e\<in>set (entries src). plain_text (en_Loc e))"
  shows "crawl (mcache_view c') (sm_BaseURL (gn_cfg g))
    = map (\<lambda>p. sm_BaseURL (gn_cfg g) @ p) (sm_StaticPaths (gn_cfg g)) @ concat (map (\<lambda>src. map en_Loc (entries src)) (gn_sources g))"
proof -
  let ?base = "sm_BaseURL (gn_cfg g)" and ?ks = "index_kinds g"
  define locs where "locs = (\<lambda>k i. fetch_locs (mcache_view c') (PageName k i))"
  have counts: "\<forall>src\<in>set (gn_sources g). \<forall>n. so_Count src = Inr n \<longrightarrow> n < 2 ^ 63" using assms(9) by auto
  from index_readable [OF assms(1-7) counts refl]
  have pub: "mcache.published g (mk_now c) c' res ?ks"
    and idx: "fetch_locs (mcache_view c') ''index''
      = map fst (concat (map (\<lambda>k. index_entries g (formatLastmod now) k (files_of res k)) ?ks))"
    by (simp_all add: fetch_locs_def)
  have crawl: "crawl (mcache_view c') ?base = concat (map (\<lambda>k. concat (map (locs k) [1..files_of res k])) ?ks)"
    unfolding crawl_def idx index_entries_def
    by (simp only: map_concat [of fst] concat_concat_map map_map comp_def file_key_of locs_def fst_conv option.case)
  have live: "mcache.kind_live g (mk_now c) c' k (files_of res k)" if "k \<in> set ?ks" for k
    using pub that by (simp add: mcache.published_def)
  have static: "concat (map (locs ''static'') [1..files_of res ''static'']) = map (\<lambda>p. ?base @ p) (sm_StaticPaths (gn_cfg g))"
    if "sm_StaticPaths (gn_cfg g) \<noteq> []"
    unfolding locs_def using that live [of "''static''"]
    by (intro static_locs [OF _ assms(5) _ assms(7,8)]) (simp_all add: index_kinds_def)
  have source: "concat (map (locs (so_Kind src)) [1..files_of res (so_Kind src)]) = map en_Loc (entries src)"
    if "src \<in> set (gn_sources g)" for src
    unfolding locs_def using that live [of "so_Kind src"] assms(9)
    by (intro source_locs [OF _ assms(5)]) (simp_all add: index_kinds_def)
  have "concat (map (\<lambda>k. concat (map (locs k) [1..files_of res k])) (map so_Kind (gn_sources g)))
      = concat (map (\<lambda>src. map en_Loc (entries src)) (gn_sources g))"
    unfolding map_map comp_def using source by (intro arg_cong [of _ _ concat] map_cong) simp_all
  moreover have "concat (map (\<lambda>k. concat (map (locs k) [1..files_of res k])) (if sm_StaticPaths (gn_cfg g) \<noteq> [] then [''static''] else []))
      = map (\<lambda>p. ?base @ p) (sm_StaticPaths (gn_cfg g))"
    using static by simp
  ultimately show ?thesis
    unfolding crawl index_kinds_def map_append concat_append by (simp only:)
qed

theorem crawler_finds_every_url_witness:
  "\<exists>res c'. Generate 7 (ex_gen [ex_source [\<lparr>en_Loc = ''https://x/a?p=1&q=2'', en_Lastmod = 0\<rparr>, \<lparr>en_Loc = ''https://x/b'', en_Lastmod = 0\<rparr>]])
       (mcache_New 5) = ((res, None), c')
     \<and> crawl (mcache_view c') ''https://x'' = [''https://x/'', ''https://x/a?p=1&q=2'', ''https://x/b'']"
proof -
  let ?es = "[\<lparr>en_Loc = ''https://x/a?p=1&q=2'', en_Lastmod = 0\<rparr>, \<lparr>en_Loc = ''https://x/b'', en_Lastmod = 0\<rparr>]"
  let ?g = "ex_gen [ex_source ?es]"
  obtain res e c' where run: "Generate 7 ?g (mcache_New 5) = ((res, e), c')" by (metis prod.collapse)
  have "e = None" using mcache.Generate_effect [OF _ _ _ _ _ _ run] by auto
  with run have run: "Generate 7 ?g (mcache_New 5) = ((res, None), c')" by simp
  have page: "so_Page (ex_source ?es) = slice ?es" by (simp add: ex_source_def slice_def fun_eq_iff)
  have plain: "plain_text ''https://x/a?p=1&q=2''" "plain_text ''https://x/b''" "plain_text ''/''" by code_simp+
  have srcs: "gn_sources ?g = [ex_source ?es]" "sm_StaticPaths (gn_cfg ?g) = [''/'']" by (simp_all add: ex_gen_def)
  have "crawl (mcache_view c') (sm_BaseURL (gn_cfg ?g))
    = map (\<lambda>p. sm_BaseURL (gn_cfg ?g) @ p) (sm_StaticPaths (gn_cfg ?g)) @ concat (map (\<lambda>src. map en_Loc ?es) (gn_sources ?g))"
    by (rule crawler_finds_every_url [OF run, where entries = "\<lambda>_. ?es"]) (simp_all add: srcs page plain)
  with run show ?thesis by (simp add: srcs)
qed

end
