(* ===== verification/GoStrings.thy ===== *)
theory GoStrings
  imports GoNum
begin

text \<open>
  More of Go's \<open>strings\<close> package: suffixes, replacement of all occurrences of a nonempty string,
  splitting at a byte. \<open>single_spaced\<close> is what repeated replacement of two blanks by one ends in.
\<close>

definition HasSuffix :: "string \<Rightarrow> string \<Rightarrow> bool" where
  "HasSuffix s p \<longleftrightarrow> suffix p s"

definition TrimSuffix :: "string \<Rightarrow> string \<Rightarrow> string" where
  "TrimSuffix s p = (if suffix p s then take (length s - length p) s else s)"

text \<open>\<open>strings.ReplaceAll\<close> for a nonempty old string (the code replaces no empty one).\<close>

function ReplaceAll :: "string \<Rightarrow> string \<Rightarrow> string \<Rightarrow> string" where
  "ReplaceAll p q [] = []"
| "ReplaceAll p q (c # s) =
     (if p \<noteq> [] \<and> prefix p (c # s) then q @ ReplaceAll p q (drop (length p) (c # s))
      else c # ReplaceAll p q s)"
  by pat_completeness auto
termination by (relation "measure (\<lambda>(p, q, s). length s)") auto

text \<open>\<open>strings.Split\<close> at a one-byte separator.\<close>

fun Split :: "char \<Rightarrow> string \<Rightarrow> string list" where
  "Split x [] = [[]]"
| "Split x (c # s) = (if c = x then [] # Split x s else (c # hd (Split x s)) # tl (Split x s))"

lemma Split_nonempty [simp]: "Split x s \<noteq> []"
  by (cases s) auto

lemma Split_eval [code]:
  "Split x [] = [[]]"
  "Split x (c # s) = (case Split x s of l # ls \<Rightarrow> if c = x then [] # l # ls else (c # l) # ls)"
  by (auto split: list.split)

lemma Split_line [simp]: "x \<notin> set l \<Longrightarrow> Split x (l @ x # s) = l # Split x s"
  by (induction l) auto

lemma ReplaceAll_length_le: "length q \<le> length p \<Longrightarrow> length (ReplaceAll p q s) \<le> length s"
proof (induction p q s rule: ReplaceAll.induct)
  case (2 p q c s)
  show ?case
  proof (cases "p \<noteq> [] \<and> prefix p (c # s)")
    case True
    with 2 have "length (ReplaceAll p q (drop (length p) (c # s))) \<le> length (c # s) - length p" by simp
    moreover have "length p \<le> length (c # s)" using True by (blast intro: prefix_length_le)
    ultimately show ?thesis using True 2(3) by simp
  next
    case False
    with 2 show ?thesis by auto
  qed
qed simp

lemma ReplaceAll_shrinks:
  "contains_str s p \<Longrightarrow> p \<noteq> [] \<Longrightarrow> length q < length p \<Longrightarrow> length (ReplaceAll p q s) < length s"
proof (induction p q s rule: ReplaceAll.induct)
  case (2 p q c s)
  show ?case
  proof (cases "prefix p (c # s)")
    case True
    have "length (ReplaceAll p q (drop (length p) (c # s))) \<le> length (c # s) - length p"
      using ReplaceAll_length_le [of q p "drop (length p) (c # s)"] 2(5) by simp
    moreover have "length p \<le> length (c # s)" using True by (blast intro: prefix_length_le)
    ultimately show ?thesis using True 2(4,5) by simp
  next
    case False
    with 2 show ?thesis by auto
  qed
qed simp

lemma ReplaceAll_char:
  "ReplaceAll [x] [y] s = map (\<lambda>c. if c = x then y else c) s"
  by (induction s) auto

text \<open>Replace two blanks by one until there are no two blanks in a row.\<close>

function single_spaced :: "string \<Rightarrow> string" where
  "single_spaced s = (if contains_str s ''  '' then single_spaced (ReplaceAll ''  '' '' '' s) else s)"
  by pat_completeness auto
termination by (relation "measure length") (auto intro: ReplaceAll_shrinks)

declare single_spaced.simps [simp del]

lemma single_spaced_done: "\<not> contains_str (single_spaced s) ''  ''"
  by (induction s rule: single_spaced.induct) (simp add: single_spaced.simps)

lemma ReplaceAll_chars: "set (ReplaceAll p q s) \<subseteq> set s \<union> set q"
proof (induction p q s rule: ReplaceAll.induct)
  case (2 p q c s)
  then show ?case using set_drop_subset [of "length p" "c # s"] by (auto split: if_splits)
qed simp

lemma single_spaced_chars: "set (single_spaced s) \<subseteq> set s \<union> {CHR '' ''}"
proof (induction s rule: single_spaced.induct)
  case (1 s)
  then show ?case using ReplaceAll_chars [of "''  ''" "'' ''" s]
    by (cases "contains_str s ''  ''") (auto simp: single_spaced.simps [of s])
qed

lemma contains_str_take: "contains_str (take n s) p \<Longrightarrow> contains_str s p"
proof (induction s arbitrary: n)
  case (Cons c s)
  show ?case
  proof (cases n)
    case 0
    with Cons.prems show ?thesis by simp
  next
    case (Suc m)
    with Cons.prems consider "prefix p (take n (c # s))" | "contains_str (take m s) p" by auto
    then show ?thesis
    proof cases
      case 1
      then have "prefix p (c # s)" using take_is_prefix prefix_order.trans by blast
      then show ?thesis by simp
    next
      case 2
      with Cons.IH show ?thesis by simp
    qed
  qed
qed simp

section \<open>Slash-separated paths\<close>

fun intercalate :: "string \<Rightarrow> string list \<Rightarrow> string" where
  "intercalate x [] = []"
| "intercalate x [s] = s"
| "intercalate x (s # t # ts) = s @ x @ intercalate x (t # ts)"

text \<open>
  \<open>filepath.Clean\<close> on Unix: empty and \<open>.\<close> elements go, an inner \<open>..\<close> takes the element before it
  away, a leading one stays unless the path is rooted.
\<close>

definition clean_step :: "bool \<Rightarrow> string list \<Rightarrow> string \<Rightarrow> string list" where
  "clean_step rooted out e =
     (if e = [] \<or> e = ''.'' then out
      else if e = ''..'' then
        (if out \<noteq> [] \<and> last out \<noteq> ''..'' then butlast out else if rooted then out else out @ [e])
      else out @ [e])"

definition filepath_Clean :: "string \<Rightarrow> string" where
  "filepath_Clean p =
     (let rooted = HasPrefix p ''/'';
          out = (if rooted then ''/'' else []) @ intercalate ''/'' (foldl (clean_step rooted) [] (Split (CHR ''/'') p))
      in if out = [] then ''.'' else out)"

definition filepath_Join :: "string \<Rightarrow> string \<Rightarrow> string" where
  "filepath_Join a b =
     (if a = [] \<and> b = [] then [] else filepath_Clean (intercalate ''/'' (filter (\<lambda>s. s \<noteq> []) [a, b])))"

end
