(* ===== verification/LintSql.thy ===== *)
theory LintSql
  imports GoStrings
begin

text \<open>
  The SQL linter (scripts/lint-sql/main.go): the syntax trees it walks, the classification of
  query arguments, the set of static names of a file, the walk over the directory tree, and the
  baseline file. The parser is the standard library's \<open>go/parser\<close>: a parameter that gives the tree of
  a file, or nothing when the file does not parse. Names of operators and declarations that the code
  does not tell apart share one constructor.
\<close>

section \<open>Syntax trees\<close>

datatype token = TK_STRING | TK_ADD | TK_CONST | TK_VAR | OtherToken string

text \<open>Every node has its start and its end; a node of any other kind has its children in the order of
  \<open>ast.Walk\<close>.\<close>

datatype expr =
    BasicLit int int token string
  | Ident int int string
  | BinaryExpr int int expr token expr
  | SelectorExpr int int expr string
  | StarExpr int int expr
  | ParenExpr int int expr
  | CallExpr int int expr "expr list"
  | OtherNode int int "expr list"

datatype spec = ValueSpec "string list" "expr list" | OtherSpec

record func_decl =
  fd_Name :: string
  fd_Recv :: "expr list"
  fd_Node :: expr

datatype decl = GenDecl token "spec list" | FuncDecl func_decl

record source_file =
  sf_Comments :: "(int \<times> string) list"
  sf_Decls :: "decl list"
  sf_Line :: "int \<Rightarrow> int"

fun Pos :: "expr \<Rightarrow> int" where
  "Pos (BasicLit a b _ _) = a" | "Pos (Ident a b _) = a" | "Pos (BinaryExpr a b _ _ _) = a"
| "Pos (SelectorExpr a b _ _) = a" | "Pos (StarExpr a b _) = a" | "Pos (ParenExpr a b _) = a"
| "Pos (CallExpr a b _ _) = a" | "Pos (OtherNode a b _) = a"

fun End :: "expr \<Rightarrow> int" where
  "End (BasicLit a b _ _) = b" | "End (Ident a b _) = b" | "End (BinaryExpr a b _ _ _) = b"
| "End (SelectorExpr a b _ _) = b" | "End (StarExpr a b _) = b" | "End (ParenExpr a b _) = b"
| "End (CallExpr a b _ _) = b" | "End (OtherNode a b _) = b"

text \<open>The nodes \<open>ast.Inspect\<close> visits, in its order, when the callback always continues.\<close>

fun Inspect :: "expr \<Rightarrow> expr list" where
  "Inspect (BasicLit a b k t) = [BasicLit a b k t]"
| "Inspect (Ident a b x) = [Ident a b x]"
| "Inspect (BinaryExpr a b x op y) = BinaryExpr a b x op y # Inspect x @ Inspect y"
| "Inspect (SelectorExpr a b x sel) = SelectorExpr a b x sel # Inspect x"
| "Inspect (StarExpr a b x) = StarExpr a b x # Inspect x"
| "Inspect (ParenExpr a b x) = ParenExpr a b x # Inspect x"
| "Inspect (CallExpr a b f args) = CallExpr a b f args # Inspect f @ concat (map Inspect args)"
| "Inspect (OtherNode a b ns) = OtherNode a b ns # concat (map Inspect ns)"

section \<open>Classification\<close>

definition dbMethods :: "string list" where
  "dbMethods = [''Exec'', ''ExecContext'', ''QueryContext'', ''QueryRowContext'', ''GetContext'',
     ''SelectContext'', ''NamedExec'', ''NamedExecContext'', ''NamedQuery'', ''PrepareContext'',
     ''PrepareNamed'', ''MustExec'']"

record finding =
  f_file :: string
  f_line :: int
  f_funcName :: string
  f_method :: string
  f_reason :: string
  f_snippet :: string

definition f_id :: "finding \<Rightarrow> string" where
  "f_id f = f_file f @ ''|'' @ f_funcName f @ ''|'' @ f_method f @ ''|'' @ f_reason f"

definition funcDeclName :: "func_decl \<Rightarrow> string" where
  "funcDeclName fd =
     (let recvName = (case fd_Recv fd of
                        [] \<Rightarrow> []
                      | Ident _ _ x # _ \<Rightarrow> x
                      | StarExpr _ _ (Ident _ _ x) # _ \<Rightarrow> ''*'' @ x
                      | _ \<Rightarrow> [])
      in if recvName = [] then fd_Name fd else recvName @ ''.'' @ fd_Name fd)"

text \<open>The name of a call \<open>fmt.Sprint...\<close>.\<close>

fun fmt_Sprint :: "expr \<Rightarrow> string option" where
  "fmt_Sprint (SelectorExpr _ _ (Ident _ _ x) sel) = (if x = ''fmt'' \<and> HasPrefix sel ''Sprint'' then Some sel else None)"
| "fmt_Sprint _ = None"

fun exprIsLikelyString :: "expr \<Rightarrow> bool" where
  "exprIsLikelyString (BasicLit _ _ k _) = (k = TK_STRING)"
| "exprIsLikelyString (BinaryExpr _ _ _ op _) = (op = TK_ADD)"
| "exprIsLikelyString (CallExpr _ _ f _) = (fmt_Sprint f \<noteq> None)"
| "exprIsLikelyString _ = False"

fun pureLiteralConcat :: "expr \<Rightarrow> string set \<Rightarrow> bool" where
  "pureLiteralConcat (BasicLit _ _ k _) S = (k = TK_STRING)"
| "pureLiteralConcat (Ident _ _ x) S = (x \<in> S)"
| "pureLiteralConcat (BinaryExpr _ _ x op y) S = (op = TK_ADD \<and> pureLiteralConcat x S \<and> pureLiteralConcat y S)"
| "pureLiteralConcat _ S = False"

fun isStaticString :: "expr \<Rightarrow> string set \<Rightarrow> bool" where
  "isStaticString (BasicLit _ _ k _) S = (k = TK_STRING)"
| "isStaticString (Ident _ _ x) S = (x \<in> S)"
| "isStaticString (BinaryExpr _ _ x op y) S = (op = TK_ADD \<and> isStaticString x S \<and> isStaticString y S)"
| "isStaticString _ S = False"

definition ellipsis :: string where
  "ellipsis = [CHR 0xE2, CHR 0x80, CHR 0xA6]"

definition srcRange :: "bytes \<Rightarrow> int \<Rightarrow> int \<Rightarrow> string" where
  "srcRange src lo hi =
     (let a = lo - 1; b = hi - 1
      in if a < 0 \<or> b > int (length src) \<or> a \<ge> b then []
         else let s = drop (nat a) (take (nat b) src);
                  s = ReplaceAll [CHR 0x0A] '' '' s;
                  s = ReplaceAll [CHR 0x09] '' '' s;
                  s = single_spaced s
              in if length s > 160 then take 160 s @ ellipsis else s)"

definition concat_reason :: string where
  "concat_reason = ''string concat ('' @ [CHR 0x60] @ ''+'' @ [CHR 0x60] @ '') used to build SQL''"

fun classifyArg :: "expr \<Rightarrow> bytes \<Rightarrow> string set \<Rightarrow> (string \<times> string) option" where
  "classifyArg (BinaryExpr a b x op y) src S =
     (if op = TK_ADD \<and> \<not> pureLiteralConcat (BinaryExpr a b x op y) S
      then Some (concat_reason, srcRange src a b) else None)"
| "classifyArg (CallExpr a b f args) src S =
     (case fmt_Sprint f of
        Some sel \<Rightarrow> Some (''fmt.'' @ sel @ '' used to build SQL'', srcRange src a b)
      | None \<Rightarrow> None)"
| "classifyArg _ src S = None"

section \<open>A file\<close>

definition suppressed :: "source_file \<Rightarrow> int set" where
  "suppressed file =
     (\<Union>(p, t) \<in> set (filter (\<lambda>(p, t). contains_str t ''sqllint:allow'') (sf_Comments file)).
        {sf_Line file p, sf_Line file p + 1})"

definition static_names :: "string set \<Rightarrow> (string \<times> expr) list \<Rightarrow> string set" where
  "static_names = foldl (\<lambda>S (x, e). if isStaticString e S then insert x S else S)"

fun spec_values :: "spec \<Rightarrow> (string \<times> expr) list" where
  "spec_values (ValueSpec names vals) = zip names vals"
| "spec_values OtherSpec = []"

fun decl_values :: "decl \<Rightarrow> (string \<times> expr) list" where
  "decl_values (GenDecl tok specs) = (if tok = TK_CONST \<or> tok = TK_VAR then concat (map spec_values specs) else [])"
| "decl_values (FuncDecl fd) = []"

definition staticStrs :: "source_file \<Rightarrow> string set" where
  "staticStrs file = static_names {} (concat (map decl_values (sf_Decls file)))"

fun db_call :: "expr \<Rightarrow> (string \<times> expr list) option" where
  "db_call (CallExpr _ _ (SelectorExpr _ _ _ sel) args) = (if sel \<in> set dbMethods then Some (sel, args) else None)"
| "db_call _ = None"

definition check_node :: "string \<Rightarrow> bytes \<Rightarrow> source_file \<Rightarrow> string \<Rightarrow> expr \<Rightarrow> finding list" where
  "check_node path src file funcName n =
     (case db_call n of
        None \<Rightarrow> []
      | Some (method, args) \<Rightarrow>
          (case find exprIsLikelyString args of
             None \<Rightarrow> []
           | Some sqlArg \<Rightarrow>
               let line = sf_Line file (Pos n)
               in if line \<in> suppressed file then []
                  else case classifyArg sqlArg src (staticStrs file) of
                         None \<Rightarrow> []
                       | Some (reason, snippet) \<Rightarrow>
                           [\<lparr>f_file = path, f_line = line, f_funcName = funcName, f_method = method,
                             f_reason = reason, f_snippet = snippet\<rparr>]))"

fun check_decl :: "string \<Rightarrow> bytes \<Rightarrow> source_file \<Rightarrow> decl \<Rightarrow> finding list" where
  "check_decl path src file (FuncDecl fd) = concat (map (check_node path src file (funcDeclName fd)) (Inspect (fd_Node fd)))"
| "check_decl path src file (GenDecl _ _) = []"

definition scanFile :: "(string \<Rightarrow> bytes \<Rightarrow> source_file option) \<Rightarrow> (string \<Rightarrow> bytes option) \<Rightarrow> string \<Rightarrow> finding list" where
  "scanFile parse read path =
     (case read path of
        None \<Rightarrow> []
      | Some src \<Rightarrow>
          (case parse path src of
             None \<Rightarrow> []
           | Some file \<Rightarrow> concat (map (check_decl path src file) (sf_Decls file))))"

section \<open>The tree and the baseline\<close>

text \<open>
  A file, or a directory with its entries by name, or the error reading them gives. \<open>os_write\<close> is how
  the next \<open>WriteFile\<close> ends: normally, or with an error and some content left in the file.
\<close>

datatype fsnode = FFile string | FDir string "gerr + fsnode list"

fun fs_name :: "fsnode \<Rightarrow> string" where
  "fs_name (FFile x) = x"
| "fs_name (FDir x _) = x"

record os =
  os_tree :: "string \<Rightarrow> gerr + fsnode"
  os_read :: "string \<Rightarrow> bytes option"
  os_mkdir :: "gerr option"
  os_write :: "(gerr \<times> bytes option) option"

definition skip_dirs :: "string list" where
  "skip_dirs = [''vendor'', ''.git'', ''node_modules'']"

definition go_source :: "string \<Rightarrow> bool" where
  "go_source path \<longleftrightarrow> HasSuffix path ''.go'' \<and> \<not> HasSuffix path ''_test.go''"

fun WalkDir :: "(string \<Rightarrow> finding list) \<Rightarrow> string \<Rightarrow> fsnode \<Rightarrow> finding list \<Rightarrow> gerr + finding list"
  and walk_entries :: "(string \<Rightarrow> finding list) \<Rightarrow> string \<Rightarrow> fsnode list \<Rightarrow> finding list \<Rightarrow> gerr + finding list" where
  "WalkDir scan path (FFile x) out = Inr (if go_source path then out @ scan path else out)"
| "WalkDir scan path (FDir x (Inl err)) out = (if x \<in> set skip_dirs then Inr out else Inl err)"
| "WalkDir scan path (FDir x (Inr ns)) out = (if x \<in> set skip_dirs then Inr out else walk_entries scan path ns out)"
| "walk_entries scan path [] out = Inr out"
| "walk_entries scan path (n # ns) out =
     (case WalkDir scan (filepath_Join path (fs_name n)) n out of
        Inl err \<Rightarrow> Inl err
      | Inr out \<Rightarrow> walk_entries scan path ns out)"

definition trim_root :: "string \<Rightarrow> string" where
  "trim_root dir = TrimSuffix (TrimSuffix dir ''/...'') (CHR 0x5C # ''...'')"

fun walk_roots :: "(string \<Rightarrow> finding list) \<Rightarrow> os \<Rightarrow> string list \<Rightarrow> finding list \<Rightarrow> gerr + finding list" where
  "walk_roots scan s [] out = Inr out"
| "walk_roots scan s (dir # roots) out =
     (case os_tree s (trim_root dir) of
        Inl err \<Rightarrow> Inl err
      | Inr n \<Rightarrow>
          (case WalkDir scan (trim_root dir) n out of
             Inl err \<Rightarrow> Inl err
           | Inr out \<Rightarrow> walk_roots scan s roots out))"

abbreviation (input) "LF \<equiv> CHR 0x0A"

definition loadBaseline :: "os \<Rightarrow> string \<Rightarrow> string set" where
  "loadBaseline s path =
     (case os_read s path of
        None \<Rightarrow> {}
      | Some data \<Rightarrow>
          set (filter (\<lambda>line. \<not> (line = [] \<or> HasPrefix line ''#'')) (map TrimSpace (Split LF data))))"

definition baseline_comments :: "string list" where
  "baseline_comments =
     [''# Baseline of known-safe SQL-string-building sites.'',
      ''# Identity = file|enclosing-function|method|reason. Line numbers and'',
      ''# snippets are excluded so refactors don'' @ [CHR 0x27] @ ''t churn this file. Each entry'',
      ''# should be verified safe by code review before being added'',
      ''# (regenerate with --update-baseline).'',
      []]"

definition baseline_head :: string where
  "baseline_head = concat (map (\<lambda>l. l @ [LF]) baseline_comments)"

fun baseline_lines :: "string set \<Rightarrow> finding list \<Rightarrow> string" where
  "baseline_lines seen [] = []"
| "baseline_lines seen (f # fs) =
     (if f_id f \<in> seen then baseline_lines seen fs
      else f_id f @ [LF] @ baseline_lines (insert (f_id f) seen) fs)"

definition writeBaseline :: "string \<Rightarrow> finding list \<Rightarrow> (os, unit) call" where
  "writeBaseline path fs s =
     (case os_mkdir s of
        Some err \<Rightarrow> (Inl err, s)
      | None \<Rightarrow>
          (case os_write s of
             Some (err, left) \<Rightarrow> (Inl err, s\<lparr>os_read := (os_read s)(path := left)\<rparr>)
           | None \<Rightarrow> (Inr (), s\<lparr>os_read := (os_read s)(path \<mapsto> baseline_head @ baseline_lines {} fs)\<rparr>)))"

text \<open>The program: its exit code and what it reports, given its flags and arguments.\<close>

datatype report = WalkError gerr | WriteError gerr | Wrote nat | Known finding | New finding | Failing nat

definition lint_main ::
    "(string \<Rightarrow> bytes \<Rightarrow> source_file option) \<Rightarrow> string \<Rightarrow> bool \<Rightarrow> string list \<Rightarrow> os \<Rightarrow> (int \<times> report list) \<times> os" where
  "lint_main parse baselinePath updateBaseline args s =
     (let roots = (if args = [] then [''./...''] else args)
      in case walk_roots (scanFile parse (os_read s)) s roots [] of
           Inl err \<Rightarrow> ((2, [WalkError err]), s)
         | Inr findings \<Rightarrow>
             if updateBaseline then
               (case writeBaseline baselinePath findings s of
                  (Inl err, s) \<Rightarrow> ((2, [WriteError err]), s)
                | (Inr _, s) \<Rightarrow> ((0, [Wrote (length findings)]), s))
             else
               let known = loadBaseline s baselinePath;
                   newOnes = filter (\<lambda>f. f_id f \<notin> known) findings;
                   lines = map (\<lambda>f. if f_id f \<in> known then Known f else New f) findings
               in if newOnes \<noteq> [] then ((1, lines @ [Failing (length newOnes)]), s)
                  else ((0, lines), s))"

section \<open>What a query argument evaluates to\<close>

text \<open>
  The abstract specification of the linter: \<open>text_of\<close> is the text an argument denotes when the
  function runs. Literals denote what \<open>lit\<close> says, whatever the run; the value of a variable and of
  any expression that is not a concatenation depends on the run. Which argument of a call is its query
  is in the signatures of database/sql and sqlx, \<open>query_index\<close>: after the context of a \<open>Context\<close> method and
  after the destination of \<open>Get\<close> and \<open>Select\<close>. The linter knows neither types nor signatures: it takes the
  first argument that builds a string.
\<close>

record run =
  rt_var :: "string \<Rightarrow> string"
  rt_other :: "expr \<Rightarrow> string"

fun text_of :: "(string \<Rightarrow> string) \<Rightarrow> run \<Rightarrow> expr \<Rightarrow> string" where
  "text_of lit r (BasicLit a b k t) = lit t"
| "text_of lit r (Ident a b x) = rt_var r x"
| "text_of lit r (BinaryExpr a b x op y) =
     (if op = TK_ADD then text_of lit r x @ text_of lit r y else rt_other r (BinaryExpr a b x op y))"
| "text_of lit r (SelectorExpr a b x sel) = rt_other r (SelectorExpr a b x sel)"
| "text_of lit r (StarExpr a b x) = rt_other r (StarExpr a b x)"
| "text_of lit r (ParenExpr a b x) = text_of lit r x"
| "text_of lit r (CallExpr a b f args) = rt_other r (CallExpr a b f args)"
| "text_of lit r (OtherNode a b ns) = rt_other r (OtherNode a b ns)"

definition query_index :: "string \<Rightarrow> nat" where
  "query_index method =
     (if method \<in> {''GetContext'', ''SelectContext''} then 2
      else if method \<in> {''ExecContext'', ''QueryContext'', ''QueryRowContext'', ''NamedExecContext'', ''PrepareContext''} then 1
      else 0)"

text \<open>The names declared at the top of the file have, in the run, the value they were declared with.\<close>

definition keeps_decls :: "(string \<Rightarrow> string) \<Rightarrow> run \<Rightarrow> source_file \<Rightarrow> bool" where
  "keeps_decls lit r file \<longleftrightarrow>
     (\<forall>d\<in>set (sf_Decls file). \<forall>(x, e)\<in>set (decl_values d). rt_var r x = text_of lit r e)"

definition agree :: "run \<Rightarrow> run \<Rightarrow> string set \<Rightarrow> bool" where
  "agree r q S \<longleftrightarrow> (\<forall>x\<in>S. rt_var r x = rt_var q x)"

lemma static_is_pure: "isStaticString e S = pureLiteralConcat e S"
  by (induction e S rule: isStaticString.induct) auto

lemma pure_constant:
  "pureLiteralConcat e S \<Longrightarrow> agree r q S \<Longrightarrow> text_of lit r e = text_of lit q e"
  by (induction e S rule: pureLiteralConcat.induct) (auto simp: agree_def)

lemma static_names_agree:
  assumes "agree r q S" and "\<forall>(x, e)\<in>set vs. rt_var r x = text_of lit r e"
    and "\<forall>(x, e)\<in>set vs. rt_var q x = text_of lit q e"
  shows "agree r q (static_names S vs)"
  using assms
proof (induction vs arbitrary: S)
  case Nil
  then show ?case by (simp add: static_names_def)
next
  case (Cons v vs)
  obtain x e where v: "v = (x, e)" by fastforce
  show ?case
  proof (cases "isStaticString e S")
    case True
    then have "text_of lit r e = text_of lit q e"
      using pure_constant [of e S r q lit] Cons.prems(1) by (simp add: static_is_pure)
    then have "agree r q (insert x S)" using Cons.prems v by (auto simp: agree_def)
    then have "agree r q (static_names (insert x S) vs)" using Cons by auto
    with True v show ?thesis by (simp add: static_names_def)
  next
    case False
    have "agree r q (static_names S vs)" using Cons by auto
    with False v show ?thesis by (simp add: static_names_def)
  qed
qed

lemma staticStrs_agree:
  assumes "keeps_decls lit r file" "keeps_decls lit q file"
  shows "agree r q (staticStrs file)"
  unfolding staticStrs_def
  by (rule static_names_agree [of _ _ _ _ lit]) (use assms in \<open>auto simp: keeps_decls_def agree_def\<close>)

lemma unflagged_constant:
  assumes "exprIsLikelyString e" "classifyArg e src S = None" "agree r q S"
  shows "text_of lit r e = text_of lit q e"
  using assms pure_constant [OF _ assms(3)]
  by (cases e) (auto split: if_splits option.splits)

section \<open>The baseline file\<close>

definition plain_id :: "finding \<Rightarrow> bool" where
  "plain_id f \<longleftrightarrow> LF \<notin> set (f_id f) \<and> TrimSpace (f_id f) = f_id f \<and> \<not> HasPrefix (f_id f) ''#''"

lemma f_id_nonempty [simp]: "f_id f \<noteq> []"
  by (simp add: f_id_def)

lemma Split_baseline_lines:
  "\<forall>f\<in>set fs. LF \<notin> set (f_id f) \<Longrightarrow>
     set (Split LF (baseline_lines seen fs)) = insert [] (f_id ` set fs - seen)"
proof (induction fs arbitrary: seen)
  case (Cons f fs)
  show ?case
  proof (cases "f_id f \<in> seen")
    case True
    with Cons show ?thesis by auto
  next
    case False
    with Cons show ?thesis by auto
  qed
qed simp

lemma Split_lines: "\<forall>l\<in>set ls. x \<notin> set l \<Longrightarrow> Split x (concat (map (\<lambda>l. l @ [x]) ls) @ s) = ls @ Split x s"
  by (induction ls) auto

lemma baseline_comments_plain:
  "\<forall>l\<in>set baseline_comments. LF \<notin> set l \<and> (TrimSpace l = [] \<or> HasPrefix (TrimSpace l) ''#'')"
proof -
  have plain: "list_all (\<lambda>l. LF \<notin> set l \<and> (l = [] \<or> hd l = CHR ''#'' \<and> visible (hd l) \<and> visible (last l))) baseline_comments"
    by code_simp
  have "LF \<notin> set l \<and> (TrimSpace l = [] \<or> HasPrefix (TrimSpace l) ''#'')" if "l \<in> set baseline_comments" for l
  proof (cases "l = []")
    case False
    with plain that have l: "LF \<notin> set l" "hd l = CHR ''#''" "visible (hd l)" "visible (last l)"
      by (auto simp: list_all_iff)
    with False have "TrimSpace l = l" by (intro TrimSpace_visible)
    with l False show ?thesis by (cases l) (simp_all add: HasPrefix_def)
  qed simp
  then show ?thesis by blast
qed

lemma baseline_head_split: "Split LF (baseline_head @ s) = baseline_comments @ Split LF s"
  unfolding baseline_head_def by (rule Split_lines) (use baseline_comments_plain in blast)

lemma load_written:
  assumes "\<forall>f\<in>set fs. plain_id f" "os_read s path = Some (baseline_head @ baseline_lines {} fs)"
  shows "loadBaseline s path = f_id ` set fs"
proof -
  let ?keep = "\<lambda>t. t \<noteq> [] \<and> \<not> HasPrefix t ''#''"
  have "set (Split LF (baseline_lines {} fs)) = insert [] (f_id ` set fs)"
    using assms(1) by (subst Split_baseline_lines) (auto simp: plain_id_def)
  then have "loadBaseline s path = {t \<in> TrimSpace ` (set baseline_comments \<union> insert [] (f_id ` set fs)). ?keep t}"
    unfolding loadBaseline_def assms(2) option.case baseline_head_split by (simp only: set_filter set_map set_append de_Morgan_disj)
  also have "\<dots> = {t \<in> TrimSpace ` f_id ` set fs. ?keep t}"
    using baseline_comments_plain unfolding image_Un image_insert TrimSpace_Nil by blast
  also have "TrimSpace ` f_id ` set fs = f_id ` set fs"
    using assms(1) unfolding plain_id_def image_image by (intro image_cong) auto
  also have "{t \<in> f_id ` set fs. ?keep t} = f_id ` set fs"
    using assms(1) by (auto simp: plain_id_def)
  finally show ?thesis .
qed

section \<open>Properties\<close>

lemma check_node_reported:
  assumes "read path = Some src" "parse path src = Some file"
    and "FuncDecl fd \<in> set (sf_Decls file)" "n \<in> set (Inspect (fd_Node fd))"
  shows "set (check_node path src file (funcDeclName fd) n) \<subseteq> set (scanFile parse read path)"
proof -
  have "set (scanFile parse read path) = (\<Union>d\<in>set (sf_Decls file). set (check_decl path src file d))"
    using assms(1,2) by (simp add: scanFile_def)
  moreover have "set (check_decl path src file (FuncDecl fd)) =
      (\<Union>n\<in>set (Inspect (fd_Node fd)). set (check_node path src file (funcDeclName fd) n))"
    by simp
  ultimately show ?thesis using assms(3,4) by blast
qed

text \<open>
  C10. What the linter passes is constant. Take a call to a query method, in a function of a file the
  linter can read and parse, whose query argument - the one the method's signature says - is a string
  literal, a concatenation or a \<open>fmt.Sprint\<close> call, the context and the destination before it being none of
  these (so the query is what the linter looks at). If the call is on a line that no comment suppresses and
  no finding is reported for it, then in any two runs in which the file's top-level names have their
  declared values the query argument denotes the same text. Nothing is said of queries of other shapes,
  such as a variable or a parenthesised expression: the linter does not look at them (see
  \<open>parenthesised_query_unreported\<close> and \<open>variable_query_unreported\<close> below).
\<close>

theorem unreported_query_is_constant:
  assumes "read path = Some src" and "parse path src = Some file"
    and "FuncDecl fd \<in> set (sf_Decls file)" and "n \<in> set (Inspect (fd_Node fd))"
    and "db_call n = Some (method, args)" and "query_index method < length args"
    and "exprIsLikelyString (args ! query_index method)"
    and "\<forall>i<query_index method. \<not> exprIsLikelyString (args ! i)"
    and "sf_Line file (Pos n) \<notin> suppressed file"
    and "\<forall>f\<in>set (scanFile parse read path).
      \<not> (f_line f = sf_Line file (Pos n) \<and> f_funcName f = funcDeclName fd \<and> f_method f = method)"
    and "keeps_decls lit r file" and "keeps_decls lit q file"
  shows "text_of lit r (args ! query_index method) = text_of lit q (args ! query_index method)"
proof (rule unflagged_constant [OF assms(7) _ staticStrs_agree [OF assms(11,12)]])
  let ?sqlArg = "args ! query_index method"
  have arg: "find exprIsLikelyString args = Some ?sqlArg"
    unfolding find_Some_iff using assms(6-8) by blast
  show "classifyArg ?sqlArg src (staticStrs file) = None"
  proof (rule ccontr)
    assume "classifyArg ?sqlArg src (staticStrs file) \<noteq> None"
    then obtain reason snippet where "classifyArg ?sqlArg src (staticStrs file) = Some (reason, snippet)"
      by (metis not_None_eq surj_pair)
    then have "set (check_node path src file (funcDeclName fd) n) = {\<lparr>f_file = path, f_line = sf_Line file (Pos n),
        f_funcName = funcDeclName fd, f_method = method, f_reason = reason, f_snippet = snippet\<rparr>}"
      using assms(5,9) arg by (simp add: check_node_def Let_def)
    moreover have "set (check_node path src file (funcDeclName fd) n) \<subseteq> set (scanFile parse read path)"
      by (rule check_node_reported [where read = read and parse = parse, OF assms(1-4)])
    ultimately have "\<lparr>f_file = path, f_line = sf_Line file (Pos n), f_funcName = funcDeclName fd,
        f_method = method, f_reason = reason, f_snippet = snippet\<rparr> \<in> set (scanFile parse read path)" by blast
    with assms(10) show False by (metis finding.select_convs(2-4))
  qed
qed

text \<open>
  A file with the declaration \<open>const cols = "id"\<close> and a function that queries with
  \<open>"SELECT " + cols + tail\<close>.
\<close>

definition ex_query :: "expr \<Rightarrow> expr" where
  "ex_query tl_e = CallExpr 30 60 (SelectorExpr 30 35 (Ident 30 32 ''db'') ''Exec'')
     [BinaryExpr 36 59 (BinaryExpr 36 50 (BasicLit 36 44 TK_STRING ''SELECT '') TK_ADD (Ident 46 50 ''cols'')) TK_ADD tl_e]"

definition ex_file :: "expr \<Rightarrow> source_file" where
  "ex_file tl_e =
     \<lparr>sf_Comments = [],
      sf_Decls = [GenDecl TK_CONST [ValueSpec [''cols''] [BasicLit 12 16 TK_STRING ''id'']],
                  FuncDecl \<lparr>fd_Name = ''load'', fd_Recv = [], fd_Node = OtherNode 20 70 [ex_query tl_e]\<rparr>],
      sf_Line = (\<lambda>p. p div 20)\<rparr>"

theorem unreported_query_is_constant_witness:
  "let tl_e = BasicLit 53 59 TK_STRING '' FROM t'';
       r = \<lparr>rt_var = (\<lambda>x. if x = ''cols'' then ''id'' else ''r''), rt_other = (\<lambda>_. ''r'')\<rparr>;
       q = \<lparr>rt_var = (\<lambda>x. if x = ''cols'' then ''id'' else ''q''), rt_other = (\<lambda>_. ''q'')\<rparr>
   in scanFile (\<lambda>_ _. Some (ex_file tl_e)) (\<lambda>_. Some []) ''a.go'' = []
      \<and> scanFile (\<lambda>_ _. Some (ex_file (Ident 53 59 ''input''))) (\<lambda>_. Some []) ''a.go'' \<noteq> []
      \<and> (\<forall>a. db_call (ex_query tl_e) = Some (''Exec'', [a]) \<longrightarrow> text_of (\<lambda>t. t) r a = text_of (\<lambda>t. t) q a)"
proof -
  let ?e = "BasicLit 53 59 TK_STRING '' FROM t''"
  have ok: "scanFile (\<lambda>_ _. Some (ex_file ?e)) (\<lambda>_. Some []) ''a.go'' = []" by code_simp
  have bad: "scanFile (\<lambda>_ _. Some (ex_file (Ident 53 59 ''input''))) (\<lambda>_. Some []) ''a.go'' \<noteq> []" by code_simp
  have pos: "query_index ''Exec'' = 0" by (simp add: query_index_def)
  have "text_of (\<lambda>t. t) r a = text_of (\<lambda>t. t) q a"
    if "db_call (ex_query ?e) = Some (''Exec'', [a])" "rt_var r ''cols'' = ''id''" "rt_var q ''cols'' = ''id''" for a r q
    by (rule unreported_query_is_constant [of "\<lambda>_. Some []" "''a.go''" "[]" "\<lambda>_ _. Some (ex_file ?e)" "ex_file ?e"
          "\<lparr>fd_Name = ''load'', fd_Recv = [], fd_Node = OtherNode 20 70 [ex_query ?e]\<rparr>" "ex_query ?e" "''Exec''" "[a]",
          unfolded pos nth_Cons_0])
      (use that ok in \<open>auto simp: ex_file_def ex_query_def keeps_decls_def suppressed_def dbMethods_def\<close>)
  with ok bad show ?thesis by simp
qed

text \<open>
  What the guarantee leaves out: a query in parentheses or in a variable is not looked at, and a local
  name that hides a static one counts as static.
\<close>

lemma parenthesised_query_unreported:
  "check_node path src file fn (CallExpr a b (SelectorExpr c d x ''Exec'') [ParenExpr e g q]) = []"
  by (simp add: check_node_def)

lemma variable_query_unreported:
  "check_node path src file fn (CallExpr a b (SelectorExpr c d x ''Exec'') [Ident e g q]) = []"
  by (simp add: check_node_def)

lemma hidden_name_unreported:
  "text_of lit \<lparr>rt_var = (\<lambda>_. ''a''), rt_other = f\<rparr> (Ident 46 50 ''cols'')
     \<noteq> text_of lit \<lparr>rt_var = (\<lambda>_. ''b''), rt_other = f\<rparr> (Ident 46 50 ''cols'')"
  "scanFile (\<lambda>_ _. Some (ex_file (Ident 53 59 ''cols''))) (\<lambda>_. Some []) ''a.go'' = []"
  by simp code_simp

lemma walk_cong:
  "\<forall>p. go_source p \<longrightarrow> scan p = scan' p \<Longrightarrow> WalkDir scan path n out = WalkDir scan' path n out"
  "\<forall>p. go_source p \<longrightarrow> scan p = scan' p \<Longrightarrow> walk_entries scan path ns out = walk_entries scan' path ns out"
  by (induction scan path n out and scan path ns out rule: WalkDir_walk_entries.induct) (auto split: sum.splits)

lemma walk_roots_cong:
  "\<forall>p. go_source p \<longrightarrow> scan p = scan' p \<Longrightarrow> os_tree s' = os_tree s \<Longrightarrow>
     walk_roots scan s roots out = walk_roots scan' s' roots out"
proof (induction roots arbitrary: out)
  case (Cons dir roots)
  show ?case unfolding walk_roots.simps Cons.prems(2) walk_cong(1) [OF Cons.prems(1)]
    using Cons by (auto split: sum.splits)
qed simp

lemma scan_other_file: "go_source p \<Longrightarrow> \<not> go_source b \<Longrightarrow> scanFile parse (r(b := x)) p = scanFile parse r p"
  by (auto simp: scanFile_def)

lemma walked_from:
  "WalkDir scan path n out = Inr fs \<Longrightarrow> f \<in> set fs \<Longrightarrow> f \<in> set out \<or> (\<exists>p. go_source p \<and> f \<in> set (scan p))"
  "walk_entries scan path ns out = Inr fs \<Longrightarrow> f \<in> set fs \<Longrightarrow> f \<in> set out \<or> (\<exists>p. go_source p \<and> f \<in> set (scan p))"
  by (induction scan path n out and scan path ns out arbitrary: fs and fs rule: WalkDir_walk_entries.induct)
    (auto split: if_splits sum.splits)

lemma walked:
  "walk_roots scan s roots out = Inr fs \<Longrightarrow> f \<in> set fs \<Longrightarrow> f \<in> set out \<or> (\<exists>p. go_source p \<and> f \<in> set (scan p))"
  by (induction roots arbitrary: out) (auto split: sum.splits dest: walked_from(1))

text \<open>
  C39. Reviewing findings once is enough. A run with \<open>--update-baseline\<close> that exits with 0 records
  every finding: the same tree linted again reports each of them as known, and nothing else, and
  exits with 0. (For findings whose identity is one trimmed line that is no comment, and a
  baseline file that is not itself Go source.)
\<close>

theorem recorded_findings_pass:
  assumes "lint_main parse b True args s = ((0, rep), s')" and "\<not> go_source b"
    and "\<forall>f. (\<exists>p. go_source p \<and> f \<in> set (scanFile parse (os_read s) p)) \<longrightarrow> plain_id f"
  shows "\<exists>fs. rep = [Wrote (length fs)] \<and> lint_main parse b False args s' = ((0, map Known fs), s')"
proof -
  let ?roots = "if args = [] then [''./...''] else args"
  obtain fs where walk: "walk_roots (scanFile parse (os_read s)) s ?roots [] = Inr fs"
    using assms(1) by (auto simp: lint_main_def split: sum.splits if_splits)
  then have rep: "rep = [Wrote (length fs)]" and s': "s' = s\<lparr>os_read := (os_read s)(b \<mapsto> baseline_head @ baseline_lines {} fs)\<rparr>"
    using assms(1) by (auto simp: lint_main_def writeBaseline_def split: option.splits if_splits)
  have "walk_roots (scanFile parse (os_read s')) s' ?roots [] = Inr fs"
    using walk walk_roots_cong [of "scanFile parse (os_read s')" "scanFile parse (os_read s)" s s' ?roots "[]"]
    by (simp add: s' scan_other_file assms(2))
  moreover have "loadBaseline s' b = f_id ` set fs"
    by (rule load_written) (use walked [OF walk] assms(3) s' in auto)
  ultimately have "lint_main parse b False args s' = ((0, map Known fs), s')"
    by (simp add: lint_main_def Let_def cong: map_cong)
  with rep show ?thesis by blast
qed

definition ex_parse :: "string \<Rightarrow> bytes \<Rightarrow> source_file option" where
  "ex_parse path src = (if src = ''query'' then Some (ex_file (Ident 53 59 ''input'')) else None)"

definition ex_os :: os where
  "ex_os = \<lparr>os_tree = (\<lambda>_. Inr (FDir ''.'' (Inr [FFile ''a.go'', FFile ''a_test.go'',
       FDir ''vendor'' (Inr [FFile ''b.go'']), FFile ''c.go'']))),
     os_read = (\<lambda>p. if p = ''a.go'' \<or> p = ''a_test.go'' \<or> p = ''vendor/b.go'' then Some ''query'' else None),
     os_mkdir = None, os_write = None\<rparr>"

lemma ex_os_findings:
  assumes "go_source p" "f \<in> set (scanFile ex_parse (os_read ex_os) p)"
  shows "f_id f = p @ ''|load|Exec|'' @ concat_reason" "p = ''a.go'' \<or> p = ''vendor/b.go''"
proof -
  have "p = ''a.go'' \<or> p = ''vendor/b.go''"
  proof (rule ccontr)
    assume p: "\<not> (p = ''a.go'' \<or> p = ''vendor/b.go'')"
    have "\<not> go_source ''a_test.go''" by code_simp
    with p assms(1) have "os_read ex_os p = None" by (auto simp: ex_os_def)
    with assms(2) show False by (simp add: scanFile_def)
  qed
  moreover have "map f_id (scanFile ex_parse (os_read ex_os) ''a.go'') = [''a.go|load|Exec|'' @ concat_reason]"
    "map f_id (scanFile ex_parse (os_read ex_os) ''vendor/b.go'') = [''vendor/b.go|load|Exec|'' @ concat_reason]"
    by code_simp+
  ultimately show "f_id f = p @ ''|load|Exec|'' @ concat_reason" "p = ''a.go'' \<or> p = ''vendor/b.go''"
    using assms(2) by auto
qed

theorem recorded_findings_pass_witness:
  "fst (fst (lint_main ex_parse ''base.txt'' False [] ex_os)) = 1
     \<and> (\<exists>f. fst (lint_main ex_parse ''base.txt'' False [] (snd (lint_main ex_parse ''base.txt'' True [] ex_os))) = (0, [Known f]))"
proof -
  have ids: "plain_id f" if "go_source p" "f \<in> set (scanFile ex_parse (os_read ex_os) p)" for f p
  proof -
    have "TrimSpace (p @ ''|load|Exec|'' @ concat_reason) = p @ ''|load|Exec|'' @ concat_reason"
      using ex_os_findings(2) [OF that] by (intro TrimSpace_visible) (auto simp: visible_def concat_reason_def)
    then show ?thesis using ex_os_findings [OF that] by (auto simp: plain_id_def concat_reason_def HasPrefix_def)
  qed
  obtain s' where run: "lint_main ex_parse ''base.txt'' True [] ex_os = ((0, [Wrote 1]), s')"
  proof -
    have "fst (lint_main ex_parse ''base.txt'' True [] ex_os) = (0, [Wrote 1])" by code_simp
    with that show ?thesis by (metis prod.collapse)
  qed
  have "\<not> go_source ''base.txt''" by code_simp
  moreover have "\<forall>f. (\<exists>p. go_source p \<and> f \<in> set (scanFile ex_parse (os_read ex_os) p)) \<longrightarrow> plain_id f"
    using ids by blast
  ultimately have "\<exists>fs. [Wrote 1] = [Wrote (length fs)] \<and> lint_main ex_parse ''base.txt'' False [] s' = ((0, map Known fs), s')"
    by (rule recorded_findings_pass [OF run])
  moreover have "fst (fst (lint_main ex_parse ''base.txt'' False [] ex_os)) = 1" by code_simp
  ultimately show ?thesis using run by (auto simp: Suc_length_conv)
qed

lemma contains_blanks_append:
  "s' \<noteq> [] \<Longrightarrow> hd s' \<noteq> CHR '' '' \<Longrightarrow> contains_str (s @ s') ''  '' = (contains_str s ''  '' \<or> contains_str s' ''  '')"
proof (induction s)
  case (Cons c s)
  have "prefix ''  '' (c # s @ s') = prefix ''  '' (c # s)"
    using Cons.prems by (cases s; cases s') auto
  with Cons show ?case by simp
qed simp

text \<open>
  The snippet of a finding is one line: whatever the positions, \<open>srcRange\<close> ends, and returns at
  most 160 bytes and the ellipsis, without line breaks, tabs or two blanks in a row.
\<close>

theorem snippet_is_one_line:
  "length (srcRange src lo hi) \<le> 163 \<and> LF \<notin> set (srcRange src lo hi) \<and> CHR 0x09 \<notin> set (srcRange src lo hi)
    \<and> \<not> contains_str (srcRange src lo hi) ''  ''"
proof (cases "lo - 1 < 0 \<or> hi - 1 > int (length src) \<or> lo - 1 \<ge> hi - 1")
  case True
  then show ?thesis by (simp add: srcRange_def Let_def)
next
  case False
  let ?s = "drop (nat (lo - 1)) (take (nat (hi - 1)) src)"
  let ?t = "ReplaceAll [CHR 0x09] '' '' (ReplaceAll [LF] '' '' ?s)"
  let ?u = "single_spaced ?t"
  have r: "srcRange src lo hi = (if length ?u > 160 then take 160 ?u @ ellipsis else ?u)"
    using False by (simp add: srcRange_def Let_def)
  have "LF \<notin> set ?t" "CHR 0x09 \<notin> set ?t" by (auto simp: ReplaceAll_char)
  with single_spaced_chars [of ?t] have chars: "LF \<notin> set ?u" "CHR 0x09 \<notin> set ?u" by auto
  have two: "\<not> contains_str ?u ''  ''" "\<not> contains_str (take 160 ?u) ''  ''"
    using single_spaced_done [of ?t] contains_str_take [of 160 ?u "''  ''"] by auto
  then show ?thesis using chars unfolding r
    by (auto simp: ellipsis_def contains_blanks_append dest: in_set_takeD)
qed

end
