(* ===== verification/Jobtrigger.thy ===== *)
theory Jobtrigger
  imports Pg "HOL-Library.Multiset"
begin

text \<open>
  jobtrigger/: the run-now queue. The store interface as a record of operations, the in-memory
  queue (mock.go), the Postgres queue (pgstore.go) and the poller. The locale \<open>job_queue\<close> is what the
  poller relies on, \<open>sure_queue\<close> a queue that always answers; both stores interpret both.
  A fleet is several pollers over one queue.
\<close>

section \<open>The queue and its poller\<close>

record 's jobtrigger_ops =
  jt_Request :: "string \<Rightarrow> ('s, unit) call"
  jt_Claim :: "int \<Rightarrow> ('s, string list) call"

text \<open>
  What a poller on a worker meets, in order: the context is done, a tick of its ticker, a request
  for a job by another process, or anything else that happens to the store. \<open>StartPoller\<close> gives the
  names passed to \<open>run\<close>.
\<close>

datatype 's poll_event = CtxDone | Tick | Requested string | Elsewhere "'s \<Rightarrow> 's"

fun StartPoller :: "'s jobtrigger_ops \<Rightarrow> 's poll_event list \<Rightarrow> 's \<Rightarrow> string list \<times> 's" where
  "StartPoller Q [] s = ([], s)"
| "StartPoller Q (CtxDone # es) s = ([], s)"
| "StartPoller Q (Tick # es) s =
     (case jt_Claim Q 32 s of
        (Inl err, s) \<Rightarrow> StartPoller Q es s
      | (Inr names, s) \<Rightarrow> (case StartPoller Q es s of (started, s) \<Rightarrow> (names @ started, s)))"
| "StartPoller Q (Requested n # es) s = StartPoller Q es (snd (jt_Request Q n s))"
| "StartPoller Q (Elsewhere f # es) s = StartPoller Q es (f s)"

section \<open>The in-memory queue\<close>

record mock_queue =
  q_pending :: "string list"

definition mock_Request :: "string \<Rightarrow> (mock_queue, unit) call" where
  "mock_Request jobName m =
     (if jobName \<in> set (q_pending m) then (Inr (), m)
      else (Inr (), m\<lparr>q_pending := q_pending m @ [jobName]\<rparr>))"

definition mock_Claim :: "int \<Rightarrow> (mock_queue, string list) call" where
  "mock_Claim limit m =
     (let limit = (if limit \<le> 0 \<or> limit > int (length (q_pending m)) then int (length (q_pending m)) else limit)
      in (Inr (take (nat limit) (q_pending m)), m\<lparr>q_pending := drop (nat limit) (q_pending m)\<rparr>))"

definition MockQueue :: "mock_queue jobtrigger_ops" where
  "MockQueue = \<lparr>jt_Request = mock_Request, jt_Claim = mock_Claim\<rparr>"

section \<open>The Postgres queue\<close>

record trigger_row =
  tr_id :: int
  tr_job_name :: string
  tr_requested_at :: time

type_synonym triggers_db = "trigger_row pg"

definition trigger_Request :: "string \<Rightarrow> (triggers_db, unit) call" where
  "trigger_Request jobName = stmt (\<lambda>db.
     let row = \<lparr>tr_id = pg_next db, tr_job_name = jobName, tr_requested_at = pg_now db\<rparr>
     in if jobName \<in> tr_job_name ` set (pg_rows db) then (Inr (), db\<lparr>pg_next := pg_next db + 1\<rparr>)
        else (Inr (), db\<lparr>pg_rows := pg_rows db @ [row], pg_next := pg_next db + 1\<rparr>))"

text \<open>
  \<open>held\<close> are the ids of the rows other transactions have locked when the statement runs. The rows
  are deleted, and so returned, in the order the table is scanned.
\<close>

definition oldest_unlocked :: "int set \<Rightarrow> int \<Rightarrow> triggers_db \<Rightarrow> int list" where
  "oldest_unlocked held limit db =
     map tr_id (take (nat limit) (filter (\<lambda>r. tr_id r \<notin> held) (sort_key tr_requested_at (pg_scan db))))"

definition trigger_Claim :: "(triggers_db \<Rightarrow> int set) \<Rightarrow> int \<Rightarrow> (triggers_db, string list) call" where
  "trigger_Claim held limit =
     (let limit = (if limit \<le> 0 then 32 else limit)
      in stmt (\<lambda>db.
        let ids = oldest_unlocked (held db) limit db
        in (Inr (map tr_job_name (filter (\<lambda>r. tr_id r \<in> set ids) (pg_scan db))),
            db\<lparr>pg_rows := filter (\<lambda>r. tr_id r \<notin> set ids) (pg_rows db)\<rparr>)))"

definition PGQueue :: "(triggers_db \<Rightarrow> int set) \<Rightarrow> triggers_db jobtrigger_ops" where
  "PGQueue held = \<lparr>jt_Request = trigger_Request, jt_Claim = trigger_Claim held\<rparr>"

section \<open>The contract of a queue\<close>

lemma distinct_count: "distinct xs \<Longrightarrow> count_list xs x = (if x \<in> set xs then 1 else 0)"
  by (induction xs) auto

text \<open>
  \<open>pend\<close> are the jobs with a pending request. A request whose reply is an error may or may not be
  pending; a claim whose reply is an error may have removed requests.
\<close>

locale job_queue =
  fixes Q :: "'s jobtrigger_ops" and pend :: "'s \<Rightarrow> string set" and inv :: "'s \<Rightarrow> bool"
  assumes Request_ok: "inv s \<Longrightarrow> jt_Request Q n s = (Inr (), s') \<Longrightarrow> inv s' \<and> pend s' = insert n (pend s)"
    and Request_err: "inv s \<Longrightarrow> jt_Request Q n s = (Inl e, s') \<Longrightarrow>
      inv s' \<and> (pend s' = pend s \<or> pend s' = insert n (pend s))"
    and Claim_ok: "inv s \<Longrightarrow> jt_Claim Q 32 s = (Inr ns, s') \<Longrightarrow>
      inv s' \<and> distinct ns \<and> set ns \<subseteq> pend s \<and> pend s' = pend s - set ns"
    and Claim_err: "inv s \<Longrightarrow> jt_Claim Q 32 s = (Inl e, s') \<Longrightarrow> inv s' \<and> pend s' \<subseteq> pend s"
begin

definition harmless :: "'s poll_event list \<Rightarrow> bool" where
  "harmless es \<longleftrightarrow> (\<forall>f. Elsewhere f \<in> set es \<longrightarrow> (\<forall>s. inv s \<longrightarrow> inv (f s) \<and> pend (f s) = pend s))"

definition requests :: "string \<Rightarrow> 's poll_event list \<Rightarrow> nat" where
  "requests n es = length (filter (\<lambda>e. case e of Requested m \<Rightarrow> m = n | _ \<Rightarrow> False) es)"

text \<open>Every run of a job uses up one request for it.\<close>

lemma runs_bounded:
  "StartPoller Q es s = (started, s') \<Longrightarrow> inv s \<Longrightarrow> harmless es \<Longrightarrow>
     inv s' \<and> count_list started n + (if n \<in> pend s' then 1 else 0) \<le> requests n es + (if n \<in> pend s then 1 else 0)"
proof (induction es arbitrary: s started)
  case Nil
  then show ?case by simp
next
  case (Cons e es)
  have rest: "harmless es" using Cons.prems(3) by (simp add: harmless_def)
  note IH = Cons.IH [OF _ _ rest]
  show ?case
  proof (cases e)
    case CtxDone
    with Cons.prems show ?thesis by simp
  next
    case Tick
    obtain r s1 where c: "jt_Claim Q 32 s = (r, s1)" by fastforce
    show ?thesis
    proof (cases r)
      case (Inl err)
      with Claim_err [OF Cons.prems(2)] c have s1: "inv s1" "pend s1 \<subseteq> pend s" by auto
      have "StartPoller Q es s1 = (started, s')" using Cons.prems(1) Tick c Inl by simp
      from IH [OF this s1(1)] s1(2) Tick show ?thesis
        by (auto simp: requests_def split: if_splits)
    next
      case (Inr ns)
      with Claim_ok [OF Cons.prems(2)] c have s1: "inv s1" "distinct ns" "set ns \<subseteq> pend s" "pend s1 = pend s - set ns"
        by auto
      obtain later where l: "StartPoller Q es s1 = (later, s')" "started = ns @ later"
        using Cons.prems(1) Tick c Inr by (auto split: prod.splits)
      have "count_list ns n = (if n \<in> set ns then 1 else 0)"
        using s1(2) by (rule distinct_count)
      with IH [OF l(1) s1(1)] s1(3,4) l(2) Tick show ?thesis
        by (auto simp: requests_def split: if_splits)
    qed
  next
    case (Requested m)
    obtain r s1 where q: "jt_Request Q m s = (r, s1)" by fastforce
    then have s1: "inv s1" "pend s1 = pend s \<or> pend s1 = insert m (pend s)"
      using Request_ok [OF Cons.prems(2)] Request_err [OF Cons.prems(2)] by (cases r; force)+
    have "StartPoller Q es s1 = (started, s')" using Cons.prems(1) Requested q by simp
    from IH [OF this s1(1)] s1(2) Requested show ?thesis
      by (auto simp: requests_def split: if_splits)
  next
    case (Elsewhere f)
    then have "inv (f s)" "pend (f s) = pend s" using Cons.prems(2,3) by (simp_all add: harmless_def)
    moreover have "StartPoller Q es (f s) = (started, s')" using Cons.prems(1) Elsewhere by simp
    ultimately show ?thesis using IH [of "f s"] Elsewhere by (simp add: requests_def)
  qed
qed

end

locale sure_queue = job_queue Q pend inv for Q :: "'s jobtrigger_ops" and pend inv +
  fixes ok :: "'s \<Rightarrow> bool"
  assumes pend_finite: "inv s \<Longrightarrow> finite (pend s)"
    and Request_sure: "inv s \<Longrightarrow> ok s \<Longrightarrow> \<exists>s'. jt_Request Q n s = (Inr (), s') \<and> ok s'"
    and Claim_sure: "inv s \<Longrightarrow> ok s \<Longrightarrow>
      \<exists>ns s'. jt_Claim Q 32 s = (Inr ns, s') \<and> ok s' \<and> length ns = min 32 (card (pend s))"
begin

text \<open>Enough ticks start every pending job, each once.\<close>

lemma drained:
  "inv s \<Longrightarrow> ok s \<Longrightarrow> card (pend s) \<le> 32 * k \<Longrightarrow> StartPoller Q (replicate k Tick) s = (started, s') \<Longrightarrow>
     set started = pend s \<and> distinct started \<and> pend s' = {} \<and> inv s' \<and> ok s'"
proof (induction k arbitrary: s started)
  case 0
  then show ?case using pend_finite [of s] by auto
next
  case (Suc k)
  obtain ns s1 where c: "jt_Claim Q 32 s = (Inr ns, s1)" "ok s1" "length ns = min 32 (card (pend s))"
    using Claim_sure [OF Suc.prems(1,2)] by blast
  have s1: "inv s1" "distinct ns" "set ns \<subseteq> pend s" "pend s1 = pend s - set ns"
    using Claim_ok [OF Suc.prems(1) c(1)] by auto
  obtain later where l: "StartPoller Q (replicate k Tick) s1 = (later, s')" "started = ns @ later"
    using Suc.prems(4) c(1) by (auto split: prod.splits)
  have "card (pend s1) = card (pend s) - length ns"
    using s1(2-4) by (simp add: card_Diff_subset distinct_card)
  then have "card (pend s1) \<le> 32 * k" using Suc.prems(3) c(3) by (auto simp: min_def split: if_splits)
  from Suc.IH [OF s1(1) c(2) this l(1)] s1 l(2) show ?case by auto
qed

end

section \<open>The stores keep the contract\<close>

lemma set_drop_distinct: "distinct xs \<Longrightarrow> set (drop k xs) = set xs - set (take k xs)"
  using set_take_disj_set_drop_if_distinct [of xs k k] set_append [of "take k xs" "drop k xs"] by auto

lemma mock_Claim_32: "mock_Claim 32 m = (Inr (take 32 (q_pending m)), m\<lparr>q_pending := drop 32 (q_pending m)\<rparr>)"
  by (simp add: mock_Claim_def)

interpretation mq: sure_queue MockQueue "\<lambda>m. set (q_pending m)" "\<lambda>m. distinct (q_pending m)" "\<lambda>_. True"
proof (unfold_locales, goal_cases)
  case (1 m n m')
  then show ?case by (auto simp: MockQueue_def mock_Request_def split: if_splits)
next
  case (2 m n e m')
  then show ?case by (auto simp: MockQueue_def mock_Request_def split: if_splits)
next
  case (3 m ns m')
  then show ?case
    by (auto simp: MockQueue_def mock_Claim_32 set_drop_distinct set_take_subset dest: in_set_takeD)
next
  case (4 m e m')
  then show ?case by (simp add: MockQueue_def mock_Claim_32)
next
  case (5 m)
  then show ?case by simp
next
  case (6 m n)
  then show ?case by (simp add: MockQueue_def mock_Request_def)
next
  case (7 m)
  then show ?case by (simp add: MockQueue_def mock_Claim_32 distinct_card min.commute)
qed

definition triggers_ok :: "triggers_db \<Rightarrow> bool" where
  "triggers_ok db \<longleftrightarrow> distinct (map tr_job_name (pg_rows db)) \<and> distinct (map tr_id (pg_rows db))
     \<and> (\<forall>r\<in>set (pg_rows db). tr_id r < pg_next db)"

definition jobs :: "triggers_db \<Rightarrow> string set" where
  "jobs db = tr_job_name ` set (pg_rows db)"

text \<open>What the claim statement does to the rows.\<close>

definition claimed :: "int set \<Rightarrow> int \<Rightarrow> triggers_db \<Rightarrow> string list" where
  "claimed held limit db = map tr_job_name (filter (\<lambda>r. tr_id r \<in> set (oldest_unlocked held limit db)) (pg_scan db))"

definition remaining :: "int set \<Rightarrow> int \<Rightarrow> triggers_db \<Rightarrow> triggers_db" where
  "remaining held limit db = db\<lparr>pg_rows := filter (\<lambda>r. tr_id r \<notin> set (oldest_unlocked held limit db)) (pg_rows db)\<rparr>"

lemma trigger_Claim_stmt:
  "0 < limit \<Longrightarrow> trigger_Claim held limit = stmt (\<lambda>db. (Inr (claimed (held db) limit db), remaining (held db) limit db))"
  by (simp add: trigger_Claim_def claimed_def remaining_def Let_def)

lemma distinct_scan: "distinct (map f (pg_scan db)) = distinct (map f (pg_rows db))"
  by (simp add: pg_scan_def distinct_map) 

lemma claimed_effect:
  assumes "triggers_ok db"
  shows "distinct (claimed H k db)" "set (claimed H k db) \<subseteq> jobs db"
    and "jobs (remaining H k db) = jobs db - set (claimed H k db)" "triggers_ok (remaining H k db)"
proof -
  have inj: "inj_on tr_job_name (set (pg_rows db))" using assms by (simp add: triggers_ok_def distinct_map)
  have "distinct (map tr_job_name (pg_scan db))" using assms by (simp add: triggers_ok_def distinct_scan)
  then show "distinct (claimed H k db)" by (simp add: claimed_def distinct_map_filter)
  show "set (claimed H k db) \<subseteq> jobs db" by (auto simp: claimed_def jobs_def)
  show "jobs (remaining H k db) = jobs db - set (claimed H k db)"
    using inj by (auto simp: claimed_def jobs_def remaining_def inj_on_def)
  show "triggers_ok (remaining H k db)"
    using assms by (auto simp: triggers_ok_def remaining_def distinct_map_filter)
qed

lemma oldest_count:
  assumes "triggers_ok db" "0 \<le> k"
  shows "length (claimed {} k db) = min (nat k) (card (jobs db))"
proof -
  let ?top = "take (nat k) (sort_key tr_requested_at (pg_scan db))"
  have inj: "inj_on tr_id (set (pg_rows db))" "distinct (pg_rows db)" and card: "card (jobs db) = length (pg_rows db)"
    using assms by (auto simp: triggers_ok_def distinct_map jobs_def card_image distinct_card)
  have top: "set ?top \<subseteq> set (pg_rows db)" by (auto dest: in_set_takeD)
  have "distinct (pg_scan db)" using inj(2) by (simp add: pg_scan_def)
  then have "length (claimed {} k db) = card {r \<in> set (pg_rows db). tr_id r \<in> tr_id ` set ?top}"
    by (simp add: claimed_def oldest_unlocked_def flip: distinct_card)
  also have "{r \<in> set (pg_rows db). tr_id r \<in> tr_id ` set ?top} = set ?top"
    using top inj(1) by (auto simp: inj_on_def)
  also have "card (set ?top) = length ?top" using \<open>distinct (pg_scan db)\<close> by (intro distinct_card) simp
  finally show ?thesis by (simp add: card min.commute)
qed

lemma triggers_script [simp]:
  "triggers_ok (db\<lparr>pg_script := os\<rparr>) = triggers_ok db" "jobs (db\<lparr>pg_script := os\<rparr>) = jobs db"
  by (simp_all add: triggers_ok_def jobs_def)

lemma next_stmt_ok [simp]: "triggers_ok (next_stmt db) = triggers_ok db" "jobs (next_stmt db) = jobs db"
  by (simp_all add: next_stmt_def)

lemma trigger_Request_effect:
  assumes "trigger_Request n db = (r, db')" "triggers_ok db"
  shows "triggers_ok db'" "jobs db' = insert n (jobs db) \<or> (\<exists>e. r = Inl e) \<and> jobs db' = jobs db"
proof -
  have "triggers_ok db' \<and> (jobs db' = insert n (jobs db) \<or> (\<exists>e. r = Inl e) \<and> jobs db' = jobs db)"
    using assms unfolding trigger_Request_def
    by (elim stmt_cases) (auto simp: Let_def triggers_ok_def jobs_def split: if_splits)
  then show "triggers_ok db'" "jobs db' = insert n (jobs db) \<or> (\<exists>e. r = Inl e) \<and> jobs db' = jobs db" by auto
qed

interpretation tq: job_queue "PGQueue held" jobs triggers_ok
proof (unfold_locales, goal_cases)
  case (1 s n s')
  then show ?case using trigger_Request_effect [of n s] by (auto simp: PGQueue_def)
next
  case (2 s n e s')
  then show ?case using trigger_Request_effect [of n s] by (auto simp: PGQueue_def)
next
  case (3 s ns s')
  then have "stmt (\<lambda>db. (Inr (claimed (held db) 32 db), remaining (held db) 32 db)) s = (Inr ns, s')"
    by (simp add: PGQueue_def trigger_Claim_stmt)
  then show ?case
  proof (cases rule: stmt_cases [consumes 1])
    case (executed os)
    with claimed_effect [of "s\<lparr>pg_script := os\<rparr>"] 3(1) show ?thesis by simp
  qed simp_all
next
  case (4 s e s')
  then have "stmt (\<lambda>db. (Inr (claimed (held db) 32 db), remaining (held db) 32 db)) s = (Inl e, s')"
    by (simp add: PGQueue_def trigger_Claim_stmt)
  then show ?case
  proof (cases rule: stmt_cases [consumes 1])
    case (lost os m)
    with claimed_effect [of "s\<lparr>pg_script := os\<rparr>"] 4(1) show ?thesis by auto
  qed (use 4(1) in simp_all)
qed

interpretation tq_sure: sure_queue "PGQueue (\<lambda>_. {})" jobs triggers_ok healthy
proof (unfold_locales, goal_cases)
  case (1 s)
  then show ?case by (simp add: jobs_def)
next
  case (2 s n)
  then show ?case by (auto simp: PGQueue_def trigger_Request_def stmt_healthy Let_def)
next
  case (3 s)
  then show ?case
    using oldest_count [of "next_stmt s" 32] by (auto simp: PGQueue_def trigger_Claim_stmt stmt_healthy remaining_def)
qed

section \<open>Properties\<close>

text \<open>
  No job runs more often than it was asked for. On the Postgres queue, whatever statements fail
  or lose their reply, whatever rows other workers hold, and whatever else happens that leaves the
  pending jobs alone: among the jobs one poller starts, each name occurs at most as often as it was
  requested, plus one when it was pending at the beginning.
\<close>

theorem runs_at_most_once_per_request:
  assumes "StartPoller (PGQueue held) es db = (started, db')" and "triggers_ok db"
    and "\<forall>f. Elsewhere f \<in> set es \<longrightarrow> (\<forall>s. triggers_ok s \<longrightarrow> triggers_ok (f s) \<and> jobs (f s) = jobs s)"
  shows "count_list started n \<le> length (filter (\<lambda>e. case e of Requested m \<Rightarrow> m = n | _ \<Rightarrow> False) es) + (if n \<in> jobs db then 1 else 0)
    \<and> triggers_ok db'"
  using tq.runs_bounded [OF assms(1,2), of n] assms(3) by (auto simp: tq.harmless_def tq.requests_def)

theorem runs_at_most_once_per_request_witness:
  "count_list (fst (StartPoller (PGQueue (\<lambda>_. {})) [Requested ''a'', Tick, Requested ''a'', Requested ''a'', Tick, Tick]
     ((pg_table [] 1 0)\<lparr>pg_script := [Done, Lost ''reset'', Done]\<rparr>))) ''a'' \<le> 3"
proof -
  let ?es = "[Requested ''a'', Tick, Requested ''a'', Requested ''a'', Tick, Tick]"
  let ?db = "(pg_table [] 1 0)\<lparr>pg_script := [Done, Lost ''reset'', Done]\<rparr> :: triggers_db"
  have ok: "triggers_ok ?db" "\<not> ''a'' \<in> jobs ?db" by (simp_all add: triggers_ok_def jobs_def pg_table_def)
  obtain started db' where run: "StartPoller (PGQueue (\<lambda>_. {})) ?es ?db = (started, db')" by fastforce
  have "count_list started ''a'' \<le> 3 \<and> triggers_ok db'"
    using runs_at_most_once_per_request [OF run ok(1), of "''a''"] ok(2) by simp
  then show ?thesis by (simp add: run del: StartPoller.simps)
qed

text \<open>
  C21. Pending jobs are started. On a Postgres queue that answers, with no rows held by others, a
  poller that gets one tick for every 32 pending jobs (or more) starts exactly the pending jobs, each once, and
  leaves the queue empty.
\<close>

theorem pending_jobs_are_started:
  assumes "StartPoller (PGQueue (\<lambda>_. {})) (replicate k Tick) db = (started, db')" and "triggers_ok db" and "healthy db"
    and "length (pg_rows db) \<le> 32 * k"
  shows "set started = jobs db \<and> distinct started \<and> pg_rows db' = []"
proof -
  have "card (jobs db) \<le> 32 * k"
    using card_image_le [of "set (pg_rows db)" tr_job_name] card_length [of "pg_rows db"] assms(4)
    by (simp add: jobs_def)
  from tq_sure.drained [OF assms(2,3) this assms(1)] show ?thesis by (simp add: jobs_def)
qed

theorem pending_jobs_are_started_witness:
  "mset (fst (StartPoller (PGQueue (\<lambda>_. {})) [Tick] (pg_table [\<lparr>tr_id = 1, tr_job_name = ''a'', tr_requested_at = 7\<rparr>,
     \<lparr>tr_id = 2, tr_job_name = ''b'', tr_requested_at = 5\<rparr>] 3 9))) = {#''a'', ''b''#}"
proof -
  let ?db = "pg_table [\<lparr>tr_id = 1, tr_job_name = ''a'', tr_requested_at = 7\<rparr>,
     \<lparr>tr_id = 2, tr_job_name = ''b'', tr_requested_at = 5\<rparr>] 3 9"
  have ok: "triggers_ok ?db" "jobs ?db = {''a'', ''b''}" by (simp_all add: triggers_ok_def jobs_def pg_table_def)
  obtain started db' where run: "StartPoller (PGQueue (\<lambda>_. {})) (replicate 1 Tick) ?db = (started, db')" by fastforce
  from pending_jobs_are_started [OF run ok(1)] ok(2) have s: "set started = {''a'', ''b''}" "distinct started"
    by (simp_all add: pg_table_def healthy_def)
  then have "mset started = mset [''a'', ''b'']" by (intro set_eq_iff_mset_eq_distinct [THEN iffD1]) auto
  with run show ?thesis by simp
qed

definition queued :: "triggers_db \<Rightarrow> string list" where
  "queued db = map tr_job_name (sort_key tr_requested_at (pg_scan db))"

lemma sort_new_last:
  fixes f :: "'a \<Rightarrow> 'b::linorder" and g :: "'a \<Rightarrow> 'c::linorder"
  assumes "\<forall>r\<in>set xs. f r < f x"
  shows "sort_key f (sort_key g (xs @ [x])) = sort_key f (sort_key g xs) @ [x]"
proof (rule properties_for_sort_key)
  show "mset (sort_key f (sort_key g xs) @ [x]) = mset (sort_key g (xs @ [x]))" by simp
  show "filter (\<lambda>y. f k = f y) (sort_key f (sort_key g xs) @ [x]) = filter (\<lambda>y. f k = f y) (sort_key g (xs @ [x]))"
    if "k \<in> set (sort_key f (sort_key g xs) @ [x])" for k
  proof (cases "k = x")
    case True
    have none: "filter (\<lambda>y. f x = f y) xs = []" using assms by (auto simp: filter_empty_conv)
    then have "filter (\<lambda>y. f x = f y) (sort_key f (sort_key g xs)) = []" by (simp add: filter_sort)
    with True none show ?thesis by (simp add: filter_sort)
  next
    case False
    with that have "k \<in> set xs" by auto
    with assms have "f k \<noteq> f x" by auto
    then show ?thesis by (simp add: sort_key_stable filter_sort eq_commute [of "f k"])
  qed
  show "sorted (map f (sort_key f (sort_key g xs) @ [x]))"
    using assms by (auto simp: sorted_append intro: less_imp_le)
qed

lemma filter_take_drop:
  assumes "distinct (map f xs)"
  shows "filter (\<lambda>r. f r \<in> set (map f (take k xs))) xs = take k xs"
    and "filter (\<lambda>r. f r \<notin> set (map f (take k xs))) xs = drop k xs"
proof -
  have d: "f r \<notin> f ` set (take k xs)" if "r \<in> set (drop k xs)" for r
    using assms that set_take_disj_set_drop_if_distinct [of "map f xs" k k] by (auto simp: take_map drop_map disjoint_iff)
  have "filter (\<lambda>r. f r \<in> f ` set (take k xs)) (take k xs @ drop k xs) = take k xs"
    "filter (\<lambda>r. f r \<notin> f ` set (take k xs)) (take k xs @ drop k xs) = drop k xs"
    unfolding filter_append using d by (simp_all add: filter_empty_conv filter_id_conv)
  then show "filter (\<lambda>r. f r \<in> set (map f (take k xs))) xs = take k xs"
    "filter (\<lambda>r. f r \<notin> set (map f (take k xs))) xs = drop k xs" by simp_all
qed

text \<open>
  C31. The two queues are interchangeable. When both hold the same jobs in the order of their
  requests, and the rows are older than now, a request leaves them so, and a claim of a positive
  number of jobs takes the same jobs from both and leaves the rest in the same order; only the
  order in which Postgres returns the claimed names is not fixed.
\<close>

theorem queues_agree:
  assumes "triggers_ok db" "healthy db" and "q_pending m = queued db" and "0 < k"
    and "\<forall>r\<in>set (pg_rows db). tr_requested_at r < pg_now db"
  shows "queued (snd (trigger_Request n db)) = q_pending (snd (mock_Request n m))
    \<and> (\<exists>ns. fst (trigger_Claim (\<lambda>_. {}) k db) = Inr ns
        \<and> (\<exists>ns'. fst (mock_Claim k m) = Inr ns' \<and> mset ns = mset ns'))
    \<and> queued (snd (trigger_Claim (\<lambda>_. {}) k db)) = q_pending (snd (mock_Claim k m))"
proof -
  let ?x = "\<lparr>tr_id = pg_next db, tr_job_name = n, tr_requested_at = pg_now db\<rparr>"
  let ?s = "sort_key tr_requested_at (pg_scan db)"
  have "sort_key tr_requested_at (sort_key (pg_pos db) (pg_rows db @ [?x])) = ?s @ [?x]"
    unfolding pg_scan_def by (rule sort_new_last) (use assms(5) in simp)
  moreover have "trigger_Request n db = (Inr (), if n \<in> tr_job_name ` set (pg_rows db) then (next_stmt db)\<lparr>pg_next := pg_next db + 1\<rparr>
      else (next_stmt db)\<lparr>pg_rows := pg_rows db @ [?x], pg_next := pg_next db + 1\<rparr>)"
    using assms(2) by (simp add: trigger_Request_def stmt_healthy Let_def)
  ultimately have req: "queued (snd (trigger_Request n db)) = q_pending (snd (mock_Request n m))"
    using assms(3) by (auto simp: mock_Request_def queued_def pg_scan_def)
  have ids: "distinct (map tr_id ?s)"
    using assms(1) by (simp add: triggers_ok_def distinct_map pg_scan_def)
  note split = filter_take_drop [OF ids, of "nat k"]
  have old: "oldest_unlocked {} k (next_stmt db) = map tr_id (take (nat k) ?s)" by (simp add: oldest_unlocked_def)
  have names: "mset (claimed {} k (next_stmt db)) = mset (map tr_job_name (take (nat k) ?s))"
    unfolding claimed_def old using arg_cong [OF split(1), of "\<lambda>l. mset (map tr_job_name l)"] by simp
  have rest: "queued (remaining {} k (next_stmt db)) = map tr_job_name (drop (nat k) ?s)"
    unfolding queued_def remaining_def old using arg_cong [OF split(2), of "map tr_job_name"]
    by (simp add: pg_scan_def filter_sort)
  have mock: "mock_Claim k m = (Inr (take (nat k) (q_pending m)), m\<lparr>q_pending := drop (nat k) (q_pending m)\<rparr>)"
    using assms(4) by (auto simp: mock_Claim_def Let_def)
  have pg: "trigger_Claim (\<lambda>_. {}) k db = (Inr (claimed {} k (next_stmt db)), remaining {} k (next_stmt db))"
    using assms(2,4) by (simp add: trigger_Claim_stmt stmt_healthy)
  have "mset (claimed {} k (next_stmt db)) = mset (take (nat k) (q_pending m))"
    unfolding names assms(3) queued_def take_map ..
  moreover have "queued (remaining {} k (next_stmt db)) = drop (nat k) (q_pending m)"
    unfolding rest assms(3) queued_def [of db] drop_map ..
  ultimately show ?thesis using req unfolding pg mock by simp
qed

theorem queues_agree_witness:
  "let db = pg_table [\<lparr>tr_id = 1, tr_job_name = ''a'', tr_requested_at = 7\<rparr>, \<lparr>tr_id = 2, tr_job_name = ''b'', tr_requested_at = 5\<rparr>] 3 9
   in queued db = [''b'', ''a''] \<and> queued (snd (trigger_Request ''c'' db)) = [''b'', ''a'', ''c'']
      \<and> queued (snd (trigger_Claim (\<lambda>_. {}) 1 db)) = [''a'']"
proof -
  let ?db = "pg_table [\<lparr>tr_id = 1, tr_job_name = ''a'', tr_requested_at = 7\<rparr>, \<lparr>tr_id = 2, tr_job_name = ''b'', tr_requested_at = 5\<rparr>] 3 9"
  have q: "queued ?db = [''b'', ''a'']" by (simp add: queued_def pg_scan_def pg_table_def)
  have "triggers_ok ?db" "healthy ?db" by (simp_all add: triggers_ok_def pg_table_def healthy_def)
  from queues_agree [OF this, of "\<lparr>q_pending = [''b'', ''a'']\<rparr>" 1 "''c''"] q show ?thesis
    by (simp add: pg_table_def mock_Request_def mock_Claim_def)
qed

text \<open>Postgres returns the names in the order the rows are deleted, not the oldest first.\<close>

lemma claim_order_is_scan_order:
  "fst (trigger_Claim (\<lambda>_. {}) 2 (pg_table [\<lparr>tr_id = 1, tr_job_name = ''a'', tr_requested_at = 7\<rparr>,
     \<lparr>tr_id = 2, tr_job_name = ''b'', tr_requested_at = 5\<rparr>] 3 9)) = Inr [''a'', ''b'']"
  by (simp add: trigger_Claim_def stmt_def oldest_unlocked_def pg_scan_def pg_table_def numeral_2_eq_2)

section \<open>A fleet of workers\<close>

text \<open>
  Several workers poll one queue. What happens to the queue is one sequence of events: a request by a
  web process, a poll of a worker, or something else. A worker's poller meets this sequence with the
  polls of the others as things that happen elsewhere.
\<close>

datatype 's fleet_event = Ask string | Poll nat | Other "'s \<Rightarrow> 's"

fun met_by :: "'s jobtrigger_ops \<Rightarrow> nat \<Rightarrow> 's fleet_event \<Rightarrow> 's poll_event" where
  "met_by Q i (Ask n) = Requested n"
| "met_by Q i (Poll j) = (if j = i then Tick else Elsewhere (\<lambda>s. snd (jt_Claim Q 32 s)))"
| "met_by Q i (Other f) = Elsewhere f"

definition started_by :: "'s jobtrigger_ops \<Rightarrow> 's fleet_event list \<Rightarrow> 's \<Rightarrow> nat \<Rightarrow> string list" where
  "started_by Q es s i = fst (StartPoller Q (map (met_by Q i) es) s)"

definition asked :: "string \<Rightarrow> 's fleet_event list \<Rightarrow> nat" where
  "asked n es = length (filter (\<lambda>e. case e of Ask m \<Rightarrow> m = n | _ \<Rightarrow> False) es)"

lemma started_by_simps:
  "started_by Q [] s i = []"
  "started_by Q (Ask n # es) s i = started_by Q es (snd (jt_Request Q n s)) i"
  "started_by Q (Other f # es) s i = started_by Q es (f s) i"
  "started_by Q (Poll j # es) s i =
     (if i = j then (case fst (jt_Claim Q 32 s) of Inl _ \<Rightarrow> [] | Inr names \<Rightarrow> names) else [])
     @ started_by Q es (snd (jt_Claim Q 32 s)) i"
  by (auto simp: started_by_def split: prod.splits sum.splits)

context job_queue
begin

lemma fleet_bounded:
  "inv s \<Longrightarrow> \<forall>f. Other f \<in> set es \<longrightarrow> (\<forall>s. inv s \<longrightarrow> inv (f s) \<and> pend (f s) = pend s) \<Longrightarrow>
   (\<Sum>i<k. count_list (started_by Q es s i) n) \<le> asked n es + (if n \<in> pend s then 1 else 0)"
proof (induction es arbitrary: s)
  case Nil
  then show ?case by (simp add: started_by_simps)
next
  case (Cons e es)
  have IH: "(\<Sum>i<k. count_list (started_by Q es s1 i) n) \<le> asked n es + (if n \<in> pend s1 then 1 else 0)"
    if "inv s1" for s1
    using that Cons.prems(2) by (intro Cons.IH) auto
  show ?case
  proof (cases e)
    case (Ask m)
    obtain r s1 where q: "jt_Request Q m s = (r, s1)" by (rule prod.exhaust)
    have "inv s1 \<and> (pend s1 = pend s \<or> pend s1 = insert m (pend s))"
      using q Request_ok [OF Cons.prems(1), of m s1] Request_err [OF Cons.prems(1), of m _ s1] by (cases r) auto
    with IH [of s1] show ?thesis using Ask q
      by (auto simp: started_by_simps asked_def split: if_splits)
  next
    case (Other f)
    with IH [of "f s"] Cons.prems show ?thesis by (simp add: started_by_simps asked_def)
  next
    case (Poll j)
    obtain r s1 where c: "jt_Claim Q 32 s = (r, s1)" by (rule prod.exhaust)
    define ns where "ns = (case r of Inl _ \<Rightarrow> [] | Inr names \<Rightarrow> names)"
    have claim: "inv s1 \<and> distinct ns \<and> set ns \<subseteq> pend s \<and> pend s1 \<subseteq> pend s - set ns"
    proof (cases r)
      case (Inl err)
      then show ?thesis using Claim_err [OF Cons.prems(1)] c by (simp add: ns_def)
    next
      case (Inr names)
      then show ?thesis using Claim_ok [OF Cons.prems(1)] c by (simp add: ns_def)
    qed
    have rest: "(\<Sum>i<k. count_list (started_by Q es s1 i) n) \<le> asked n es + (if n \<in> pend s1 then 1 else 0)"
      using IH claim by blast
    have one: "count_list (started_by Q (e # es) s i) n
        = (if i = j then count_list ns n else 0) + count_list (started_by Q es s1 i) n" for i
      unfolding Poll started_by_simps c fst_conv snd_conv ns_def [symmetric] by (simp only: count_list_append split: if_split) simp
    have "(\<Sum>i<k. count_list (started_by Q (e # es) s i) n)
        = (\<Sum>i<k. if i = j then count_list ns n else 0) + (\<Sum>i<k. count_list (started_by Q es s1 i) n)"
      unfolding one sum.distrib ..
    also have "(\<Sum>i<k. if i = j then count_list ns n else 0) \<le> count_list ns n" by (simp add: sum.delta)
    finally have "(\<Sum>i<k. count_list (started_by Q (e # es) s i) n)
        \<le> count_list ns n + (asked n es + (if n \<in> pend s1 then 1 else 0))"
      using rest by linarith
    moreover have "asked n (e # es) = asked n es" by (simp add: Poll asked_def)
    moreover have "count_list ns n + (if n \<in> pend s1 then 1 else 0) \<le> (if n \<in> pend s then 1 else (0 :: nat))"
      using claim distinct_count [of ns n] by auto
    ultimately show ?thesis by linarith
  qed
qed

end

text \<open>
  C17. No job runs more often than it was asked for, however many workers poll. On the Postgres
  queue, whatever statements fail or lose their reply, whatever rows other workers hold, in whatever
  order requests and polls come, and whatever else happens that leaves the pending jobs alone: over
  all workers together, a job is started at most as often as it was requested, plus one when it was
  pending at the beginning.
\<close>

theorem fleet_starts_at_most_once_per_request:
  assumes "triggers_ok db"
    and "\<forall>f. Other f \<in> set es \<longrightarrow> (\<forall>s. triggers_ok s \<longrightarrow> triggers_ok (f s) \<and> jobs (f s) = jobs s)"
  shows "(\<Sum>i<k. count_list (started_by (PGQueue held) es db i) n) \<le> asked n es + (if n \<in> jobs db then 1 else 0)"
  using assms by (rule tq.fleet_bounded)

theorem fleet_starts_at_most_once_per_request_witness:
  "(\<Sum>i<2. count_list (started_by (PGQueue (\<lambda>_. {})) [Ask ''a'', Poll 1, Poll 0, Ask ''a'', Ask ''a'', Poll 0, Poll 1]
     ((pg_table [] 1 0)\<lparr>pg_script := [Done, Done, Done, Lost ''reset'', Done]\<rparr>) i) ''a'') \<le> 3"
proof -
  let ?es = "[Ask ''a'', Poll 1, Poll 0, Ask ''a'', Ask ''a'', Poll 0, Poll 1] :: triggers_db fleet_event list"
  let ?db = "(pg_table [] 1 0)\<lparr>pg_script := [Done, Done, Done, Lost ''reset'', Done]\<rparr> :: triggers_db"
  have ok: "triggers_ok ?db" "''a'' \<notin> jobs ?db" by (simp_all add: triggers_ok_def jobs_def pg_table_def)
  have "asked ''a'' ?es = 3" by (simp add: asked_def)
  then show ?thesis
    using fleet_starts_at_most_once_per_request [OF ok(1), of ?es "\<lambda>_. {}" "''a''" 2] ok(2) by simp
qed

end
