(* ===== verification/Events.thy ===== *)
theory Events
  imports Main
begin

text \<open>
  events/events.go: the in-process bus. Handlers are named, and \<open>invoke\<close> says what a handler does
  with a payload to the world and to the bus it may use while it runs, and whether it panics. One
  critical section of the mutex is one step.
\<close>

record 'h bus =
  b_subs :: "string \<Rightarrow> 'h list"

definition NewBus :: "'h bus" where
  "NewBus = \<lparr>b_subs = (\<lambda>_. [])\<rparr>"

definition Subscribe :: "string \<Rightarrow> 'h \<Rightarrow> 'h bus \<Rightarrow> 'h bus" where
  "Subscribe topic h b = b\<lparr>b_subs := (b_subs b)(topic := b_subs b topic @ [h])\<rparr>"

text \<open>The first component tells whether a handler panicked: the handlers after it are not called.\<close>

type_synonym ('h, 'p, 'w) invoke = "'h \<Rightarrow> 'p \<Rightarrow> 'w \<times> 'h bus \<Rightarrow> bool \<times> 'w \<times> 'h bus"

fun deliver :: "('h, 'p, 'w) invoke \<Rightarrow> 'h list \<Rightarrow> 'p \<Rightarrow> 'w \<times> 'h bus \<Rightarrow> bool \<times> 'w \<times> 'h bus" where
  "deliver invoke [] payload s = (False, s)"
| "deliver invoke (h # hs) payload s =
     (case invoke h payload s of
        (True, s) \<Rightarrow> (True, s)
      | (False, s) \<Rightarrow> deliver invoke hs payload s)"

definition Emit :: "('h, 'p, 'w) invoke \<Rightarrow> string \<Rightarrow> 'p \<Rightarrow> 'w \<times> 'h bus \<Rightarrow> bool \<times> 'w \<times> 'h bus" where
  "Emit invoke topic payload s = deliver invoke (b_subs (snd s) topic) payload s"

section \<open>Properties\<close>

definition subscribe_all :: "(string \<times> 'h) list \<Rightarrow> 'h bus \<Rightarrow> 'h bus" where
  "subscribe_all = fold (\<lambda>(t, h). Subscribe t h)"

lemma subscribe_all_subs: "b_subs (subscribe_all rs b) t = b_subs b t @ map snd (filter (\<lambda>r. fst r = t) rs)"
proof (induction rs arbitrary: b)
  case (Cons r rs)
  obtain u h where r: "r = (u, h)" by fastforce
  have "subscribe_all (r # rs) b = subscribe_all rs (Subscribe u h b)" by (simp add: subscribe_all_def r)
  with Cons [of "Subscribe u h b"] show ?case by (simp add: r Subscribe_def)
qed (simp add: subscribe_all_def)

lemma deliver_log:
  "\<forall>h s. \<exists>b'. invoke h p s = (False, fst s @ [(h, p)], b') \<Longrightarrow>
     \<exists>b'. deliver invoke hs p (log, b) = (False, log @ map (\<lambda>h. (h, p)) hs, b')"
proof (induction hs arbitrary: log b)
  case (Cons h hs)
  obtain b1 where i: "invoke h p (log, b) = (False, log @ [(h, p)], b1)"
    using Cons.prems by (metis fst_conv)
  obtain b2 where "deliver invoke hs p (log @ [(h, p)], b1) = (False, (log @ [(h, p)]) @ map (\<lambda>h. (h, p)) hs, b2)"
    using Cons.IH [OF Cons.prems] by blast
  with i show ?case by simp
qed simp

text \<open>
  An event reaches its subscribers in order. Whatever was subscribed before, and whatever the
  handlers themselves subscribe while they run: emitting calls exactly the handlers registered for
  that topic when it starts, each once, in the order of their registration, with the payload. (Each
  handler returns, and records its call.)
\<close>

theorem emit_reaches_subscribers_in_order:
  assumes "\<forall>h s. \<exists>b'. invoke h payload s = (False, fst s @ [(h, payload)], b')"
  shows "\<exists>b'. Emit invoke topic payload (log, subscribe_all rs NewBus)
    = (False, log @ map (\<lambda>r. (snd r, payload)) (filter (\<lambda>r. fst r = topic) rs), b')"
  using deliver_log [of invoke payload "b_subs (subscribe_all rs NewBus) topic" log "subscribe_all rs NewBus"] assms
  by (simp add: Emit_def subscribe_all_subs NewBus_def comp_def)

theorem emit_reaches_subscribers_in_order_witness:
  "\<exists>b'. Emit (\<lambda>h p s. (False, fst s @ [(h, p)], Subscribe ''ingest'' (9::nat) (snd s))) ''ingest'' ''x''
     ([], subscribe_all [(''ingest'', 1), (''other'', 2), (''ingest'', 3)] NewBus) = (False, [(1, ''x''), (3, ''x'')], b')"
  using emit_reaches_subscribers_in_order [of "\<lambda>h p s. (False, fst s @ [(h, p)], Subscribe ''ingest'' (9::nat) (snd s))"
      "''x''" "''ingest''" "[]" "[(''ingest'', 1), (''other'', 2), (''ingest'', 3)]"] by simp

end
