(* ===== verification/Jobsettings.thy ===== *)
theory Jobsettings
  imports Pg
begin

text \<open>
  jobsettings/: the overrides of job configuration variables, one value for a job name and a key. The
  store interface as a record of operations, the in-memory store (mock.go) and the Postgres store
  (pgstore.go). The locale \<open>settings_store\<close> is the contract with the scheduler; both stores
  interpret it.
\<close>

record 's jobsettings_ops =
  js_GetJobSettings :: "string \<Rightarrow> ('s, string \<Rightarrow> string option) call"
  js_SetJobSetting :: "string \<Rightarrow> string \<Rightarrow> string \<Rightarrow> ('s, unit) call"
  js_DeleteJobSetting :: "string \<Rightarrow> string \<Rightarrow> ('s, unit) call"

section \<open>The in-memory store\<close>

text \<open>A job without a map of its own has the nil map: reading it finds nothing, deleting from it does nothing.\<close>

record mock_settings =
  ms_m :: "string \<Rightarrow> (string \<Rightarrow> string option) option"

definition mock_Get :: "string \<Rightarrow> (mock_settings, string \<Rightarrow> string option) call" where
  "mock_Get jobName mk = (Inr (case ms_m mk jobName of None \<Rightarrow> Map.empty | Some vals \<Rightarrow> vals), mk)"

definition mock_Delete :: "string \<Rightarrow> string \<Rightarrow> (mock_settings, unit) call" where
  "mock_Delete jobName key mk =
     (Inr (), case ms_m mk jobName of
                None \<Rightarrow> mk
              | Some vals \<Rightarrow> mk\<lparr>ms_m := (ms_m mk)(jobName \<mapsto> vals(key := None))\<rparr>)"

definition mock_Set :: "string \<Rightarrow> string \<Rightarrow> string \<Rightarrow> (mock_settings, unit) call" where
  "mock_Set jobName key val mk =
     (if val = [] then
        (Inr (), case ms_m mk jobName of
                   None \<Rightarrow> mk
                 | Some vals \<Rightarrow> mk\<lparr>ms_m := (ms_m mk)(jobName \<mapsto> vals(key := None))\<rparr>)
      else
        let vals = (case ms_m mk jobName of None \<Rightarrow> Map.empty | Some vals \<Rightarrow> vals)
        in (Inr (), mk\<lparr>ms_m := (ms_m mk)(jobName \<mapsto> vals(key \<mapsto> val))\<rparr>))"

definition MockSettings :: "mock_settings jobsettings_ops" where
  "MockSettings = \<lparr>js_GetJobSettings = mock_Get, js_SetJobSetting = mock_Set, js_DeleteJobSetting = mock_Delete\<rparr>"

definition NewMockSettings :: mock_settings where
  "NewMockSettings = \<lparr>ms_m = Map.empty\<rparr>"

section \<open>The Postgres store\<close>

record setting_row =
  sr_job_name :: string
  sr_key :: string
  sr_value :: string
  sr_updated_at :: time

type_synonym settings_db = "setting_row pg"

definition setting_Get :: "string \<Rightarrow> (settings_db, string \<Rightarrow> string option) call" where
  "setting_Get jobName = stmt (\<lambda>db.
     (Inr (foldl (\<lambda>out r. out(sr_key r \<mapsto> sr_value r)) Map.empty
            (filter (\<lambda>r. sr_job_name r = jobName) (pg_scan db))), db))"

definition setting_Delete :: "string \<Rightarrow> string \<Rightarrow> (settings_db, unit) call" where
  "setting_Delete jobName key = exec_delete (\<lambda>r. sr_job_name r = jobName \<and> sr_key r = key)"

definition setting_Set :: "string \<Rightarrow> string \<Rightarrow> string \<Rightarrow> (settings_db, unit) call" where
  "setting_Set jobName key val =
     (if val = [] then setting_Delete jobName key
      else stmt (\<lambda>db.
        let hit = (\<lambda>r. sr_job_name r = jobName \<and> sr_key r = key)
        in (Inr (), db\<lparr>pg_rows :=
              if \<exists>r\<in>set (pg_rows db). hit r
              then map (\<lambda>r. if hit r then r\<lparr>sr_value := val, sr_updated_at := pg_now db\<rparr> else r) (pg_rows db)
              else pg_rows db @ [\<lparr>sr_job_name = jobName, sr_key = key, sr_value = val, sr_updated_at = pg_now db\<rparr>]\<rparr>)))"

definition PGSettings :: "settings_db jobsettings_ops" where
  "PGSettings = \<lparr>js_GetJobSettings = setting_Get, js_SetJobSetting = setting_Set, js_DeleteJobSetting = setting_Delete\<rparr>"

section \<open>The contract of a settings store\<close>

text \<open>
  \<open>val s j\<close> is the map of the overrides of job \<open>j\<close>. An operation that reports success has its effect and no
  other; one that reports an error may have had it.
\<close>

definition override :: "string \<Rightarrow> (string \<Rightarrow> string option) \<Rightarrow> string \<Rightarrow> (string \<Rightarrow> string option)" where
  "override key m val = m(key := if val = [] then None else Some val)"

locale settings_store =
  fixes S :: "'s jobsettings_ops" and val :: "'s \<Rightarrow> string \<Rightarrow> string \<Rightarrow> string option" and inv :: "'s \<Rightarrow> bool"
  assumes Get_ok: "inv s \<Longrightarrow> js_GetJobSettings S j s = (Inr m, s') \<Longrightarrow> m = val s j"
    and Get_state: "inv s \<Longrightarrow> js_GetJobSettings S j s = (r, s') \<Longrightarrow> inv s' \<and> val s' = val s"
    and Set_ok: "inv s \<Longrightarrow> js_SetJobSetting S j k v s = (Inr (), s') \<Longrightarrow>
      inv s' \<and> val s' = (val s)(j := override k (val s j) v)"
    and Set_err: "inv s \<Longrightarrow> js_SetJobSetting S j k v s = (Inl e, s') \<Longrightarrow>
      inv s' \<and> (val s' = val s \<or> val s' = (val s)(j := override k (val s j) v))"
    and Delete_ok: "inv s \<Longrightarrow> js_DeleteJobSetting S j k s = (Inr (), s') \<Longrightarrow>
      inv s' \<and> val s' = (val s)(j := (val s j)(k := None))"
    and Delete_err: "inv s \<Longrightarrow> js_DeleteJobSetting S j k s = (Inl e, s') \<Longrightarrow>
      inv s' \<and> (val s' = val s \<or> val s' = (val s)(j := (val s j)(k := None)))"
begin

text \<open>The effective value of a variable with a declared default, as the scheduler computes it.\<close>

lemma set_then_get:
  assumes "inv s" "js_SetJobSetting S j k v s = (Inr (), s1)" "js_GetJobSettings S i s1 = (Inr m, s2)"
  shows "m = (if i = j then override k (val s j) v else val s i)"
  using Set_ok [OF assms(1,2)] Get_ok [OF _ assms(3)] by auto

end

section \<open>The stores keep the contract\<close>

definition mock_val :: "mock_settings \<Rightarrow> string \<Rightarrow> string \<Rightarrow> string option" where
  "mock_val mk j = (case ms_m mk j of None \<Rightarrow> Map.empty | Some vals \<Rightarrow> vals)"

lemma mock_val_upd: "mock_val (mk\<lparr>ms_m := (ms_m mk)(j \<mapsto> vals)\<rparr>) = (mock_val mk)(j := vals)"
  by (rule ext) (simp add: mock_val_def)

lemma mock_val_nil: "ms_m mk j = None \<Longrightarrow> (mock_val mk)(j := (mock_val mk j)(k := None)) = mock_val mk"
  by (rule ext) (simp add: mock_val_def)

lemma mock_result:
  "mock_Get j mk = (Inr (mock_val mk j), mk)"
  "\<exists>mk'. mock_Delete j k mk = (Inr (), mk') \<and> mock_val mk' = (mock_val mk)(j := (mock_val mk j)(k := None))"
  "\<exists>mk'. mock_Set j k v mk = (Inr (), mk') \<and> mock_val mk' = (mock_val mk)(j := override k (mock_val mk j) v)"
  by (auto simp: mock_Get_def mock_Delete_def mock_Set_def Let_def mock_val_upd mock_val_nil override_def
      mock_val_def [of _ j] split: option.split)

interpretation ms: settings_store MockSettings mock_val "\<lambda>_. True"
proof (unfold_locales, goal_cases)
  case (3 s j k v s')
  then show ?case using mock_result(3) [of j k v s] by (auto simp: MockSettings_def)
next
  case (4 s j k v e s')
  then show ?case using mock_result(3) [of j k v s] by (auto simp: MockSettings_def)
next
  case (5 s j k s')
  then show ?case using mock_result(2) [of j k s] by (auto simp: MockSettings_def)
next
  case (6 s j k e s')
  then show ?case using mock_result(2) [of j k s] by (auto simp: MockSettings_def)
qed (auto simp: MockSettings_def mock_result(1))

text \<open>One row per job and key, the primary key of the table.\<close>

definition settings_ok :: "settings_db \<Rightarrow> bool" where
  "settings_ok db \<longleftrightarrow> distinct (map (\<lambda>r. (sr_job_name r, sr_key r)) (pg_rows db))"

definition setting_val :: "settings_db \<Rightarrow> string \<Rightarrow> string \<Rightarrow> string option" where
  "setting_val db j k = map_of (map (\<lambda>r. ((sr_job_name r, sr_key r), sr_value r)) (pg_rows db)) (j, k)"

lemma settings_script [simp]:
  "settings_ok (db\<lparr>pg_script := os\<rparr>) = settings_ok db" "setting_val (db\<lparr>pg_script := os\<rparr>) = setting_val db"
  by (simp_all add: settings_ok_def setting_val_def fun_eq_iff)

lemma foldl_upd:
  "foldl (\<lambda>m r. m(f r \<mapsto> g r)) m rs k = (case map_of (map (\<lambda>r. (f r, g r)) (rev rs)) k of None \<Rightarrow> m k | Some v \<Rightarrow> Some v)"
  by (induction rs arbitrary: m) (auto simp: map_add_def split: option.splits)

lemma setting_val_Some:
  assumes "settings_ok db"
  shows "setting_val db j k = Some v \<longleftrightarrow> (\<exists>r\<in>set (pg_rows db). sr_job_name r = j \<and> sr_key r = k \<and> sr_value r = v)"
proof -
  have "distinct (map fst (map (\<lambda>r. ((sr_job_name r, sr_key r), sr_value r)) (pg_rows db)))"
    using assms by (simp add: settings_ok_def comp_def)
  then show ?thesis unfolding setting_val_def by (subst map_of_eq_Some_iff) (auto simp: image_iff)
qed

lemma collected:
  assumes "settings_ok db"
  shows "foldl (\<lambda>out r. out(sr_key r \<mapsto> sr_value r)) Map.empty (filter (\<lambda>r. sr_job_name r = j) (pg_scan db)) = setting_val db j"
proof (rule ext)
  fix k
  let ?rs = "filter (\<lambda>r. sr_job_name r = j) (pg_scan db)"
  have "distinct (map (\<lambda>r. (sr_job_name r, sr_key r)) (pg_scan db))"
    using assms by (simp add: settings_ok_def pg_scan_def distinct_map)
  then have "distinct (map sr_key ?rs)" by (auto simp: distinct_map inj_on_def)
  then have "distinct (map fst (map (\<lambda>r. (sr_key r, sr_value r)) (rev ?rs)))"
    by (simp add: comp_def flip: rev_map)
  then have "map_of (map (\<lambda>r. (sr_key r, sr_value r)) (rev ?rs)) k = Some v \<longleftrightarrow> setting_val db j k = Some v" for v
    unfolding setting_val_Some [OF assms] by (subst map_of_eq_Some_iff) auto
  then have "map_of (map (\<lambda>r. (sr_key r, sr_value r)) (rev ?rs)) k = setting_val db j k"
    by (rule option_eqI)
  then show "foldl (\<lambda>out r. out(sr_key r \<mapsto> sr_value r)) Map.empty ?rs k = setting_val db j k"
    by (simp add: foldl_upd split: option.split)
qed

lemma setting_Delete_effect:
  assumes "settings_ok db"
  shows "settings_ok (db\<lparr>pg_rows := filter (\<lambda>r. \<not> (sr_job_name r = j \<and> sr_key r = k)) (pg_rows db)\<rparr>)" (is "settings_ok ?d")
    and "setting_val (db\<lparr>pg_rows := filter (\<lambda>r. \<not> (sr_job_name r = j \<and> sr_key r = k)) (pg_rows db)\<rparr>)
      = (setting_val db)(j := (setting_val db j)(k := None))"
proof -
  show ok: "settings_ok ?d" using assms by (simp add: settings_ok_def distinct_map_filter)
  have "setting_val ?d i l = Some v \<longleftrightarrow> ((setting_val db)(j := (setting_val db j)(k := None))) i l = Some v" for i l v
  proof (cases "i = j \<and> l = k")
    case True
    then show ?thesis unfolding setting_val_Some [OF ok] by auto
  next
    case False
    then have key: "((setting_val db)(j := (setting_val db j)(k := None))) i l = setting_val db i l" by auto
    show ?thesis unfolding key setting_val_Some [OF ok] setting_val_Some [OF assms] using False by auto
  qed
  then show "setting_val ?d = (setting_val db)(j := (setting_val db j)(k := None))"
    by (intro ext option_eqI)
qed

definition upsert :: "string \<Rightarrow> string \<Rightarrow> string \<Rightarrow> settings_db \<Rightarrow> settings_db" where
  "upsert j k v db =
     (let hit = (\<lambda>r. sr_job_name r = j \<and> sr_key r = k)
      in db\<lparr>pg_rows :=
           if \<exists>r\<in>set (pg_rows db). hit r
           then map (\<lambda>r. if hit r then r\<lparr>sr_value := v, sr_updated_at := pg_now db\<rparr> else r) (pg_rows db)
           else pg_rows db @ [\<lparr>sr_job_name = j, sr_key = k, sr_value = v, sr_updated_at = pg_now db\<rparr>]\<rparr>)"

lemma upsert_effect:
  assumes "settings_ok db"
  shows "settings_ok (upsert j k v db)" and "setting_val (upsert j k v db) = (setting_val db)(j := (setting_val db j)(k \<mapsto> v))"
proof -
  have keys: "map (\<lambda>r. (sr_job_name r, sr_key r)) (map (\<lambda>r. if sr_job_name r = j \<and> sr_key r = k
      then r\<lparr>sr_value := v, sr_updated_at := t\<rparr> else r) rs) = map (\<lambda>r. (sr_job_name r, sr_key r)) rs" for rs t
    by (induction rs) auto
  show ok: "settings_ok (upsert j k v db)"
  proof (cases "\<exists>r\<in>set (pg_rows db). sr_job_name r = j \<and> sr_key r = k")
    case True
    with assms keys [of "pg_now db" "pg_rows db"] show ?thesis
      unfolding settings_ok_def upsert_def Let_def by (simp del: map_map map_eq_conv)
  next
    case False
    with assms show ?thesis unfolding settings_ok_def upsert_def Let_def by auto
  qed
  have "setting_val (upsert j k v db) i l = Some w \<longleftrightarrow> ((setting_val db)(j := (setting_val db j)(k \<mapsto> v))) i l = Some w" for i l w
  proof (cases "i = j \<and> l = k")
    case True
    then show ?thesis unfolding setting_val_Some [OF ok] unfolding upsert_def Let_def
      by (auto simp del: if_image_distrib)
  next
    case False
    then have key: "((setting_val db)(j := (setting_val db j)(k \<mapsto> v))) i l = setting_val db i l" by auto
    show ?thesis unfolding key setting_val_Some [OF ok] setting_val_Some [OF assms] using False
      unfolding upsert_def Let_def by (auto simp del: if_image_distrib)
  qed
  then show "setting_val (upsert j k v db) = (setting_val db)(j := (setting_val db j)(k \<mapsto> v))"
    by (intro ext option_eqI)
qed

lemma setting_Set_stmt: "v \<noteq> [] \<Longrightarrow> setting_Set j k v = stmt (\<lambda>db. (Inr (), upsert j k v db))"
  by (simp add: setting_Set_def upsert_def Let_def)

lemma setting_Delete_stmt:
  "setting_Delete j k = stmt (\<lambda>db. (Inr (), db\<lparr>pg_rows := filter (\<lambda>r. \<not> (sr_job_name r = j \<and> sr_key r = k)) (pg_rows db)\<rparr>))"
  by (simp add: setting_Delete_def exec_delete_def)

lemma write_result:
  assumes "stmt (\<lambda>db. (Inr (), f db)) db = (r, db')" and "\<And>db. settings_ok db \<Longrightarrow> settings_ok (f db) \<and> setting_val (f db) = g (setting_val db)"
    and "settings_ok db"
  shows "settings_ok db' \<and> (setting_val db' = g (setting_val db) \<or> r \<noteq> Inr () \<and> setting_val db' = setting_val db)"
  using assms(1)
proof (cases rule: stmt_cases [consumes 1])
  case (executed os)
  then show ?thesis using assms(2) [of "db\<lparr>pg_script := os\<rparr>"] assms(3) by simp
next
  case (lost os e)
  then show ?thesis using assms(2) [of "db\<lparr>pg_script := os\<rparr>"] assms(3) by simp
qed (use assms(3) in simp)

lemma Set_result:
  assumes "setting_Set j k v db = (r, db')" "settings_ok db"
  shows "settings_ok db' \<and> (setting_val db' = (setting_val db)(j := override k (setting_val db j) v) \<or> r \<noteq> Inr () \<and> setting_val db' = setting_val db)"
proof (cases "v = []")
  case True
  then have "setting_Delete j k db = (r, db')" using assms(1) by (simp add: setting_Set_def)
  from write_result [OF this [unfolded setting_Delete_stmt], of "\<lambda>m. m(j := (m j)(k := None))"] setting_Delete_effect assms(2)
  show ?thesis using True by (simp add: override_def)
next
  case False
  from write_result [OF assms(1) [unfolded setting_Set_stmt [OF False]], of "\<lambda>m. m(j := (m j)(k \<mapsto> v))"] upsert_effect assms(2)
  show ?thesis using False by (simp add: override_def)
qed

lemma Delete_result:
  assumes "setting_Delete j k db = (r, db')" "settings_ok db"
  shows "settings_ok db' \<and> (setting_val db' = (setting_val db)(j := (setting_val db j)(k := None)) \<or> r \<noteq> Inr () \<and> setting_val db' = setting_val db)"
  using write_result [OF assms(1) [unfolded setting_Delete_stmt], of "\<lambda>m. m(j := (m j)(k := None))"] setting_Delete_effect assms(2)
  by simp

lemma Get_result:
  assumes "setting_Get j db = (r, db')" "settings_ok db"
  shows "settings_ok db' \<and> setting_val db' = setting_val db \<and> (\<forall>m. r = Inr m \<longrightarrow> m = setting_val db j)"
  using assms(1) unfolding setting_Get_def
proof (cases rule: stmt_cases [consumes 1])
  case (executed os)
  then show ?thesis using collected [of "db\<lparr>pg_script := os\<rparr>" j] assms(2) by simp
qed (use assms(2) in simp_all)

interpretation ps: settings_store PGSettings setting_val settings_ok
  by unfold_locales (auto simp: PGSettings_def dest: Get_result Set_result Delete_result)

section \<open>Properties\<close>

text \<open>
  C30. The Postgres settings are a map from job and key to value. Whatever statements fail: reading
  gives exactly the job's overrides or an error; setting a value stores it and an empty value
  removes it, for that job and key only; deleting removes it; a reported error leaves the map as it
  was or does the same; and every job and key keeps at most one row.
\<close>

theorem job_settings_refine_map:
  assumes "settings_ok db"
    and "setting_Get i db = (g, db1)" and "setting_Set j k v db = (r, db2)" and "setting_Delete j k db = (d, db3)"
  shows "settings_ok db1 \<and> settings_ok db2 \<and> settings_ok db3
    \<and> setting_val db1 = setting_val db \<and> (\<forall>m. g = Inr m \<longrightarrow> m = setting_val db i)
    \<and> (setting_val db2 = (setting_val db)(j := (setting_val db j)(k := if v = [] then None else Some v))
        \<or> r \<noteq> Inr () \<and> setting_val db2 = setting_val db)
    \<and> (setting_val db3 = (setting_val db)(j := (setting_val db j)(k := None))
        \<or> d \<noteq> Inr () \<and> setting_val db3 = setting_val db)"
  using Get_result [OF assms(2,1)] Set_result [OF assms(3,1)] Delete_result [OF assms(4,1)]
  unfolding override_def by blast

theorem job_settings_refine_map_witness:
  "let db = pg_table [\<lparr>sr_job_name = ''scan'', sr_key = ''ttl'', sr_value = ''60'', sr_updated_at = 1\<rparr>] 1 9
   in setting_val (snd (setting_Set ''scan'' ''ttl'' ''5'' db)) ''scan'' ''ttl'' = Some ''5''
      \<and> setting_val (snd (setting_Set ''scan'' ''ttl'' [] db)) ''scan'' ''ttl'' = None"
proof -
  let ?db = "pg_table [\<lparr>sr_job_name = ''scan'', sr_key = ''ttl'', sr_value = ''60'', sr_updated_at = 1\<rparr>] 1 9"
  have ok: "settings_ok ?db" by (simp add: settings_ok_def pg_table_def)
  have "fst (setting_Set ''scan'' ''ttl'' v ?db) = Inr ()" for v
    by (simp add: setting_Set_def setting_Delete_def exec_delete_def stmt_def pg_table_def Let_def)
  then have s: "setting_Set ''scan'' ''ttl'' v ?db = (Inr (), snd (setting_Set ''scan'' ''ttl'' v ?db))" for v
    by (metis prod.collapse)
  from job_settings_refine_map [OF ok prod.collapse [symmetric] s prod.collapse [symmetric], of "''5''"]
    job_settings_refine_map [OF ok prod.collapse [symmetric] s prod.collapse [symmetric], of "[]"]
  show ?thesis by (simp add: Let_def)
qed

end
