(* ===== verification/GoUrl.thy ===== *)
theory GoUrl
  imports GoStrings
begin

text \<open>
  Go's \<open>net/url\<close>: \<open>QueryEscape\<close>, the encoding of a form as \<open>url.Values.Encode\<close> does it, and the reading
  of a form back, which is the specification of what an encoded form says.
\<close>

section \<open>Form encoding\<close>

definition hex_upper :: "nat \<Rightarrow> char" where
  "hex_upper n = (''0123456789ABCDEF'' ! n)"

definition unreserved :: "char \<Rightarrow> bool" where
  "unreserved c \<longleftrightarrow>
     (let n = of_char c :: nat
      in 0x30 \<le> n \<and> n \<le> 0x39 \<or> 0x41 \<le> n \<and> n \<le> 0x5A \<or> 0x61 \<le> n \<and> n \<le> 0x7A
         \<or> c \<in> {CHR ''-'', CHR ''_'', CHR ''.'', CHR ''~''})"

definition escape_byte :: "char \<Rightarrow> string" where
  "escape_byte c =
     (if unreserved c then [c] else if c = CHR '' '' then ''+''
      else [CHR 0x25, hex_upper (of_char c div 16), hex_upper (of_char c mod 16)])"

definition QueryEscape :: "string \<Rightarrow> string" where
  "QueryEscape s = concat (map escape_byte s)"

text \<open>The pairs in the order of their keys.\<close>

definition form_Encode :: "(string \<times> string) list \<Rightarrow> string" where
  "form_Encode kvs = intercalate ''&'' (map (\<lambda>(k, v). QueryEscape k @ ''='' @ QueryEscape v) kvs)"

section \<open>Reading a form back\<close>

definition unhex :: "char \<Rightarrow> nat" where
  "unhex c = (let n = of_char c :: nat in if n < 0x40 then n - 0x30 else n - 0x37)"

fun QueryUnescape :: "string \<Rightarrow> string" where
  "QueryUnescape [] = []"
| "QueryUnescape (c # s) =
     (if c = CHR ''+'' then CHR '' '' # QueryUnescape s
      else if c = CHR 0x25 then
        (case s of
           h # l # t \<Rightarrow> char_of (16 * unhex h + unhex l) # QueryUnescape t
         | _ \<Rightarrow> [])
      else c # QueryUnescape s)"

definition form_pair :: "string \<Rightarrow> string \<times> string" where
  "form_pair p = (QueryUnescape (takeWhile (\<lambda>c. c \<noteq> CHR ''='') p), QueryUnescape (tl (dropWhile (\<lambda>c. c \<noteq> CHR ''='') p)))"

definition form_decode :: "string \<Rightarrow> (string \<times> string) list" where
  "form_decode s = map form_pair (Split (CHR ''&'') s)"

lemma hex_upper_ok: "n < 16 \<Longrightarrow> unhex (hex_upper n) = n \<and> hex_upper n \<noteq> CHR ''&'' \<and> hex_upper n \<noteq> CHR ''=''"
proof -
  have "list_all (\<lambda>n. unhex (hex_upper n) = n \<and> hex_upper n \<noteq> CHR ''&'' \<and> hex_upper n \<noteq> CHR ''='') [0..<16]"
    by code_simp
  then show "n < 16 \<Longrightarrow> ?thesis" by (simp add: list_all_iff)
qed

lemma of_char_split: "(char_of (16 * (of_char c div 16) + of_char c mod 16 :: nat) :: char) = c"
  by simp

lemma escape_byte_ok:
  "QueryUnescape (escape_byte c @ s) = c # QueryUnescape s"
  "CHR ''&'' \<notin> set (escape_byte c)" "CHR ''='' \<notin> set (escape_byte c)"
proof -
  have n: "(of_char c :: nat) div 16 < 16" "(of_char c :: nat) mod 16 < 16"
    using nat_of_char_less_256 [of c] by (simp_all add: div_less_iff_less_mult)
  note h = hex_upper_ok [OF n(1)] hex_upper_ok [OF n(2)]
  have u: "c \<noteq> CHR ''+'' \<and> c \<noteq> CHR 0x25 \<and> c \<noteq> CHR ''&'' \<and> c \<noteq> CHR ''=''" if "unreserved c"
    using that by (auto simp: unreserved_def Let_def)
  show "QueryUnescape (escape_byte c @ s) = c # QueryUnescape s"
    using u h of_char_split [of c] by (auto simp: escape_byte_def)
  show "CHR ''&'' \<notin> set (escape_byte c)" "CHR ''='' \<notin> set (escape_byte c)"
    using u h by (auto simp: escape_byte_def)
qed

lemma QueryEscape_ok:
  "QueryUnescape (QueryEscape s) = s" "CHR ''&'' \<notin> set (QueryEscape s)" "CHR ''='' \<notin> set (QueryEscape s)"
  by (induction s) (simp_all add: QueryEscape_def escape_byte_ok)

lemma Split_intercalate:
  "ls \<noteq> [] \<Longrightarrow> \<forall>l\<in>set ls. x \<notin> set l \<Longrightarrow> Split x (intercalate [x] ls) = ls"
proof (induction "[x]" ls rule: intercalate.induct)
  case (2 s)
  then have "Split x s = [s]" by (induction s) auto
  then show ?case by simp
next
  case (3 s t ts)
  then show ?case by simp
qed simp

lemma form_round_trip: "kvs \<noteq> [] \<Longrightarrow> form_decode (form_Encode kvs) = kvs"
proof -
  assume ne: "kvs \<noteq> []"
  let ?f = "\<lambda>(k, v). QueryEscape k @ ''='' @ QueryEscape v"
  have pair: "form_pair (?f kv) = kv" for kv
  proof (cases kv)
    case (Pair k v)
    have "takeWhile (\<lambda>c. c \<noteq> CHR ''='') (?f kv) = QueryEscape k" "dropWhile (\<lambda>c. c \<noteq> CHR ''='') (?f kv) = CHR ''='' # QueryEscape v"
      using QueryEscape_ok(3) [of k] by (auto simp: Pair takeWhile_append dropWhile_append)
    then show ?thesis by (simp add: form_pair_def Pair QueryEscape_ok(1))
  qed
  have "Split (CHR ''&'') (intercalate ''&'' (map ?f kvs)) = map ?f kvs"
    by (rule Split_intercalate) (use ne QueryEscape_ok(2) in auto)
  moreover have "map form_pair (map ?f kvs) = kvs"
    unfolding map_map by (rule map_idI) (simp only: comp_apply pair)
  ultimately show ?thesis by (simp only: form_decode_def form_Encode_def)
qed

end
