(* ===== verification/Captcha.thy ===== *)
theory Captcha
  imports GoUrl Gin
begin

text \<open>
  captcha/captcha.go: the Turnstile hook. The verifier may be nil. The HTTP client and the JSON
  decoder are parameters (\<open>ht_NewRequest\<close>, \<open>ht_Do\<close>, \<open>ht_Decode\<close>); the form the verifier posts is
  encoded as \<open>url.Values.Encode\<close> does (GoUrl). Handlers are judged by the calls they make on the context.
\<close>

section \<open>The verifier\<close>

definition FormField :: string where
  "FormField = ''cf-turnstile-response''"

definition siteVerifyURL :: string where
  "siteVerifyURL = ''https://challenges.cloudflare.com/turnstile/v0/siteverify''"

record captcha_config =
  cc_SiteKey :: string
  cc_Secret :: string

record http_request =
  hr_URL :: string
  hr_Header :: "(string \<times> string) list"
  hr_Body :: string

record 's http =
  ht_NewRequest :: "string \<Rightarrow> string \<Rightarrow> gerr + http_request"
  ht_Do :: "http_request \<Rightarrow> ('s, bytes) call"
  ht_Decode :: "bytes \<Rightarrow> gerr + bool"

record 's verifier =
  vf_cfg :: captcha_config
  vf_client :: "'s http"
  vf_verifyURL :: string

definition captcha_New :: "'s http \<Rightarrow> captcha_config \<Rightarrow> 's verifier option" where
  "captcha_New client cfg = Some \<lparr>vf_cfg = cfg, vf_client = client, vf_verifyURL = siteVerifyURL\<rparr>"

definition Enabled :: "'s verifier option \<Rightarrow> bool" where
  "Enabled v = (case v of None \<Rightarrow> False | Some v \<Rightarrow> cc_Secret (vf_cfg v) \<noteq> [])"

definition verify_form :: "'s verifier \<Rightarrow> string \<Rightarrow> string \<Rightarrow> string" where
  "verify_form v token remoteIP =
     form_Encode ((if remoteIP \<noteq> [] then [(''remoteip'', remoteIP)] else [])
       @ [(''response'', token), (''secret'', cc_Secret (vf_cfg v))])"

definition captcha_Verify :: "'s verifier option \<Rightarrow> string \<Rightarrow> string \<Rightarrow> 's \<Rightarrow> gerr option \<times> 's" where
  "captcha_Verify vo token remoteIP s =
     (case vo of
        None \<Rightarrow> (None, s)
      | Some v \<Rightarrow>
          if \<not> Enabled (Some v) then (None, s)
          else if TrimSpace token = [] then (Some (Sentinel Captcha_ErrFailed), s)
          else
            case ht_NewRequest (vf_client v) (vf_verifyURL v) (verify_form v token remoteIP) of
              Inl err \<Rightarrow> (Some err, s)
            | Inr req \<Rightarrow>
                let req = req\<lparr>hr_Header := hr_Header req @ [(''Content-Type'', ''application/x-www-form-urlencoded'')]\<rparr>
                in case ht_Do (vf_client v) req s of
                     (Inl err, s) \<Rightarrow> (Some (Wrapf ''captcha: siteverify: '' err), s)
                   | (Inr body, s) \<Rightarrow>
                       (case ht_Decode (vf_client v) body of
                          Inl err \<Rightarrow> (Some (Wrapf ''captcha: decode siteverify: '' err), s)
                        | Inr success \<Rightarrow> (if \<not> success then Some (Sentinel Captcha_ErrFailed) else None, s)))"

definition captcha_token :: "gctx \<Rightarrow> string" where
  "captcha_token c = (if g_form c FormField = [] then g_header c ''Cf-Turnstile-Response'' else g_form c FormField)"

definition captcha_Middleware :: "'s verifier option \<Rightarrow> gctx \<Rightarrow> 's \<Rightarrow> gctx \<times> 's" where
  "captcha_Middleware v c s =
     (if \<not> Enabled v then (call CNext c, s)
      else case captcha_Verify v (captcha_token c) (g_ip c) s of
             (Some err, s) \<Rightarrow> (call (CAbortJSON 403 ''captcha verification failed'') c, s)
           | (None, s) \<Rightarrow> (call CNext c, s))"

section \<open>The widget\<close>

text \<open>
  \<open>fmt\<close>'s \<open>%q\<close> on ASCII text; \<open>other\<close> says how it renders a maximal run of bytes outside ASCII, which
  depends on the tables of printable runes.
\<close>

abbreviation (input) "backslash \<equiv> CHR 0x5C"
abbreviation (input) "dquote \<equiv> CHR 0x22"

definition hex_lower :: "nat \<Rightarrow> char" where
  "hex_lower n = (''0123456789abcdef'' ! n)"

definition quote_char :: "char \<Rightarrow> string" where
  "quote_char c =
     (if c = dquote \<or> c = backslash then [backslash, c]
      else if c = CHR 0x07 then [backslash, CHR ''a''] else if c = CHR 0x08 then [backslash, CHR ''b'']
      else if c = CHR 0x0C then [backslash, CHR ''f''] else if c = CHR 0x0A then [backslash, CHR ''n'']
      else if c = CHR 0x0D then [backslash, CHR ''r''] else if c = CHR 0x09 then [backslash, CHR ''t'']
      else if c = CHR 0x0B then [backslash, CHR ''v'']
      else if (of_char c :: nat) < 0x20 \<or> c = CHR 0x7F
      then [backslash, CHR ''x'', hex_lower (of_char c div 16), hex_lower (of_char c mod 16)]
      else [c])"

definition ascii :: "char \<Rightarrow> bool" where
  "ascii c \<longleftrightarrow> (of_char c :: nat) < 0x80"

function quote_text :: "(string \<Rightarrow> string) \<Rightarrow> string \<Rightarrow> string" where
  "quote_text other [] = []"
| "quote_text other (c # s) =
     (if ascii c then quote_char c @ quote_text other s
      else other (takeWhile (\<lambda>d. \<not> ascii d) (c # s)) @ quote_text other (dropWhile (\<lambda>d. \<not> ascii d) (c # s)))"
  by pat_completeness auto
termination
  by (relation "measure (\<lambda>(other, s). length s)") (auto simp: le_imp_less_Suc length_dropWhile_le)

definition Quote :: "(string \<Rightarrow> string) \<Rightarrow> string \<Rightarrow> string" where
  "Quote other s = [dquote] @ quote_text other s @ [dquote]"

record widget_options =
  wo_theme :: string
  wo_size :: string
  wo_appearance :: string

definition Theme :: "string \<Rightarrow> widget_options \<Rightarrow> widget_options" where
  "Theme t w = w\<lparr>wo_theme := t\<rparr>"

definition Size :: "string \<Rightarrow> widget_options \<Rightarrow> widget_options" where
  "Size s w = w\<lparr>wo_size := s\<rparr>"

definition Appearance :: "string \<Rightarrow> widget_options \<Rightarrow> widget_options" where
  "Appearance a w = w\<lparr>wo_appearance := a\<rparr>"

definition Widget :: "(string \<Rightarrow> string) \<Rightarrow> 's verifier option \<Rightarrow> (widget_options \<Rightarrow> widget_options) list \<Rightarrow> string" where
  "Widget other vo opts =
     (case vo of
        None \<Rightarrow> []
      | Some v \<Rightarrow>
          if \<not> Enabled (Some v) then []
          else
            let w = foldl (\<lambda>w fn. fn w) \<lparr>wo_theme = ''auto'', wo_size = ''flexible'', wo_appearance = ''always''\<rparr> opts;
                markup = ''<div class='' @ [dquote] @ ''cf-turnstile'' @ [dquote] @ '' data-sitekey='' @ Quote other (cc_SiteKey (vf_cfg v))
                  @ '' data-theme='' @ Quote other (wo_theme w) @ '' data-size='' @ Quote other (wo_size w)
                  @ '' data-appearance='' @ Quote other (wo_appearance w) @ ''></div>'';
                script = ''<script src='' @ [dquote] @ ''https://challenges.cloudflare.com/turnstile/v0/api.js'' @ [dquote]
                  @ '' async defer></script>''
            in markup @ script)"

definition WidgetHTML :: "(string \<Rightarrow> string) \<Rightarrow> 's verifier option \<Rightarrow> string" where
  "WidgetHTML other v = Widget other v []"

section \<open>Properties\<close>

text \<open>
  C18. An enabled captcha fails closed, and lets a solved one through. The request goes on exactly when
  its token is not blank, a request with the form can be built, the siteverify service answers it, and the
  answer decodes to success; every other outcome (blank token, request, transport or decoding error,
  refusal) answers 403 and stops, and for a blank token the service is not asked. The form decodes
  to the client's address, that token and the secret, so no token can smuggle in another parameter.
\<close>

theorem captcha_fails_closed:
  assumes "captcha_Middleware (Some v) c s = (c', s')" and "cc_Secret (vf_cfg v) \<noteq> []"
  shows "form_decode (verify_form v (captcha_token c) (g_ip c)) =
      (if g_ip c \<noteq> [] then [(''remoteip'', g_ip c)] else [])
        @ [(''response'', captcha_token c), (''secret'', cc_Secret (vf_cfg v))]
    \<and> c' = (if TrimSpace (captcha_token c) \<noteq> []
          \<and> (\<exists>req body. ht_NewRequest (vf_client v) (vf_verifyURL v) (verify_form v (captcha_token c) (g_ip c)) = Inr req
              \<and> ht_Do (vf_client v) (req\<lparr>hr_Header := hr_Header req @ [(''Content-Type'', ''application/x-www-form-urlencoded'')]\<rparr>) s
                  = (Inr body, s')
              \<and> ht_Decode (vf_client v) body = Inr True)
        then call CNext c else call (CAbortJSON 403 ''captcha verification failed'') c)
    \<and> (TrimSpace (captcha_token c) = [] \<longrightarrow> s' = s)"
proof -
  have en: "Enabled (Some v)" using assms(2) by (simp add: Enabled_def)
  let ?form = "verify_form v (captcha_token c) (g_ip c)"
  have form: "form_decode ?form = (if g_ip c \<noteq> [] then [(''remoteip'', g_ip c)] else [])
      @ [(''response'', captcha_token c), (''secret'', cc_Secret (vf_cfg v))]"
    unfolding verify_form_def by (rule form_round_trip) simp
  obtain r where run: "captcha_Verify (Some v) (captcha_token c) (g_ip c) s = (r, s')"
    and c': "c' = (if r = None then call CNext c else call (CAbortJSON 403 ''captcha verification failed'') c)"
    using assms(1) en by (auto simp: captcha_Middleware_def split: prod.splits option.splits)
  have "r = None \<longleftrightarrow> TrimSpace (captcha_token c) \<noteq> []
      \<and> (\<exists>req body. ht_NewRequest (vf_client v) (vf_verifyURL v) ?form = Inr req
          \<and> ht_Do (vf_client v) (req\<lparr>hr_Header := hr_Header req @ [(''Content-Type'', ''application/x-www-form-urlencoded'')]\<rparr>) s
              = (Inr body, s')
          \<and> ht_Decode (vf_client v) body = Inr True)"
    using run en by (auto simp: captcha_Verify_def Let_def split: if_splits sum.splits prod.splits)
  moreover have "TrimSpace (captcha_token c) = [] \<longrightarrow> s' = s" using run en by (auto simp: captcha_Verify_def)
  ultimately show ?thesis unfolding c' using form by simp
qed

definition ex_turnstile :: "string list verifier" where
  "ex_turnstile =
     \<lparr>vf_cfg = \<lparr>cc_SiteKey = ''site'', cc_Secret = ''s3&cret''\<rparr>,
      vf_client = \<lparr>ht_NewRequest = (\<lambda>u b. Inr \<lparr>hr_URL = u, hr_Header = [], hr_Body = b\<rparr>),
        ht_Do = (\<lambda>r s. (Inr (if (''response'', ''good'') \<in> set (form_decode (hr_Body r)) then ''1'' else ''0''), hr_Body r # s)),
        ht_Decode = (\<lambda>b. Inr (b = ''1''))\<rparr>,
      vf_verifyURL = siteVerifyURL\<rparr>"

theorem captcha_fails_closed_witness:
  "let req = (\<lambda>t. (fresh_ctx \<lparr>s_vals = Map.empty, s_saved = Map.empty, s_fault = None\<rparr>)\<lparr>g_form := (\<lambda>_. t), g_ip := ''1.2.3.4''\<rparr>)
   in fst (captcha_Middleware (Some ex_turnstile) (req ''good'') []) = call CNext (req ''good'')
      \<and> fst (captcha_Middleware (Some ex_turnstile) (req ''bad&response=good'') [])
        = call (CAbortJSON 403 ''captcha verification failed'') (req ''bad&response=good'')"
proof -
  define req where "req = (\<lambda>t. (fresh_ctx \<lparr>s_vals = Map.empty, s_saved = Map.empty, s_fault = None\<rparr>)\<lparr>g_form := (\<lambda>_. t), g_ip := ''1.2.3.4''\<rparr>)"
  have tok: "captcha_token (req t) = t" if "t \<noteq> []" for t using that by (simp add: captcha_token_def req_def)
  have ip: "g_ip (req t) = ''1.2.3.4''" for t by (simp add: req_def)
  have trim: "TrimSpace ''good'' = ''good''" by (rule TrimSpace_visible) (simp_all add: visible_def)
  have form: "form_decode (verify_form ex_turnstile t ''1.2.3.4'')
      = [(''remoteip'', ''1.2.3.4''), (''response'', t), (''secret'', ''s3&cret'')]" for t
    unfolding verify_form_def by (subst form_round_trip) (simp_all add: ex_turnstile_def)
  have form': "form_decode (verify_form \<lparr>vf_cfg = \<lparr>cc_SiteKey = ''site'', cc_Secret = ''s3&cret''\<rparr>, vf_client = cl, vf_verifyURL = u\<rparr>
      t ''1.2.3.4'') = [(''remoteip'', ''1.2.3.4''), (''response'', t), (''secret'', ''s3&cret'')]" for cl :: "string list http" and u t
    unfolding verify_form_def by (subst form_round_trip) simp_all
  have hyp: "cc_Secret (vf_cfg ex_turnstile) \<noteq> []" by (simp add: ex_turnstile_def)
  note gate = captcha_fails_closed [OF prod.collapse [symmetric] hyp]
  have "fst (captcha_Middleware (Some ex_turnstile) (req ''good'') []) = call CNext (req ''good'')"
    using gate [of "req ''good''" "[]"] by (simp add: tok ip trim captcha_Middleware_def captcha_Verify_def Enabled_def ex_turnstile_def form')
  moreover have "fst (captcha_Middleware (Some ex_turnstile) (req ''bad&response=good'') [])
      = call (CAbortJSON 403 ''captcha verification failed'') (req ''bad&response=good'')"
    using gate [of "req ''bad&response=good''" "[]"] by (auto simp: tok ip form' ex_turnstile_def split: if_splits)
  ultimately show ?thesis by (simp add: req_def)
qed

end
