(* ===== verification/Views.thy ===== *)
theory Views
  imports GoText GoUrl Gin
begin

text \<open>
  What the packages that hand pages to the host share: the view record of the core package, pages as
  functions of the request context and of the store, the current-user guard, HTML escaping as
  \<open>html/template\<close> does it in text and quoted attributes, and the date layouts. An embedded template
  file and the CSRF token of a request are parameters of the pages that use them; the zone of the
  process (\<open>zone t\<close>, in seconds east of UTC) is one of the layouts.
\<close>

section \<open>Views\<close>

datatype slot = SlotSitePage | SlotAdminPage | SlotUserWidget

type_synonym 's page = "gctx \<Rightarrow> 's \<Rightarrow> (gerr + string) \<times> gctx \<times> 's"

record 's view =
  v_Slug :: string
  v_Title :: string
  v_Slot :: slot
  v_MinRole :: role
  v_Public :: bool
  v_Render :: "'s page"
  v_Actions :: "(string \<times> 's page) list"

type_synonym current_func = "gctx \<Rightarrow> core_user option \<times> bool \<times> gctx"

text \<open>A page for the signed-in user, and what it does when there is none. Using a nil user panics.\<close>

definition with_user :: "current_func \<Rightarrow> 's page \<Rightarrow> (core_user \<Rightarrow> 's page) \<Rightarrow> 's page" where
  "with_user current none some c s =
     (case current c of
        (u, ok, c) \<Rightarrow>
          if \<not> ok then none c s
          else case u of
                 None \<Rightarrow> (Inl (Foreign ''nil pointer dereference''), c, s)
               | Some u \<Rightarrow> some u c s)"

definition page_text :: "gerr + string \<Rightarrow> 's page" where
  "page_text r c s = (r, c, s)"

definition redirect_to :: "string \<Rightarrow> string \<Rightarrow> string \<Rightarrow> 's page" where
  "redirect_to url key val c s = (Inr [], call (CRedirect 303 (url @ ''?'' @ key @ ''='' @ QueryEscape val)) c, s)"

section \<open>HTML text\<close>

definition html_special :: "char \<Rightarrow> string option" where
  "html_special c =
     (if c = CHR 0x00 then Some replacement
      else if c = CHR 0x22 then Some ''&#34;''
      else if c = CHR ''&'' then Some ''&amp;''
      else if c = CHR 0x27 then Some ''&#39;''
      else if c = CHR ''+'' then Some ''&#43;''
      else if c = CHR ''<'' then Some ''&lt;''
      else if c = CHR ''>'' then Some ''&gt;''
      else None)"

definition html_escape :: "string \<Rightarrow> string" where
  "html_escape s = concat (map (\<lambda>c. case html_special c of None \<Rightarrow> [c] | Some e \<Rightarrow> e) s)"

text \<open>Escaped text has no character that opens or closes a tag or an attribute value.\<close>

lemma html_escape_safe:
  assumes "c \<in> {CHR ''<'', CHR ''>'', CHR 0x22, CHR 0x27}"
  shows "c \<notin> set (html_escape s)"
proof -
  have "c \<notin> set (case html_special d of None \<Rightarrow> [d] | Some e \<Rightarrow> e)" for d
    using assms by (auto simp: html_special_def replacement_def)
  then show ?thesis by (auto simp: html_escape_def)
qed

section \<open>Date layouts\<close>

definition local_secs :: "(time \<Rightarrow> int) \<Rightarrow> time \<Rightarrow> int" where
  "local_secs zone t = t div Second + zone t"

definition format_date :: "(time \<Rightarrow> int) \<Rightarrow> time \<Rightarrow> string" where
  "format_date zone t =
     (case civil (local_secs zone t div 86400) of
        (y, m, day) \<Rightarrow> (if y < 0 then ''-'' else []) @ pad 4 (nat \<bar>y\<bar>) @ ''-'' @ pad 2 (nat m) @ ''-'' @ pad 2 (nat day))"

definition format_minute :: "(time \<Rightarrow> int) \<Rightarrow> time \<Rightarrow> string" where
  "format_minute zone t =
     (let r = local_secs zone t mod 86400
      in format_date zone t @ '' '' @ pad 2 (nat (r div 3600)) @ '':'' @ pad 2 (nat (r mod 3600 div 60)))"

definition format_second :: "(time \<Rightarrow> int) \<Rightarrow> time \<Rightarrow> string" where
  "format_second zone t =
     format_minute zone t @ '':'' @ pad 2 (nat (local_secs zone t mod 60))"

end
