(* ===== verification/Apikey.thy ===== *)
theory Apikey
  imports Views Pg GoCrypto
begin

text \<open>
  apikey/: one API key per user. Key generation, the store interface with the in-memory store
  (mock.go) and the Postgres store (pgstore.go), and the self-service page. The random bytes of a
  call are an argument of it. The locale \<open>apikey_store\<close> is the contract of a store; both stores
  interpret it.
\<close>

section \<open>Keys and stores\<close>

record key =
  k_UserID :: int
  k_Key :: string
  k_RotatedAt :: time
  k_CreatedAt :: time

record 's apikey_ops =
  ak_Resolve :: "string \<Rightarrow> ('s, int option) call"
  ak_Ensure :: "gerr + bytes \<Rightarrow> int \<Rightarrow> ('s, key) call"
  ak_Rotate :: "gerr + bytes \<Rightarrow> int \<Rightarrow> ('s, key) call"

text \<open>
  \<open>rnd\<close> is what \<open>rand.Read\<close> into the buffer of 32 bytes gives: an error or the bytes. That there are 32 of them is
  a hypothesis of the statements that speak of the length of a key (\<open>key_reach\<close>).
\<close>

definition Generate_key :: "gerr + bytes \<Rightarrow> gerr + string" where
  "Generate_key rnd = (case rnd of Inl err \<Rightarrow> Inl err | Inr b \<Rightarrow> Inr (hex_encode b))"

section \<open>The in-memory store\<close>

record mock_keys =
  mk_byUser :: "int \<Rightarrow> key option"
  mk_byKey :: "string \<Rightarrow> int option"
  mk_clock :: time

definition mkey_Resolve :: "string \<Rightarrow> (mock_keys, int option) call" where
  "mkey_Resolve key m = (Inr (if key = [] then None else mk_byKey m key), m)"

definition mkey_Ensure :: "gerr + bytes \<Rightarrow> int \<Rightarrow> (mock_keys, key) call" where
  "mkey_Ensure rnd userID m =
     (case mk_byUser m userID of
        Some k \<Rightarrow> (Inr k, m)
      | None \<Rightarrow>
          (case Generate_key rnd of
             Inl err \<Rightarrow> (Inl err, m)
           | Inr gen \<Rightarrow>
               let k = \<lparr>k_UserID = userID, k_Key = gen, k_RotatedAt = 0, k_CreatedAt = mk_clock m\<rparr>
               in (Inr k, m\<lparr>mk_byUser := (mk_byUser m)(userID \<mapsto> k), mk_byKey := (mk_byKey m)(gen \<mapsto> userID)\<rparr>)))"

definition mkey_Rotate :: "gerr + bytes \<Rightarrow> int \<Rightarrow> (mock_keys, key) call" where
  "mkey_Rotate rnd userID m =
     (let m = (case mk_byUser m userID of
                 Some old \<Rightarrow> m\<lparr>mk_byKey := (mk_byKey m)(k_Key old := None)\<rparr>
               | None \<Rightarrow> m)
      in case Generate_key rnd of
           Inl err \<Rightarrow> (Inl err, m)
         | Inr gen \<Rightarrow>
             let k = \<lparr>k_UserID = userID, k_Key = gen, k_RotatedAt = mk_clock m, k_CreatedAt = mk_clock m\<rparr>
             in (Inr k, m\<lparr>mk_byUser := (mk_byUser m)(userID \<mapsto> k), mk_byKey := (mk_byKey m)(gen \<mapsto> userID)\<rparr>))"

definition MockKeys :: "mock_keys apikey_ops" where
  "MockKeys = \<lparr>ak_Resolve = mkey_Resolve, ak_Ensure = mkey_Ensure, ak_Rotate = mkey_Rotate\<rparr>"

definition NewMockKeys :: "time \<Rightarrow> mock_keys" where
  "NewMockKeys now = \<lparr>mk_byUser = Map.empty, mk_byKey = Map.empty, mk_clock = now\<rparr>"

section \<open>The Postgres store\<close>

record key_row =
  kr_user_id :: int
  kr_api_key :: string
  kr_rotated_at :: "time option"
  kr_created_at :: time

type_synonym keys_db = "key_row pg"

definition nullTime :: "time option \<Rightarrow> time" where
  "nullTime v = (case v of None \<Rightarrow> 0 | Some t \<Rightarrow> t)"

definition row_key :: "key_row \<Rightarrow> key" where
  "row_key r = \<lparr>k_UserID = kr_user_id r, k_Key = kr_api_key r, k_RotatedAt = nullTime (kr_rotated_at r),
     k_CreatedAt = kr_created_at r\<rparr>"

definition key_Resolve :: "string \<Rightarrow> (keys_db, int option) call" where
  "key_Resolve key db =
     (if key = [] then (Inr None, db)
      else case query_row (\<lambda>r. kr_api_key r = key) db of
             (Inl err, db) \<Rightarrow> (if err = Sentinel Sql_ErrNoRows then Inr None else Inl err, db)
           | (Inr r, db) \<Rightarrow> (Inr (Some (kr_user_id r)), db))"

definition key_get :: "int \<Rightarrow> (keys_db, key) call" where
  "key_get userID db =
     (case query_row (\<lambda>r. kr_user_id r = userID) db of
        (Inl err, db) \<Rightarrow> (Inl err, db)
      | (Inr r, db) \<Rightarrow> (Inr (row_key r), db))"

abbreviation (input) "duplicate_key \<equiv> Foreign ''duplicate key value violates unique constraint''"

definition new_row :: "int \<Rightarrow> string \<Rightarrow> keys_db \<Rightarrow> key_row" where
  "new_row userID gen db = \<lparr>kr_user_id = userID, kr_api_key = gen, kr_rotated_at = None, kr_created_at = pg_now db\<rparr>"

definition insert_key :: "int \<Rightarrow> string \<Rightarrow> (keys_db, unit) call" where
  "insert_key userID gen = stmt (\<lambda>db.
     if userID \<in> kr_user_id ` set (pg_rows db) then (Inr (), db)
     else if gen \<in> kr_api_key ` set (pg_rows db) then (Inl duplicate_key, db)
     else (Inr (), db\<lparr>pg_rows := pg_rows db @ [new_row userID gen db]\<rparr>))"

definition key_Ensure :: "gerr + bytes \<Rightarrow> int \<Rightarrow> (keys_db, key) call" where
  "key_Ensure rnd userID db =
     (case Generate_key rnd of
        Inl err \<Rightarrow> (Inl err, db)
      | Inr gen \<Rightarrow>
          (case insert_key userID gen db of
             (Inl err, db) \<Rightarrow> (Inl err, db)
           | (Inr _, db) \<Rightarrow> key_get userID db))"

definition upsert_key :: "int \<Rightarrow> string \<Rightarrow> (keys_db, key) call" where
  "upsert_key userID gen = stmt (\<lambda>db.
     if \<exists>r\<in>set (pg_rows db). kr_user_id r \<noteq> userID \<and> kr_api_key r = gen then (Inl duplicate_key, db)
     else
       let upd = (\<lambda>r. if kr_user_id r = userID then r\<lparr>kr_api_key := gen, kr_rotated_at := Some (pg_now db)\<rparr> else r)
       in case find (\<lambda>r. kr_user_id r = userID) (pg_rows db) of
            Some r \<Rightarrow> (Inr (row_key (upd r)), db\<lparr>pg_rows := map upd (pg_rows db)\<rparr>)
          | None \<Rightarrow> (Inr (row_key (new_row userID gen db)), db\<lparr>pg_rows := pg_rows db @ [new_row userID gen db]\<rparr>))"

definition key_Rotate :: "gerr + bytes \<Rightarrow> int \<Rightarrow> (keys_db, key) call" where
  "key_Rotate rnd userID db =
     (case Generate_key rnd of
        Inl err \<Rightarrow> (Inl err, db)
      | Inr gen \<Rightarrow> upsert_key userID gen db)"

definition PGKeys :: "keys_db apikey_ops" where
  "PGKeys = \<lparr>ak_Resolve = key_Resolve, ak_Ensure = key_Ensure, ak_Rotate = key_Rotate\<rparr>"

section \<open>The page\<close>

record usage_day =
  ud_Label :: string
  ud_Count :: int
  ud_Pct :: int
  ud_Over :: bool

record usage =
  ug_Days :: "usage_day list"
  ug_Limit :: int
  ug_Today :: int
  ug_Week :: int

record key_page =
  kp_Key :: string
  kp_Rotated :: string
  kp_Msg :: string
  kp_Usage :: "usage option"
  kp_CSRFToken :: string

record 's key_handler =
  kh_store :: "'s apikey_ops"
  kh_current :: current_func
  kh_usage :: "(int \<Rightarrow> usage option) option"
  kh_tmpl :: "key_page \<Rightarrow> gerr + string"
  kh_csrf :: "gctx \<Rightarrow> string"
  kh_zone :: "time \<Rightarrow> int"

definition key_view :: "'s key_handler \<Rightarrow> key \<Rightarrow> string \<Rightarrow> usage option \<Rightarrow> string \<Rightarrow> gerr + string" where
  "key_view h k msg us csrf =
     (let rotated = (if IsZero (k_RotatedAt k) then [] else format_minute (kh_zone h) (k_RotatedAt k))
      in kh_tmpl h \<lparr>kp_Key = k_Key k, kp_Rotated = rotated, kp_Msg = msg, kp_Usage = us, kp_CSRFToken = csrf\<rparr>)"

definition key_render :: "gerr + bytes \<Rightarrow> 's key_handler \<Rightarrow> 's page" where
  "key_render rnd h = with_user (kh_current h) (page_text (Inr []))
     (\<lambda>u c s.
        case ak_Ensure (kh_store h) rnd (cu_ID u) s of
          (Inl err, s) \<Rightarrow> (Inl err, c, s)
        | (Inr k, s) \<Rightarrow>
            let us = (case kh_usage h of None \<Rightarrow> None | Some f \<Rightarrow> f (cu_ID u))
            in (key_view h k (g_query c ''msg'') us (kh_csrf h c), c, s))"

text \<open>The em dash of the message, in UTF-8.\<close>

definition regenerated_msg :: string where
  "regenerated_msg = ''API key regenerated '' @ [CHR 0xE2, CHR 0x80, CHR 0x94] @ '' update the new key in your connected apps''"

definition regenerate :: "gerr + bytes \<Rightarrow> 's key_handler \<Rightarrow> 's page" where
  "regenerate rnd h = with_user (kh_current h) (page_text (Inr []))
     (\<lambda>u c s.
        case ak_Rotate (kh_store h) rnd (cu_ID u) s of
          (Inl err, s) \<Rightarrow> (Inl err, c, s)
        | (Inr _, s) \<Rightarrow> redirect_to ''/p/api-key'' ''msg'' regenerated_msg c s)"

definition key_Views :: "gerr option \<Rightarrow> gerr + bytes \<Rightarrow> 's key_handler \<Rightarrow> gerr + 's view list" where
  "key_Views parse_err rnd h =
     (case parse_err of
        Some err \<Rightarrow> Inl err
      | None \<Rightarrow> Inr [\<lparr>v_Slug = ''api-key'', v_Title = ''API key'', v_Slot = SlotSitePage, v_MinRole = RoleUser, v_Public = False,
          v_Render = key_render rnd h, v_Actions = [(''regenerate'', regenerate rnd h)]\<rparr>])"

section \<open>The contract of a key store\<close>

text \<open>
  \<open>owner s k\<close> is the user a raw key resolves to. \<open>given\<close> and \<open>rotated\<close> are what a first key and a rotation do
  to it. An operation that reports an error may have had its effect.
\<close>

definition given :: "int \<Rightarrow> string \<Rightarrow> (string \<Rightarrow> int option) \<Rightarrow> string \<Rightarrow> int option" where
  "given u k m = (if u \<in> ran m then m else m(k \<mapsto> u))"

definition rotated :: "int \<Rightarrow> string \<Rightarrow> (string \<Rightarrow> int option) \<Rightarrow> string \<Rightarrow> int option" where
  "rotated u k m = (\<lambda>j. if m j = Some u then None else m j)(k \<mapsto> u)"

definition key_text :: "string \<Rightarrow> bool" where
  "key_text k \<longleftrightarrow> (\<exists>b. length b = 32 \<and> k = hex_encode b)"

lemma key_text_nonempty: "key_text k \<Longrightarrow> k \<noteq> []"
  by (auto simp: key_text_def hex_encode_def hex_byte_def)

locale apikey_store =
  fixes S :: "'s apikey_ops" and owner :: "'s \<Rightarrow> string \<Rightarrow> int option" and inv :: "'s \<Rightarrow> bool"
  assumes Resolve_ok: "inv s \<Longrightarrow> ak_Resolve S k s = (Inr r, s') \<Longrightarrow> r = owner s k"
    and Resolve_state: "inv s \<Longrightarrow> ak_Resolve S k s = (r', s') \<Longrightarrow> inv s' \<and> owner s' = owner s"
    and owner_unique: "inv s \<Longrightarrow> owner s k = Some u \<Longrightarrow> owner s k' = Some u \<Longrightarrow> k = k'"
    and Ensure_ok: "inv s \<Longrightarrow> length b = 32 \<Longrightarrow> owner s (hex_encode b) = None \<Longrightarrow> ak_Ensure S (Inr b) u s = (Inr x, s') \<Longrightarrow>
      inv s' \<and> owner s' = given u (hex_encode b) (owner s) \<and> owner s' (k_Key x) = Some u"
    and Ensure_err: "inv s \<Longrightarrow> length b = 32 \<Longrightarrow> owner s (hex_encode b) = None \<Longrightarrow> ak_Ensure S (Inr b) u s = (Inl e, s') \<Longrightarrow>
      inv s' \<and> (owner s' = owner s \<or> owner s' = given u (hex_encode b) (owner s))"
    and Rotate_ok: "inv s \<Longrightarrow> length b = 32 \<Longrightarrow> owner s (hex_encode b) = None \<Longrightarrow> ak_Rotate S (Inr b) u s = (Inr x, s') \<Longrightarrow>
      inv s' \<and> owner s' = rotated u (hex_encode b) (owner s) \<and> k_Key x = hex_encode b"
    and Rotate_err: "inv s \<Longrightarrow> length b = 32 \<Longrightarrow> owner s (hex_encode b) = None \<Longrightarrow> ak_Rotate S (Inr b) u s = (Inl e, s') \<Longrightarrow>
      inv s' \<and> (owner s' = owner s \<or> owner s' = rotated u (hex_encode b) (owner s))"
begin

text \<open>After a rotation the new key resolves to the user, no other key does, and other users keep theirs.\<close>

lemma rotate_then_resolve:
  assumes "inv s" "length b = 32" "owner s (hex_encode b) = None" "ak_Rotate S (Inr b) u s = (Inr x, s1)"
    and "ak_Resolve S k s1 = (Inr r, s2)"
  shows "r = (if k = k_Key x then Some u else if owner s k = Some u then None else owner s k)"
  using Rotate_ok [OF assms(1-4)] Resolve_ok [OF _ assms(5)] by (auto simp: rotated_def)

text \<open>Asking for the key twice gives the same key.\<close>

lemma ensure_idempotent:
  assumes "inv s" "length b = 32" "owner s (hex_encode b) = None" "ak_Ensure S (Inr b) u s = (Inr x, s1)"
    and "length b' = 32" "owner s1 (hex_encode b') = None" "ak_Ensure S (Inr b') u s1 = (Inr y, s2)"
  shows "k_Key y = k_Key x \<and> owner s2 = owner s1"
proof -
  have 1: "inv s1" "owner s1 (k_Key x) = Some u" using Ensure_ok [OF assms(1-4)] by auto
  have 2: "inv s2" "owner s2 = given u (hex_encode b') (owner s1)" "owner s2 (k_Key y) = Some u"
    using Ensure_ok [OF 1(1) assms(5-7)] by auto
  have "owner s2 = owner s1" using 1(2) 2(2) by (auto simp: given_def intro: ranI)
  with 1 2 owner_unique show ?thesis by metis
qed

end

section \<open>The in-memory store keeps the contract\<close>

definition mkeys_ok :: "mock_keys \<Rightarrow> bool" where
  "mkeys_ok m \<longleftrightarrow> (\<forall>k u. mk_byKey m k = Some u \<longleftrightarrow> (\<exists>x. mk_byUser m u = Some x \<and> k_Key x = k)) \<and> mk_byKey m [] = None"

lemma mkeys_given:
  assumes "mkeys_ok m" "mk_byUser m u = None" "mk_byKey m g = None" "g \<noteq> []" "k_Key x = g"
  shows "mkeys_ok (m\<lparr>mk_byUser := (mk_byUser m)(u \<mapsto> x), mk_byKey := (mk_byKey m)(g \<mapsto> u)\<rparr>)"
    and "(mk_byKey m)(g \<mapsto> u) = given u g (mk_byKey m)"
proof -
  show "mkeys_ok (m\<lparr>mk_byUser := (mk_byUser m)(u \<mapsto> x), mk_byKey := (mk_byKey m)(g \<mapsto> u)\<rparr>)"
    using assms unfolding mkeys_ok_def by (auto split: if_splits) (metis option.distinct(1))+
  have "u \<notin> ran (mk_byKey m)" using assms(1,2) by (auto simp: mkeys_ok_def ran_def)
  then show "(mk_byKey m)(g \<mapsto> u) = given u g (mk_byKey m)" by (simp add: given_def)
qed

lemma mkeys_rotated:
  assumes "mkeys_ok m" "mk_byKey m g = None" "g \<noteq> []" "k_Key x = g"
  shows "mkeys_ok (m\<lparr>mk_byUser := (mk_byUser m)(u \<mapsto> x), mk_byKey := rotated u g (mk_byKey m)\<rparr>)"
  using assms unfolding mkeys_ok_def rotated_def by (auto split: if_splits) (metis option.distinct(1) option.inject)+

lemma mkey_Rotate_keys:
  assumes "mkeys_ok m"
  shows "(case mk_byUser m u of Some old \<Rightarrow> (mk_byKey m)(k_Key old := None) | None \<Rightarrow> mk_byKey m)(g \<mapsto> u) = rotated u g (mk_byKey m)"
proof -
  have "mk_byKey m j = Some u \<longleftrightarrow> (\<exists>x. mk_byUser m u = Some x \<and> k_Key x = j)" for j
    using assms by (simp add: mkeys_ok_def)
  then show ?thesis by (auto simp: rotated_def fun_eq_iff split: option.split)
qed

lemma mkey_Rotate_result:
  assumes "mkeys_ok m" "length b = 32" "mk_byKey m (hex_encode b) = None"
  shows "\<exists>x m'. mkey_Rotate (Inr b) u m = (Inr x, m') \<and> mkeys_ok m' \<and> k_Key x = hex_encode b
    \<and> mk_byKey m' = rotated u (hex_encode b) (mk_byKey m)"
proof -
  let ?g = "hex_encode b"
  let ?x = "\<lparr>k_UserID = u, k_Key = ?g, k_RotatedAt = mk_clock m, k_CreatedAt = mk_clock m\<rparr>"
  have ne: "?g \<noteq> []" using key_text_nonempty assms(2) by (auto simp: key_text_def)
  have "mkey_Rotate (Inr b) u m = (Inr ?x, m\<lparr>mk_byUser := (mk_byUser m)(u \<mapsto> ?x), mk_byKey := rotated u ?g (mk_byKey m)\<rparr>)"
    using mkey_Rotate_keys [OF assms(1), of u ?g]
    by (cases "mk_byUser m u") (simp_all add: mkey_Rotate_def Generate_key_def Let_def)
  then show ?thesis using mkeys_rotated [OF assms(1,3) ne, of ?x u] by auto
qed

lemma mkey_Ensure_result:
  assumes "mkeys_ok m" "length b = 32" "mk_byKey m (hex_encode b) = None"
  shows "\<exists>x m'. mkey_Ensure (Inr b) u m = (Inr x, m') \<and> mkeys_ok m' \<and> mk_byKey m' (k_Key x) = Some u
    \<and> mk_byKey m' = given u (hex_encode b) (mk_byKey m)"
proof (cases "mk_byUser m u")
  case None
  let ?g = "hex_encode b"
  let ?x = "\<lparr>k_UserID = u, k_Key = ?g, k_RotatedAt = 0, k_CreatedAt = mk_clock m\<rparr>"
  have "?g \<noteq> []" using key_text_nonempty assms(2) by (auto simp: key_text_def)
  from mkeys_given [OF assms(1) None assms(3) this, of ?x]
  have "mkeys_ok (m\<lparr>mk_byUser := (mk_byUser m)(u \<mapsto> ?x), mk_byKey := (mk_byKey m)(?g \<mapsto> u)\<rparr>)"
    "(mk_byKey m)(?g \<mapsto> u) = given u ?g (mk_byKey m)" by auto
  moreover from this(2) have "given u ?g (mk_byKey m) ?g = Some u" by (metis fun_upd_same)
  ultimately show ?thesis using None by (auto simp: mkey_Ensure_def Generate_key_def Let_def)
next
  case (Some x)
  with assms(1) have "mk_byKey m (k_Key x) = Some u" by (auto simp: mkeys_ok_def)
  then show ?thesis using Some assms(1) by (auto simp: mkey_Ensure_def given_def intro: ranI)
qed

interpretation mkey: apikey_store MockKeys mk_byKey mkeys_ok
proof (unfold_locales, goal_cases)
  case (1 s k r s')
  then show ?case by (auto simp: MockKeys_def mkey_Resolve_def mkeys_ok_def)
next
  case (2 s k r' s')
  then show ?case by (simp add: MockKeys_def mkey_Resolve_def)
next
  case (3 s k u k')
  then show ?case by (auto simp: mkeys_ok_def)
next
  case (4 s b u x s')
  then show ?case using mkey_Ensure_result [of s b u] by (auto simp: MockKeys_def)
next
  case (5 s b u e s')
  then show ?case using mkey_Ensure_result [of s b u] by (auto simp: MockKeys_def)
next
  case (6 s b u x s')
  then show ?case using mkey_Rotate_result [of s b u] by (auto simp: MockKeys_def)
next
  case (7 s b u e s')
  then show ?case using mkey_Rotate_result [of s b u] by (auto simp: MockKeys_def)
qed

text \<open>
  When the random source fails, the in-memory \<open>Rotate\<close> has already dropped the old key: the user is
  still shown a key that no longer resolves.
\<close>

lemma mock_rotate_failure_drops_key:
  assumes "mk_byUser m u = Some k"
  shows "\<exists>m'. mkey_Rotate (Inl e) u m = (Inl e, m') \<and> fst (mkey_Resolve (k_Key k) m') = Inr None
    \<and> fst (mkey_Ensure rnd u m') = Inr k"
  using assms by (simp add: mkey_Rotate_def Generate_key_def mkey_Resolve_def mkey_Ensure_def)

section \<open>The Postgres store keeps the contract\<close>

definition keys_ok :: "keys_db \<Rightarrow> bool" where
  "keys_ok db \<longleftrightarrow> distinct (map kr_user_id (pg_rows db)) \<and> distinct (map kr_api_key (pg_rows db))
     \<and> (\<forall>r\<in>set (pg_rows db). key_text (kr_api_key r))"

definition key_owner :: "keys_db \<Rightarrow> string \<Rightarrow> int option" where
  "key_owner db = map_of (map (\<lambda>r. (kr_api_key r, kr_user_id r)) (pg_rows db))"

lemma keys_script [simp]:
  "keys_ok (db\<lparr>pg_script := os\<rparr>) = keys_ok db" "key_owner (db\<lparr>pg_script := os\<rparr>) = key_owner db"
  by (simp_all add: keys_ok_def key_owner_def)

lemma key_owner_Some:
  "keys_ok db \<Longrightarrow> key_owner db k = Some u \<longleftrightarrow> (\<exists>r\<in>set (pg_rows db). kr_api_key r = k \<and> kr_user_id r = u)"
  unfolding key_owner_def by (subst map_of_eq_Some_iff) (auto simp: keys_ok_def comp_def)

lemma key_owner_None: "key_owner db k = None \<longleftrightarrow> (\<forall>r\<in>set (pg_rows db). kr_api_key r \<noteq> k)"
  by (auto simp: key_owner_def map_of_eq_None_iff image_iff)

lemma same_row:
  assumes "keys_ok db" "r \<in> set (pg_rows db)" "q \<in> set (pg_rows db)"
  shows "kr_user_id r = kr_user_id q \<longleftrightarrow> r = q" "kr_api_key r = kr_api_key q \<longleftrightarrow> r = q"
  using assms by (auto simp: keys_ok_def distinct_map inj_on_def)

text \<open>The two writes, on the rows.\<close>

lemma append_key:
  assumes "keys_ok db" "\<forall>r\<in>set (pg_rows db). kr_user_id r \<noteq> u" "key_owner db g = None" "key_text g"
  shows "keys_ok (db\<lparr>pg_rows := pg_rows db @ [new_row u g db]\<rparr>)"
    and "key_owner (db\<lparr>pg_rows := pg_rows db @ [new_row u g db]\<rparr>) = (key_owner db)(g \<mapsto> u)"
    and "u \<notin> ran (key_owner db)"
proof -
  have g: "g \<notin> kr_api_key ` set (pg_rows db)" using assms(3) by (auto simp: key_owner_None)
  show ok: "keys_ok (db\<lparr>pg_rows := pg_rows db @ [new_row u g db]\<rparr>)" (is "keys_ok ?d")
    using assms(1,2,4) g by (auto simp: keys_ok_def new_row_def)
  have "key_owner ?d k = Some v \<longleftrightarrow> ((key_owner db)(g \<mapsto> u)) k = Some v" for k v
    unfolding key_owner_Some [OF ok] using key_owner_Some [OF assms(1), of k v] g
    by (auto simp: new_row_def)
  then show "key_owner ?d = (key_owner db)(g \<mapsto> u)" by (intro ext option_eqI)
  show "u \<notin> ran (key_owner db)" using assms(1,2) by (auto simp: ran_def key_owner_Some)
qed

definition replace_key :: "int \<Rightarrow> string \<Rightarrow> keys_db \<Rightarrow> keys_db" where
  "replace_key u g db = db\<lparr>pg_rows := map (\<lambda>r. if kr_user_id r = u
      then r\<lparr>kr_api_key := g, kr_rotated_at := Some (pg_now db)\<rparr> else r) (pg_rows db)\<rparr>"

lemma replace_key_ok:
  assumes "keys_ok db" "key_owner db g = None" "key_text g" "r0 \<in> set (pg_rows db)" "kr_user_id r0 = u"
  shows "keys_ok (replace_key u g db)" and "key_owner (replace_key u g db) = rotated u g (key_owner db)"
proof -
  let ?f = "\<lambda>r. if kr_user_id r = u then r\<lparr>kr_api_key := g, kr_rotated_at := Some (pg_now db)\<rparr> else r"
  have d: "distinct (pg_rows db)" using assms(1) by (auto simp: keys_ok_def distinct_map)
  have g: "kr_api_key r \<noteq> g" if "r \<in> set (pg_rows db)" for r using assms(2) that by (auto simp: key_owner_None)
  have user: "map kr_user_id (map ?f (pg_rows db)) = map kr_user_id (pg_rows db)" by auto
  have "distinct (map kr_user_id (map ?f (pg_rows db)))"
    unfolding user using assms(1) by (simp add: keys_ok_def)
  moreover have "inj_on (\<lambda>r. kr_api_key (?f r)) (set (pg_rows db))"
  proof (rule inj_onI)
    fix r q
    assume rq: "r \<in> set (pg_rows db)" "q \<in> set (pg_rows db)" "kr_api_key (?f r) = kr_api_key (?f q)"
    have "kr_user_id r = u \<longleftrightarrow> kr_user_id q = u" using rq(3) g [OF rq(1)] g [OF rq(2)] by (auto split: if_splits)
    then have "kr_user_id r = kr_user_id q \<or> kr_api_key r = kr_api_key q" using rq(3) by (auto split: if_splits)
    then show "r = q" using same_row [OF assms(1) rq(1,2)] by blast
  qed
  then have "distinct (map kr_api_key (map ?f (pg_rows db)))"
    using d by (simp add: distinct_map comp_def)
  moreover have "key_text (kr_api_key (?f r))" if "r \<in> set (pg_rows db)" for r
    using assms(1,3) that by (auto simp: keys_ok_def)
  ultimately show ok: "keys_ok (replace_key u g db)"
    unfolding keys_ok_def replace_key_def by (simp del: map_map if_image_distrib)
  have rows: "pg_rows (replace_key u g db) = map ?f (pg_rows db)" by (simp add: replace_key_def)
  have upd: "kr_api_key (?f r) = k \<and> kr_user_id (?f r) = v \<longleftrightarrow>
      (if v = u then kr_user_id r = u \<and> k = g else kr_api_key r = k \<and> kr_user_id r = v)" for r k v by auto
  have "key_owner (replace_key u g db) k = Some v \<longleftrightarrow> rotated u g (key_owner db) k = Some v" for k v
  proof (cases "v = u")
    case True
    then have "rotated u g (key_owner db) k = Some v \<longleftrightarrow> k = g" by (simp add: rotated_def)
    with True assms(4,5) show ?thesis
      unfolding key_owner_Some [OF ok] rows set_map bex_simps upd by auto
  next
    case False
    have "rotated u g (key_owner db) k = Some v \<longleftrightarrow> key_owner db k = Some v"
      using False assms(2) by (auto simp: rotated_def)
    with False show ?thesis
      unfolding key_owner_Some [OF ok] rows set_map bex_simps upd by (simp add: key_owner_Some [OF assms(1)])
  qed
  then show "key_owner (replace_key u g db) = rotated u g (key_owner db)" by (intro ext option_eqI)
qed

lemma insert_key_effect:
  assumes "insert_key u g db = (r, db')" "keys_ok db" "key_owner db g = None" "key_text g"
  shows "keys_ok db' \<and> (key_owner db' = given u g (key_owner db) \<or> r \<noteq> Inr () \<and> key_owner db' = key_owner db)"
  using assms(1) unfolding insert_key_def
proof (rule stmt_rule)
  fix os and q :: "gerr + unit" and d
  let ?d = "db\<lparr>pg_script := os\<rparr>"
  assume run: "(if u \<in> kr_user_id ` set (pg_rows ?d) then (Inr (), ?d)
      else if g \<in> kr_api_key ` set (pg_rows ?d) then (Inl duplicate_key, ?d)
      else (Inr (), ?d\<lparr>pg_rows := pg_rows ?d @ [new_row u g ?d]\<rparr>)) = (q, d)"
  have ok: "keys_ok ?d" "key_owner ?d g = None" using assms(2,3) by simp_all
  show "keys_ok d \<and> (key_owner d = given u g (key_owner db) \<or> q \<noteq> Inr () \<and> key_owner d = key_owner db)"
  proof (cases "u \<in> kr_user_id ` set (pg_rows ?d)")
    case True
    then have "u \<in> ran (key_owner ?d)" using key_owner_Some [OF ok(1)] by (auto simp: ran_def)
    moreover have "d = ?d" using run True by simp
    ultimately show ?thesis using ok by (simp add: given_def)
  next
    case False
    then have "\<forall>r\<in>set (pg_rows ?d). kr_user_id r \<noteq> u" by auto
    note A = append_key [OF ok(1) this ok(2) assms(4)]
    have "g \<notin> kr_api_key ` set (pg_rows ?d)" using ok(2) by (auto simp: key_owner_None)
    with False run have "d = ?d\<lparr>pg_rows := pg_rows ?d @ [new_row u g ?d]\<rparr>" by simp
    with A show ?thesis by (simp only: given_def keys_script simp_thms if_False)
  qed
qed (use assms(2) in auto)

lemma query_row_keys:
  assumes "query_row P db = (r, db')"
  shows "keys_ok db' = keys_ok db" "key_owner db' = key_owner db" "pg_rows db' = pg_rows db"
  using query_row_state(1) [of P db] assms by (simp_all add: keys_ok_def key_owner_def)

lemma key_get_effect:
  assumes "key_get u db = (r, db')" "keys_ok db"
  shows "keys_ok db'" "key_owner db' = key_owner db" "r = Inr x \<Longrightarrow> key_owner db (k_Key x) = Some u"
proof -
  obtain q d where q: "query_row (\<lambda>r. kr_user_id r = u) db = (q, d)" by fastforce
  have d: "d = db'" using assms(1) q by (auto simp: key_get_def split: sum.splits)
  show "keys_ok db'" "key_owner db' = key_owner db" using query_row_keys [OF q] assms(2) d by simp_all
  show "key_owner db (k_Key x) = Some u" if r: "r = Inr x"
  proof -
    obtain row where row: "q = Inr row" "x = row_key row"
      using assms(1) q r by (cases q) (auto simp: key_get_def)
    then show ?thesis using query_row_result(1) [OF q [unfolded row(1)]] assms(2)
      by (auto simp: key_owner_Some row_key_def)
  qed
qed

lemma key_Ensure_effect:
  assumes "key_Ensure (Inr b) u db = (r, db')" "keys_ok db" "length b = 32" "key_owner db (hex_encode b) = None"
  shows "keys_ok db'" and "key_owner db' = given u (hex_encode b) (key_owner db) \<or> (\<exists>e. r = Inl e) \<and> key_owner db' = key_owner db"
    and "r = Inr x \<Longrightarrow> key_owner db' (k_Key x) = Some u"
proof -
  have kt: "key_text (hex_encode b)" using assms(3) by (auto simp: key_text_def)
  obtain q d where i: "insert_key u (hex_encode b) db = (q, d)" by fastforce
  note I = insert_key_effect [OF i assms(2,4) kt]
  have "keys_ok db' \<and> (key_owner db' = given u (hex_encode b) (key_owner db) \<or> (\<exists>e. r = Inl e) \<and> key_owner db' = key_owner db)
      \<and> (r = Inr x \<longrightarrow> key_owner db' (k_Key x) = Some u)"
  proof (cases q)
    case (Inl e)
    then show ?thesis using I assms(1) i by (auto simp: key_Ensure_def Generate_key_def)
  next
    case (Inr v)
    then have "key_get u d = (r, db')" using assms(1) i by (simp add: key_Ensure_def Generate_key_def)
    from key_get_effect [OF this] I Inr show ?thesis by auto
  qed
  then show "keys_ok db'" and "key_owner db' = given u (hex_encode b) (key_owner db) \<or> (\<exists>e. r = Inl e) \<and> key_owner db' = key_owner db"
    and "r = Inr x \<Longrightarrow> key_owner db' (k_Key x) = Some u" by auto
qed

lemma upsert_key_effect:
  assumes "upsert_key u g db = (r, db')" "keys_ok db" "key_owner db g = None" "key_text g"
  shows "keys_ok db' \<and> (key_owner db' = rotated u g (key_owner db) \<or> (\<exists>e. r = Inl e) \<and> key_owner db' = key_owner db)
    \<and> (\<forall>x. r = Inr x \<longrightarrow> k_Key x = g)"
  using assms(1) unfolding upsert_key_def
proof (rule stmt_rule)
  fix os and q :: "gerr + key" and d
  let ?d = "db\<lparr>pg_script := os\<rparr>"
  let ?upd = "\<lambda>r. if kr_user_id r = u then r\<lparr>kr_api_key := g, kr_rotated_at := Some (pg_now ?d)\<rparr> else r"
  assume run: "(if \<exists>r\<in>set (pg_rows ?d). kr_user_id r \<noteq> u \<and> kr_api_key r = g then (Inl duplicate_key, ?d)
      else let upd = ?upd
        in case find (\<lambda>r. kr_user_id r = u) (pg_rows ?d) of
             Some r \<Rightarrow> (Inr (row_key (upd r)), ?d\<lparr>pg_rows := map upd (pg_rows ?d)\<rparr>)
           | None \<Rightarrow> (Inr (row_key (new_row u g ?d)), ?d\<lparr>pg_rows := pg_rows ?d @ [new_row u g ?d]\<rparr>)) = (q, d)"
  have ok: "keys_ok ?d" "key_owner ?d g = None" using assms(2,3) by simp_all
  have fresh: "\<not> (\<exists>r\<in>set (pg_rows ?d). kr_user_id r \<noteq> u \<and> kr_api_key r = g)"
    using ok(2) by (auto simp: key_owner_None)
  show "keys_ok d \<and> (key_owner d = rotated u g (key_owner db) \<or> (\<exists>e. q = Inl e) \<and> key_owner d = key_owner db)
      \<and> (\<forall>x. q = Inr x \<longrightarrow> k_Key x = g)"
  proof (cases "find (\<lambda>r. kr_user_id r = u) (pg_rows ?d)")
    case None
    then have none: "\<forall>r\<in>set (pg_rows ?d). kr_user_id r \<noteq> u" by (auto simp: find_None_iff)
    note A = append_key [OF ok(1) none ok(2) assms(4)]
    have "rotated u g (key_owner ?d) = (key_owner ?d)(g \<mapsto> u)"
      using A(3) by (auto simp: rotated_def fun_eq_iff ran_def)
    moreover have "q = Inr (row_key (new_row u g ?d))" "d = ?d\<lparr>pg_rows := pg_rows ?d @ [new_row u g ?d]\<rparr>"
      using run unfolding if_not_P [OF fresh] Let_def None option.case by auto
    ultimately show ?thesis using A(1,2) by (simp add: row_key_def new_row_def)
  next
    case (Some r0)
    then have r0: "r0 \<in> set (pg_rows ?d)" "kr_user_id r0 = u" using find_Some_props [OF Some] by auto
    note R = replace_key_ok [OF ok assms(4) r0]
    have "q = Inr (row_key (?upd r0))" "d = replace_key u g ?d"
      using run unfolding if_not_P [OF fresh] Let_def Some option.case replace_key_def by auto
    then show ?thesis using R r0(2) by (simp add: row_key_def)
  qed
qed (use assms(2) in auto)

interpretation pkey: apikey_store PGKeys key_owner keys_ok
proof (unfold_locales, goal_cases)
  case (1 s k r s')
  show ?case
  proof (cases "k = []")
    case True
    have "key_owner s [] = None" using 1(1) key_text_nonempty by (auto simp: key_owner_None keys_ok_def)
    with True 1(2) show ?thesis by (simp add: PGKeys_def key_Resolve_def)
  next
    case False
    obtain q d where q: "query_row (\<lambda>r. kr_api_key r = k) s = (q, d)" by fastforce
    show ?thesis
    proof (cases q)
      case (Inl e)
      with False 1(2) q have "e = Sentinel Sql_ErrNoRows" "r = None"
        by (auto simp: PGKeys_def key_Resolve_def split: if_splits)
      with q Inl have "query_row (\<lambda>r. kr_api_key r = k) s = (Inl (Sentinel Sql_ErrNoRows), d)" by simp
      from query_row_result(2) [OF this] \<open>r = None\<close> show ?thesis by (metis key_owner_None)
    next
      case (Inr row)
      with False 1(2) q have "r = Some (kr_user_id row)" by (simp add: PGKeys_def key_Resolve_def)
      then show ?thesis using query_row_result(1) [OF q [unfolded Inr]] 1(1) by (metis key_owner_Some)
    qed
  qed
next
  case (2 s k r' s')
  obtain q d where q: "query_row (\<lambda>r. kr_api_key r = k) s = (q, d)" by fastforce
  have "s' = s \<or> s' = d" using 2(2) q by (auto simp: PGKeys_def key_Resolve_def split: if_splits sum.splits)
  then show ?case using query_row_keys [OF q] 2(1) by auto
next
  case (3 s k u k')
  then obtain r q where "r \<in> set (pg_rows s)" "q \<in> set (pg_rows s)" "kr_api_key r = k" "kr_user_id r = u"
    "kr_api_key q = k'" "kr_user_id q = u" by (auto simp: key_owner_Some)
  then show ?case using same_row(1) [OF 3(1)] by metis
next
  case (4 s b u x s')
  then show ?case using key_Ensure_effect [of b u s "Inr x" s'] by (auto simp: PGKeys_def)
next
  case (5 s b u e s')
  then show ?case using key_Ensure_effect [of b u s "Inl e" s'] by (auto simp: PGKeys_def)
next
  case (6 s b u x s')
  then have "upsert_key u (hex_encode b) s = (Inr x, s')" by (simp add: PGKeys_def key_Rotate_def Generate_key_def)
  from upsert_key_effect [OF this 6(1,3)] 6(2) show ?case by (auto simp: key_text_def)
next
  case (7 s b u e s')
  then have "upsert_key u (hex_encode b) s = (Inl e, s')" by (simp add: PGKeys_def key_Rotate_def Generate_key_def)
  from upsert_key_effect [OF this 7(1,3)] 7(2) show ?case by (auto simp: key_text_def)
qed

section \<open>Reachable tables\<close>

text \<open>Every table that any sequence of requests, outages and clock moves can leave.\<close>

inductive key_reach :: "keys_db \<Rightarrow> bool" where
  key_start: "pg_rows db = [] \<Longrightarrow> key_reach db"
| key_resolved: "key_reach db \<Longrightarrow> key_Resolve k db = (r, db') \<Longrightarrow> key_reach db'"
| key_ensured: "key_reach db \<Longrightarrow> \<forall>b. rnd = Inr b \<longrightarrow> length b = 32 \<Longrightarrow> key_Ensure rnd u db = (r', db') \<Longrightarrow> key_reach db'"
| key_rotated: "key_reach db \<Longrightarrow> \<forall>b. rnd = Inr b \<longrightarrow> length b = 32 \<Longrightarrow> key_Rotate rnd u db = (r', db') \<Longrightarrow> key_reach db'"
| key_elsewhere: "key_reach db \<Longrightarrow> pg_rows db' = pg_rows db \<Longrightarrow> key_reach db'"

lemma replace_key_wf:
  assumes "keys_ok db" "\<forall>r\<in>set (pg_rows db). kr_user_id r \<noteq> u \<longrightarrow> kr_api_key r \<noteq> g" "key_text g"
  shows "keys_ok (replace_key u g db)"
proof -
  let ?f = "\<lambda>r. if kr_user_id r = u then r\<lparr>kr_api_key := g, kr_rotated_at := Some (pg_now db)\<rparr> else r"
  have d: "distinct (pg_rows db)" using assms(1) by (auto simp: keys_ok_def distinct_map)
  have user: "map kr_user_id (map ?f (pg_rows db)) = map kr_user_id (pg_rows db)" by auto
  have "distinct (map kr_user_id (map ?f (pg_rows db)))"
    unfolding user using assms(1) by (simp add: keys_ok_def)
  moreover have "inj_on (\<lambda>r. kr_api_key (?f r)) (set (pg_rows db))"
  proof (rule inj_onI)
    fix r q
    assume rq: "r \<in> set (pg_rows db)" "q \<in> set (pg_rows db)" "kr_api_key (?f r) = kr_api_key (?f q)"
    have "kr_user_id r = u \<longleftrightarrow> kr_user_id q = u" using rq assms(2) by (auto split: if_splits)
    then have "kr_user_id r = kr_user_id q \<or> kr_api_key r = kr_api_key q" using rq(3) by (auto split: if_splits)
    then show "r = q" using same_row [OF assms(1) rq(1,2)] by blast
  qed
  then have "distinct (map kr_api_key (map ?f (pg_rows db)))"
    using d by (simp add: distinct_map comp_def)
  moreover have "key_text (kr_api_key (?f r))" if "r \<in> set (pg_rows db)" for r
    using assms(1,3) that by (auto simp: keys_ok_def)
  ultimately show ?thesis
    unfolding keys_ok_def replace_key_def by (simp del: map_map if_image_distrib)
qed

lemma upsert_key_wf:
  assumes "upsert_key u g db = (r, db')" "keys_ok db" "key_text g"
  shows "keys_ok db'"
  using assms(1) unfolding upsert_key_def
proof (rule stmt_rule)
  fix os and q :: "gerr + key" and d
  let ?d = "db\<lparr>pg_script := os\<rparr>"
  let ?upd = "\<lambda>r. if kr_user_id r = u then r\<lparr>kr_api_key := g, kr_rotated_at := Some (pg_now ?d)\<rparr> else r"
  assume run: "(if \<exists>r\<in>set (pg_rows ?d). kr_user_id r \<noteq> u \<and> kr_api_key r = g then (Inl duplicate_key, ?d)
      else let upd = ?upd
        in case find (\<lambda>r. kr_user_id r = u) (pg_rows ?d) of
             Some r \<Rightarrow> (Inr (row_key (upd r)), ?d\<lparr>pg_rows := map upd (pg_rows ?d)\<rparr>)
           | None \<Rightarrow> (Inr (row_key (new_row u g ?d)), ?d\<lparr>pg_rows := pg_rows ?d @ [new_row u g ?d]\<rparr>)) = (q, d)"
  have ok: "keys_ok ?d" using assms(2) by simp
  show "keys_ok d"
  proof (cases "\<exists>r\<in>set (pg_rows ?d). kr_user_id r \<noteq> u \<and> kr_api_key r = g")
    case True
    with run ok show ?thesis unfolding if_P [OF True] by simp
  next
    case False
    show ?thesis
    proof (cases "find (\<lambda>r. kr_user_id r = u) (pg_rows ?d)")
      case None
      then have none: "\<forall>r\<in>set (pg_rows ?d). kr_user_id r \<noteq> u" by (auto simp: find_None_iff)
      with False have "key_owner ?d g = None" by (auto simp: key_owner_None)
      with append_key(1) [OF ok none _ assms(3)] run show ?thesis
        unfolding if_not_P [OF False] Let_def None option.case by auto
    next
      case (Some r0)
      have "keys_ok (replace_key u g ?d)" by (rule replace_key_wf [OF ok _ assms(3)]) (use False in blast)
      with run show ?thesis unfolding if_not_P [OF False] Let_def Some option.case replace_key_def by auto
    qed
  qed
qed (use assms(2) in auto)

lemma insert_key_wf:
  assumes "insert_key u g db = (r, db')" "keys_ok db" "key_text g"
  shows "keys_ok db'"
proof (cases "key_owner db g")
  case None
  with insert_key_effect [OF assms(1,2) _ assms(3)] show ?thesis by simp
next
  case (Some v)
  then have "g \<in> kr_api_key ` set (pg_rows db)" using assms(2) by (auto simp: key_owner_Some)
  with assms(1,2) show ?thesis unfolding insert_key_def
    by (elim stmt_cases) (auto split: if_splits)
qed

lemma key_reach_ok: "key_reach db \<Longrightarrow> keys_ok db"
proof (induction rule: key_reach.induct)
  case (key_resolved db k r db')
  then show ?case using pkey.Resolve_state [of db k r db'] by (simp add: PGKeys_def)
next
  case (key_ensured db rnd u r' db')
  show ?case
  proof (cases rnd)
    case (Inl e)
    with key_ensured show ?thesis by (simp add: key_Ensure_def Generate_key_def)
  next
    case (Inr b)
    obtain q d where i: "insert_key u (hex_encode b) db = (q, d)" by fastforce
    have "keys_ok d" by (rule insert_key_wf [OF i]) (use key_ensured Inr in \<open>auto simp: key_text_def\<close>)
    moreover have "db' = d \<or> key_get u d = (r', db')"
      using key_ensured(3) i Inr by (auto simp: key_Ensure_def Generate_key_def split: sum.splits)
    ultimately show ?thesis using key_get_effect(1) by blast
  qed
next
  case (key_rotated db rnd u r' db')
  show ?case
  proof (cases rnd)
    case (Inl e)
    with key_rotated show ?thesis by (simp add: key_Rotate_def Generate_key_def)
  next
    case (Inr b)
    then have "upsert_key u (hex_encode b) db = (r', db')" using key_rotated(3) by (simp add: key_Rotate_def Generate_key_def)
    then show ?thesis by (rule upsert_key_wf) (use key_rotated Inr in \<open>auto simp: key_text_def\<close>)
  qed
qed (simp_all add: keys_ok_def)

definition is_hex :: "char \<Rightarrow> bool" where
  "is_hex c \<longleftrightarrow> c \<in> set ''0123456789abcdef''"

lemma hex_encode_chars: "c \<in> set (hex_encode b) \<Longrightarrow> is_hex c"
proof -
  have "list_all (\<lambda>n. is_hex (hex_digit n)) [0..<16]" by code_simp
  then have d: "is_hex (hex_digit n)" if "n < 16" for n using that by (simp add: list_all_iff)
  have "(of_char x :: nat) div 16 < 16" "(of_char x :: nat) mod 16 < 16" for x :: char
    using nat_of_char_less_256 [of x] by (simp_all add: div_less_iff_less_mult)
  with d show "c \<in> set (hex_encode b) \<Longrightarrow> ?thesis" by (auto simp: hex_encode_def hex_byte_def)
qed

section \<open>Properties\<close>

text \<open>
  C23. The key table is well formed, always. Whatever requests, failed or lost statements and clock
  moves led to it, every user has at most one key, every key belongs to one user, and every key is
  64 lower-case hexadecimal digits - so never empty.
\<close>

theorem api_keys_well_formed:
  assumes "key_reach db"
  shows "distinct (map kr_user_id (pg_rows db)) \<and> distinct (map kr_api_key (pg_rows db))
    \<and> list_all (\<lambda>r. length (kr_api_key r) = 64 \<and> list_all is_hex (kr_api_key r)) (pg_rows db)"
proof -
  have "length k = 64 \<and> list_all is_hex k" if "key_text k" for k
    using that hex_encode_chars unfolding key_text_def list_all_iff by auto
  then show ?thesis using key_reach_ok [OF assms] unfolding keys_ok_def list_all_iff by blast
qed

text \<open>
  C13. A rotation revokes the old key at once. On a Postgres table in order, after a rotation that
  reports success, every lookup that answers gives: the new key is the user's, no other key is,
  and every other key is whose it was.
\<close>

theorem rotation_revokes_old_key:
  assumes "keys_ok db" and "length b = 32" and "key_owner db (hex_encode b) = None"
    and "key_Rotate (Inr b) u db = (Inr x, db1)" and "key_Resolve k db1 = (Inr r, db2)"
  shows "r = (if k = k_Key x then Some u else if key_owner db k = Some u then None else key_owner db k)
    \<and> k_Key x = hex_encode b"
  using pkey.rotate_then_resolve [OF assms(1-3), of u x db1 k r db2] pkey.Rotate_ok [OF assms(1-3), of u x db1] assms(4,5)
  by (simp add: PGKeys_def)

definition ex_key :: "nat \<Rightarrow> string" where
  "ex_key n = hex_encode (replicate 31 CHR 0x00 @ [char_of n])"

definition ex_keys :: keys_db where
  "ex_keys = pg_table [\<lparr>kr_user_id = 7, kr_api_key = ex_key 1, kr_rotated_at = None, kr_created_at = 3\<rparr>,
     \<lparr>kr_user_id = 8, kr_api_key = ex_key 2, kr_rotated_at = None, kr_created_at = 3\<rparr>] 1 9"

lemma ex_key_inj: "m < 256 \<Longrightarrow> n < 256 \<Longrightarrow> ex_key m = ex_key n \<longleftrightarrow> m = n"
  by (simp add: ex_key_def hex_encode_inj)

lemma ex_keys_ok: "keys_ok ex_keys"
  by (auto simp: keys_ok_def ex_keys_def pg_table_def ex_key_inj key_text_def ex_key_def hex_encode_inj)

theorem api_keys_well_formed_witness:
  "\<exists>db. key_reach db \<and> pg_rows db \<noteq> [] \<and> list_all (\<lambda>r. length (kr_api_key r) = 64) (pg_rows db)"
proof -
  let ?b = "replicate 32 CHR 0x00"
  obtain r db where e: "key_Ensure (Inr ?b) 7 (pg_table [] 1 9) = (r, db)" by fastforce
  have "key_reach db"
    by (rule key_ensured [OF key_start _ e]) (simp_all add: pg_table_def)
  moreover from this have "list_all (\<lambda>r. length (kr_api_key r) = 64) (pg_rows db)"
    using api_keys_well_formed [of db] by (auto simp: list_all_iff)
  moreover have "pg_rows db \<noteq> []"
    using e by (auto simp: key_Ensure_def Generate_key_def insert_key_def stmt_def key_get_def query_row_def pg_table_def
        split: option.splits)
  ultimately show ?thesis by blast
qed

theorem rotation_revokes_old_key_witness:
  "let db1 = snd (key_Rotate (Inr (replicate 31 CHR 0x00 @ [char_of (3::nat)])) 7 ex_keys)
   in fst (key_Resolve (ex_key 1) db1) = Inr None \<and> fst (key_Resolve (ex_key 3) db1) = Inr (Some 7)
      \<and> fst (key_Resolve (ex_key 2) db1) = Inr (Some 8)"
proof -
  let ?b = "replicate 31 CHR 0x00 @ [char_of (3::nat)]"
  have own: "key_owner ex_keys = [ex_key 1 \<mapsto> 7, ex_key 2 \<mapsto> 8]"
    by (auto simp: key_owner_def ex_keys_def pg_table_def ex_key_inj fun_upd_twist)
  obtain q db1 where run: "key_Rotate (Inr ?b) 7 ex_keys = (q, db1)" by fastforce
  obtain x where x: "q = Inr x"
    using run by (auto simp: key_Rotate_def Generate_key_def upsert_key_def stmt_def ex_keys_def pg_table_def
        ex_key_inj Let_def simp flip: ex_key_def)
  have "pg_script db1 = []" using run
    by (auto simp: key_Rotate_def Generate_key_def upsert_key_def stmt_def ex_keys_def pg_table_def
        ex_key_inj Let_def simp flip: ex_key_def)
  then have res: "\<exists>r. key_Resolve k db1 = (Inr r, snd (key_Resolve k db1))" for k
    by (auto simp: key_Resolve_def query_row_def stmt_def split: option.split)
  have none: "key_owner ex_keys (hex_encode ?b) = None"
    unfolding ex_key_def [symmetric] own by (simp add: ex_key_inj)
  have "fst (key_Resolve k db1) = Inr (if k = ex_key 3 then Some 7 else if key_owner ex_keys k = Some 7 then None else key_owner ex_keys k)" for k
  proof -
    obtain r where e: "key_Resolve k db1 = (Inr r, snd (key_Resolve k db1))" using res [of k] by blast
    have r: "r = (if k = k_Key x then Some 7 else if key_owner ex_keys k = Some 7 then None else key_owner ex_keys k)
        \<and> k_Key x = hex_encode ?b"
      by (rule rotation_revokes_old_key [OF ex_keys_ok _ none run [unfolded x] e]) simp
    then have "k_Key x = ex_key 3" by (simp add: ex_key_def)
    with r show ?thesis by (subst e) simp
  qed
  then show ?thesis by (simp add: run own ex_key_inj)
qed

end
