(* ===== verification/Maintenance.thy ===== *)
theory Maintenance
  imports Views Pg
begin

text \<open>
  maintenance/: the planned-maintenance switch. The persisted state and its store interface, the
  in-memory store (mock.go) and the Postgres store (pgstore.go), the controller with its refresh
  loop and middleware (maintenance.go), the 503 page (page.go) and the admin page (views.go). The
  state of a controller is the store's state and the state it holds in memory.
\<close>

section \<open>State and stores\<close>

record mstate =
  mt_Active :: bool
  mt_Reason :: string
  mt_StartedAt :: time
  mt_ETASecs :: int

definition off :: mstate where
  "off = \<lparr>mt_Active = False, mt_Reason = [], mt_StartedAt = 0, mt_ETASecs = 0\<rparr>"

record 's maintenance_ops =
  mo_Get :: "('s, mstate) call"
  mo_Set :: "mstate \<Rightarrow> ('s, unit) call"

definition mock_state_Get :: "(mstate, mstate) call" where
  "mock_state_Get m = (Inr m, m)"

definition mock_state_Set :: "mstate \<Rightarrow> (mstate, unit) call" where
  "mock_state_Set s m = (Inr (), s)"

definition MockState :: "mstate maintenance_ops" where
  "MockState = \<lparr>mo_Get = mock_state_Get, mo_Set = mock_state_Set\<rparr>"

text \<open>The row of the one-row table; its \<open>eta_secs\<close> is a 32-bit integer.\<close>

record mrow =
  mr_active :: bool
  mr_reason :: string
  mr_started_at :: "time option"
  mr_eta_secs :: int

type_synonym mstate_db = "mrow pg"

definition state_Get :: "(mstate_db, mstate) call" where
  "state_Get db =
     (case query_row (\<lambda>_. True) db of
        (Inl err, db) \<Rightarrow> (if err = Sentinel Sql_ErrNoRows then Inr off else Inl err, db)
      | (Inr r, db) \<Rightarrow>
          (Inr \<lparr>mt_Active = mr_active r, mt_Reason = mr_reason r,
             mt_StartedAt = (case mr_started_at r of None \<Rightarrow> 0 | Some t \<Rightarrow> t), mt_ETASecs = mr_eta_secs r\<rparr>, db))"

definition state_row :: "mstate \<Rightarrow> mrow" where
  "state_row st = \<lparr>mr_active = mt_Active st, mr_reason = mt_Reason st,
     mr_started_at = (if \<not> IsZero (mt_StartedAt st) then Some (mt_StartedAt st) else None), mr_eta_secs = mt_ETASecs st\<rparr>"

definition state_Set :: "mstate \<Rightarrow> (mstate_db, unit) call" where
  "state_Set st = stmt (\<lambda>db.
     if \<not> i32_ok (mt_ETASecs st) then (Inl (Foreign ''value is out of range for type integer''), db)
     else (Inr (), db\<lparr>pg_rows := [state_row st]\<rparr>))"

definition PGState :: "mstate_db maintenance_ops" where
  "PGState = \<lparr>mo_Get = state_Get, mo_Set = state_Set\<rparr>"

section \<open>The controller\<close>

definition Restore :: "'s maintenance_ops \<Rightarrow> ('s \<times> mstate, unit) call" where
  "Restore S c =
     (case mo_Get S (fst c) of
        (Inl err, s) \<Rightarrow> (Inl err, (s, snd c))
      | (Inr st, s) \<Rightarrow> (Inr (), (s, st)))"

text \<open>
  What the refresh loop meets, in order: the context is done, a tick, or anything else that happens to
  the store and to the state in memory meanwhile.
\<close>

datatype 'c refresh_event = RefreshDone | RefreshTick | Meanwhile "'c \<Rightarrow> 'c"

fun StartRefresh :: "'s maintenance_ops \<Rightarrow> ('s \<times> mstate) refresh_event list \<Rightarrow> 's \<times> mstate \<Rightarrow> 's \<times> mstate" where
  "StartRefresh S [] c = c"
| "StartRefresh S (RefreshDone # es) c = c"
| "StartRefresh S (RefreshTick # es) c =
     (case mo_Get S (fst c) of
        (Inl err, s) \<Rightarrow> StartRefresh S es (s, snd c)
      | (Inr st, s) \<Rightarrow> StartRefresh S es (s, st))"
| "StartRefresh S (Meanwhile f # es) c = StartRefresh S es (f c)"

definition Snapshot :: "'s \<times> mstate \<Rightarrow> mstate" where
  "Snapshot c = snd c"

definition m_Active :: "'s \<times> mstate \<Rightarrow> bool" where
  "m_Active c = mt_Active (Snapshot c)"

definition set_state :: "'s maintenance_ops \<Rightarrow> mstate \<Rightarrow> ('s \<times> mstate, unit) call" where
  "set_state S st c =
     (case mo_Set S st (fst c) of
        (Inl err, s) \<Rightarrow> (Inl err, (s, snd c))
      | (Inr _, s) \<Rightarrow> (Inr (), (s, st)))"

definition Begin :: "'s maintenance_ops \<Rightarrow> time \<Rightarrow> string \<Rightarrow> int \<Rightarrow> ('s \<times> mstate, unit) call" where
  "Begin S now reason etaSecs =
     set_state S \<lparr>mt_Active = True, mt_Reason = reason, mt_StartedAt = now, mt_ETASecs = etaSecs\<rparr>"

definition m_End :: "'s maintenance_ops \<Rightarrow> ('s \<times> mstate, unit) call" where
  "m_End S = set_state S off"

section \<open>The 503 page\<close>

abbreviation (input) "newline_char \<equiv> CHR 0x0A"

definition page_lines :: "string list \<Rightarrow> string" where
  "page_lines ls = concat (map (\<lambda>l. l @ [newline_char]) ls)"

definition page_head :: "string list" where
  \<open>page_head =
     [''<!doctype html>'',
      ''<html lang="en"><head><meta charset="utf-8">'',
      ''<meta name="viewport" content="width=device-width, initial-scale=1">'',
      ''<title>Under maintenance</title>'',
      ''<style>'',
      ''  :root { color-scheme: dark; }'',
      ''  body { margin:0; min-height:100vh; display:flex; align-items:center; justify-content:center;'',
      ''    background:#0d1117; color:#e6edf3; font:16px/1.5 system-ui,-apple-system,Segoe UI,Roboto,sans-serif; }'',
      ''  .card { max-width:32rem; padding:2.5rem; text-align:center; }'',
      ''  h1 { font-size:1.6rem; margin:0 0 .75rem; }'',
      ''  p { color:#9aa7b4; margin:.4rem 0; }'',
      ''  .reason { margin-top:1rem; padding:.75rem 1rem; background:#161b22; border:1px solid #30363d;'',
      ''    border-radius:.5rem; color:#e6edf3; }'',
      ''  .spin { width:2.2rem; height:2.2rem; margin:0 auto 1.25rem; border:3px solid #30363d;'',
      ''    border-top-color:#3b82f6; border-radius:50%; animation:s 1s linear infinite; }'',
      ''  @keyframes s { to { transform:rotate(360deg); } }'',
      ''</style></head>'',
      ''<body><div class="card">'',
      ''  <div class="spin"></div>'',
      ''  <h1>We&rsquo;ll be right back</h1>'',
      ''  <p>The site is down for planned maintenance.</p>'']\<close>

definition etaMins :: "int \<Rightarrow> int" where
  "etaMins secs = (let m = secs sdiv 60 in if m > 0 then m else 1)"

definition page_src :: "mstate \<Rightarrow> string" where
  \<open>page_src s =
     page_lines page_head
     @ ''  '' @ (if mt_Reason s \<noteq> [] then ''<div class="reason">'' @ html_escape (mt_Reason s) @ ''</div>'' else []) @ [newline_char]
     @ ''  '' @ (if mt_ETASecs s > 0 then ''<p>Estimated back in about '' @ Itoa (etaMins (mt_ETASecs s)) @ '' minute(s).</p>'' else []) @ [newline_char]
     @ ''</div></body></html>''\<close>

definition fallback503 :: string where
  \<open>fallback503 = ''<!doctype html><meta charset="utf-8">'' @ ''<title>Down for maintenance</title>''
     @ ''<body style="font:16px system-ui;padding:3rem;text-align:center">''
     @ ''<h1>Down for maintenance</h1><p>Back shortly.</p>''\<close>

definition renderWith :: "(mstate \<Rightarrow> gerr + bytes) \<Rightarrow> mstate \<Rightarrow> bytes" where
  "renderWith t s = (case t s of Inl err \<Rightarrow> fallback503 | Inr buf \<Rightarrow> buf)"

definition renderPage :: "mstate \<Rightarrow> bytes" where
  "renderPage s = renderWith (\<lambda>s. Inr (page_src s)) s"

definition m_Middleware :: "(gctx \<Rightarrow> bool) option \<Rightarrow> 's \<times> mstate \<Rightarrow> gctx \<Rightarrow> gctx" where
  "m_Middleware allow c g =
     (let s = Snapshot c
      in if \<not> mt_Active s \<or> (case allow of None \<Rightarrow> False | Some f \<Rightarrow> f g) then call CNext g
         else
           let g = (if mt_ETASecs s > 0 then call (CHeader ''Retry-After'' (Itoa (mt_ETASecs s))) g else g);
               g = call (CData 503 ''text/html; charset=utf-8'' (renderPage s)) g
           in call CAbort g)"

section \<open>The admin page\<close>

definition admin_head :: "string list" where
  \<open>admin_head =
     ['''',
      ''<div class="card"><div class="card-body">'',
      ''  <h2 class="card-title mb-3">Maintenance mode</h2>'']\<close>

definition csrf_input :: "string \<Rightarrow> string" where
  \<open>csrf_input csrf = ''      <input type="hidden" name="_csrf" value="'' @ html_escape csrf @ ''">''\<close>

definition admin_on :: "string \<Rightarrow> string \<Rightarrow> string" where
  \<open>admin_on reason csrf =
     page_lines
      [[],
       ''    <p><span class="badge bg-warning text-dark">ON</span> The site is showing the maintenance page to visitors.</p>'',
       ''    '' @ (if reason \<noteq> [] then ''<p class="text-muted small mb-3">Reason: '' @ html_escape reason @ ''</p>'' else []),
       ''    <form method="post" action="/admin/p/maintenance/end">'',
       csrf_input csrf,
       ''      <button class="btn btn-success btn-sm">End maintenance</button>'',
       ''    </form>'']
     @ ''  ''\<close>

definition admin_off :: "string \<Rightarrow> string" where
  \<open>admin_off csrf =
     page_lines
      [[],
       ''    <p><span class="badge bg-secondary">OFF</span> The site is serving normally.</p>'',
       ''    <form method="post" action="/admin/p/maintenance/begin">'',
       csrf_input csrf,
       ''      <div class="mb-2">'',
       ''        <label class="form-label small mb-1" for="mnt-reason">Reason (shown on the page)</label>'',
       ''        <input type="text" id="mnt-reason" name="reason" class="form-control form-control-sm" placeholder="Upgrading the database">'',
       ''      </div>'',
       ''      <div class="mb-3">'',
       ''        <label class="form-label small mb-1" for="mnt-eta">ETA in minutes (0 = unknown)</label>'',
       ''        <input type="number" id="mnt-eta" name="eta_mins" class="form-control form-control-sm" value="0" min="0">'',
       ''      </div>'',
       ''      <button class="btn btn-warning btn-sm">Begin maintenance</button>'',
       ''    </form>'']
     @ ''  ''\<close>

definition admin_page :: "mstate \<Rightarrow> string \<Rightarrow> string" where
  \<open>admin_page s csrf =
     page_lines admin_head @ ''  ''
     @ (if mt_Active s then admin_on (mt_Reason s) csrf else admin_off csrf)
     @ [newline_char] @ ''</div></div>''\<close>

definition renderAdmin :: "(gctx \<Rightarrow> string) \<Rightarrow> ('s \<times> mstate) page" where
  "renderAdmin csrf g c = (Inr (admin_page (Snapshot c) (csrf g)), g, c)"

text \<open>Both actions answer with an error or redirect back to the page.\<close>

definition beginAction :: "'s maintenance_ops \<Rightarrow> time \<Rightarrow> ('s \<times> mstate) page" where
  "beginAction S now g c =
     (let etaMins = fst (Atoi (g_form g ''eta_mins''))
      in case Begin S now (g_form g ''reason'') (i64 (etaMins * 60)) c of
           (Inl err, c) \<Rightarrow> (Inl err, g, c)
         | (Inr _, c) \<Rightarrow> (Inr [], call (CRedirect 303 ''/admin/p/maintenance'') g, c))"

definition endAction :: "'s maintenance_ops \<Rightarrow> ('s \<times> mstate) page" where
  "endAction S g c =
     (case m_End S c of
        (Inl err, c) \<Rightarrow> (Inl err, g, c)
      | (Inr _, c) \<Rightarrow> (Inr [], call (CRedirect 303 ''/admin/p/maintenance'') g, c))"

definition maintenance_Views :: "(gctx \<Rightarrow> string) \<Rightarrow> 's maintenance_ops \<Rightarrow> time \<Rightarrow> ('s \<times> mstate) view list" where
  "maintenance_Views csrf S now =
     [\<lparr>v_Slug = ''maintenance'', v_Title = ''Maintenance'', v_Slot = SlotAdminPage, v_MinRole = RoleUser, v_Public = False,
        v_Render = renderAdmin csrf, v_Actions = [(''begin'', beginAction S now), (''end'', endAction S)]\<rparr>]"

section \<open>The contract of a state store\<close>

text \<open>\<open>kept s\<close> is the state a later read gives. A write that reports an error may have happened.\<close>

locale state_store =
  fixes S :: "'s maintenance_ops" and kept :: "'s \<Rightarrow> mstate" and inv :: "'s \<Rightarrow> bool"
  assumes Get_ok: "inv s \<Longrightarrow> mo_Get S s = (Inr st, s') \<Longrightarrow> st = kept s"
    and Get_state: "inv s \<Longrightarrow> mo_Get S s = (r, s') \<Longrightarrow> inv s' \<and> kept s' = kept s"
    and Set_ok: "inv s \<Longrightarrow> mo_Set S st s = (Inr (), s') \<Longrightarrow> inv s' \<and> kept s' = st"
    and Set_err: "inv s \<Longrightarrow> mo_Set S st s = (Inl e, s') \<Longrightarrow> inv s' \<and> (kept s' = kept s \<or> kept s' = st)"
begin

text \<open>
  Two processes over one store: what one has set and reported, the other shows after any later
  read that succeeds; a refresh keeps the state in memory when the store does not answer.
\<close>

lemma set_reaches_others:
  assumes "inv (fst a)" "set_state S st a = (Inr (), a')" "b = (fst a', old)" "mo_Get S (fst b) = (Inr got, s')"
  shows "Snapshot (StartRefresh S [RefreshTick] b) = st \<and> Snapshot a' = st"
proof -
  obtain r s1 where w: "mo_Set S st (fst a) = (r, s1)" by fastforce
  then have a': "a' = (s1, st)" "r = Inr ()" using assms(2) by (auto simp: set_state_def split: sum.splits)
  from Set_ok [OF assms(1) w [unfolded a'(2)]] have "inv s1" "kept s1 = st" by auto
  then show ?thesis using assms(3,4) a' Get_ok [of s1 got s'] by (simp add: Snapshot_def)
qed

lemma refresh_snapshot:
  assumes "inv (fst c)" "\<forall>f. Meanwhile f \<notin> set es"
  shows "Snapshot (StartRefresh S es c) \<in> {Snapshot c, kept (fst c)} \<and> inv (fst (StartRefresh S es c))
    \<and> kept (fst (StartRefresh S es c)) = kept (fst c)"
  using assms
proof (induction es arbitrary: c)
  case (Cons e es)
  show ?case
  proof (cases e)
    case RefreshTick
    obtain r s1 where g: "mo_Get S (fst c) = (r, s1)" by fastforce
    note G = Get_state [OF Cons.prems(1) g]
    show ?thesis
    proof (cases r)
      case (Inl err)
      with Cons.IH [of "(s1, snd c)"] Cons.prems g G RefreshTick show ?thesis by (auto simp: Snapshot_def)
    next
      case (Inr st)
      with Get_ok [OF Cons.prems(1)] g have "st = kept (fst c)" by simp
      with Inr Cons.IH [of "(s1, st)"] Cons.prems g G RefreshTick show ?thesis by (auto simp: Snapshot_def)
    qed
  qed (use Cons in \<open>auto simp: Snapshot_def\<close>)
qed (simp add: Snapshot_def)

end

section \<open>The stores keep the contract\<close>

interpretation mst: state_store MockState "\<lambda>m. m" "\<lambda>_. True"
  by unfold_locales (simp_all add: MockState_def mock_state_Get_def mock_state_Set_def)

definition one_row :: "mstate_db \<Rightarrow> bool" where
  "one_row db \<longleftrightarrow> length (pg_rows db) \<le> 1"

definition row_state :: "mrow \<Rightarrow> mstate" where
  "row_state r = \<lparr>mt_Active = mr_active r, mt_Reason = mr_reason r,
     mt_StartedAt = (case mr_started_at r of None \<Rightarrow> 0 | Some t \<Rightarrow> t), mt_ETASecs = mr_eta_secs r\<rparr>"

definition kept_state :: "mstate_db \<Rightarrow> mstate" where
  "kept_state db = (case pg_rows db of [] \<Rightarrow> off | r # _ \<Rightarrow> row_state r)"

lemma row_state_row [simp]: "row_state (state_row st) = st"
  by (simp add: row_state_def state_row_def IsZero_def)

lemma state_Get_result:
  assumes "state_Get db = (r, db')" "one_row db"
  shows "pg_rows db' = pg_rows db" "r = Inr st \<Longrightarrow> st = kept_state db"
proof -
  obtain q d where q: "query_row (\<lambda>_. True) db = (q, d)" by fastforce
  have d: "db' = d" "r = (case q of Inl err \<Rightarrow> (if err = Sentinel Sql_ErrNoRows then Inr off else Inl err) | Inr row \<Rightarrow> Inr (row_state row))"
    using assms(1) q by (auto simp: state_Get_def row_state_def split: sum.splits)
  show "pg_rows db' = pg_rows db" using query_row_state(1) [of "\<lambda>_. True" db] q d(1) by simp
  show "r = Inr st \<Longrightarrow> st = kept_state db"
  proof (cases q)
    case (Inl err)
    assume "r = Inr st"
    with d Inl have e: "err = Sentinel Sql_ErrNoRows" "st = off" by (auto split: if_splits)
    from query_row_result(2) [OF q [unfolded Inl e(1)]] have "pg_rows db = []" by (cases "pg_rows db") auto
    with e show ?thesis by (simp add: kept_state_def)
  next
    case (Inr row)
    assume "r = Inr st"
    moreover from query_row_result(1) [OF q [unfolded Inr]] assms(2) have "pg_rows db = [row]"
      by (cases "pg_rows db") (auto simp: one_row_def)
    ultimately show ?thesis using d Inr by (simp add: kept_state_def)
  qed
qed

lemma state_Set_result:
  assumes "state_Set st db = (r, db')" "one_row db"
  shows "one_row db' \<and> (kept_state db' = st \<or> (\<exists>e. r = Inl e) \<and> kept_state db' = kept_state db)"
  using assms(1) unfolding state_Set_def
  by (rule stmt_rule) (use assms(2) in \<open>auto simp: one_row_def kept_state_def split: if_splits\<close>)

interpretation pst: state_store PGState kept_state one_row
proof (unfold_locales, goal_cases)
  case (1 s st s')
  then show ?case using state_Get_result(2) [of s "Inr st" s' st] by (simp add: PGState_def)
next
  case (2 s r s')
  then show ?case using state_Get_result(1) [of s r s'] by (simp add: PGState_def one_row_def kept_state_def)
next
  case (3 s st s')
  then show ?case using state_Set_result [of st s "Inr ()" s'] by (simp add: PGState_def)
next
  case (4 s st e s')
  then show ?case using state_Set_result [of st s "Inl e" s'] by (auto simp: PGState_def)
qed

lemma state_Get_healthy:
  "healthy db \<Longrightarrow> one_row db \<Longrightarrow> \<exists>db'. state_Get db = (Inr (kept_state db), db') \<and> healthy db' \<and> pg_rows db' = pg_rows db"
proof -
  assume h: "healthy db" "one_row db"
  obtain r db' where g: "state_Get db = (r, db')" by fastforce
  have "\<exists>st. r = Inr st" "healthy db'"
    using g h by (auto simp: state_Get_def query_row_healthy split: option.splits)
  with g state_Get_result [OF g h(2)] show ?thesis by auto
qed

lemma ticks_load:
  "healthy db \<Longrightarrow> one_row db \<Longrightarrow> Snapshot (StartRefresh PGState (replicate (Suc k) RefreshTick) (db, old)) = kept_state db"
proof (induction k arbitrary: db old)
  case 0
  then show ?case using state_Get_healthy [of db] by (auto simp: PGState_def Snapshot_def)
next
  case (Suc k)
  obtain db' where g: "state_Get db = (Inr (kept_state db), db')" "healthy db'" "pg_rows db' = pg_rows db"
    using state_Get_healthy [OF Suc.prems] by blast
  then have "one_row db'" "kept_state db' = kept_state db" using Suc.prems(2) by (simp_all add: one_row_def kept_state_def)
  with Suc.IH [OF g(2), of "kept_state db"] g(1) show ?case by (simp add: PGState_def)
qed

section \<open>Properties\<close>

text \<open>A visitor is a request the host's policy does not let through.\<close>

definition visitor :: "(gctx \<Rightarrow> bool) option \<Rightarrow> gctx \<Rightarrow> bool" where
  "visitor allow g \<longleftrightarrow> (case allow of None \<Rightarrow> True | Some f \<Rightarrow> \<not> f g)"

definition blocked_with :: "string \<Rightarrow> gctx \<Rightarrow> gctx \<Rightarrow> bool" where
  "blocked_with reason g g' \<longleftrightarrow>
     (\<exists>hdr pre post. calls_since g g' = hdr @ [CData 503 ''text/html; charset=utf-8'' (pre @ html_escape reason @ post), CAbort]
        \<and> CNext \<notin> set hdr)"

lemma renderPage_reason: "\<exists>pre post. renderPage s = pre @ html_escape (mt_Reason s) @ post"
proof (cases "mt_Reason s = []")
  case True
  then show ?thesis by (auto simp: html_escape_def)
next
  case False
  let ?eta = \<open>if mt_ETASecs s > 0 then ''<p>Estimated back in about '' @ Itoa (etaMins (mt_ETASecs s)) @ '' minute(s).</p>'' else []\<close>
  have \<open>page_src s = (page_lines page_head @ ''  '' @ ''<div class="reason">'') @ html_escape (mt_Reason s)
      @ (''</div>'' @ [newline_char] @ ''  '' @ ?eta @ [newline_char] @ ''</div></body></html>'')\<close>
    using False by (simp add: page_src_def)
  then show ?thesis unfolding renderPage_def renderWith_def sum.case by blast
qed

lemma m_Middleware_blocks:
  assumes "mt_Active (Snapshot c)" "visitor allow g"
  shows "blocked_with (mt_Reason (Snapshot c)) g (m_Middleware allow c g)"
proof -
  obtain pre post where r: "renderPage (Snapshot c) = pre @ html_escape (mt_Reason (Snapshot c)) @ post"
    using renderPage_reason by blast
  have "calls_since g (m_Middleware allow c g) = (if mt_ETASecs (Snapshot c) > 0 then [CHeader ''Retry-After'' (Itoa (mt_ETASecs (Snapshot c)))] else [])
      @ [CData 503 ''text/html; charset=utf-8'' (renderPage (Snapshot c)), CAbort]"
    using assms by (auto simp: m_Middleware_def visitor_def calls_since_def Let_def split: option.splits)
  then show ?thesis unfolding blocked_with_def r by (intro exI conjI) auto
qed

text \<open>
  C19. A toggle reaches every replica. When \<open>Begin\<close> has reported success on one web process, then on
  any other process over the same Postgres table, after one or more refresh ticks that the database
  answers, every visitor gets the 503 page - with the reason on it, and no character of the reason
  able to open or close a tag or an attribute - and is never passed on. When \<open>End\<close> has reported
  success, every request is passed on again after the next tick.
\<close>

theorem maintenance_reaches_every_replica:
  assumes "one_row (fst a)" and "Begin PGState now reason eta a = (Inr (), a1)" and "m_End PGState a1 = (Inr (), a2)"
    and "healthy (fst a1)" and "visitor allow g"
  shows "blocked_with reason g (m_Middleware allow (StartRefresh PGState (replicate (Suc k) RefreshTick) (fst a1, old)) g)
    \<and> blocked_with reason g (m_Middleware allow a1 g)
    \<and> (\<forall>ch\<in>{CHR ''<'', CHR ''>'', CHR 0x22, CHR 0x27}. ch \<notin> set (html_escape reason))
    \<and> (healthy (fst a2) \<longrightarrow>
        m_Middleware allow (StartRefresh PGState (replicate (Suc k) RefreshTick) (fst a2, old)) g = call CNext g)"
proof -
  let ?st = "\<lparr>mt_Active = True, mt_Reason = reason, mt_StartedAt = now, mt_ETASecs = eta\<rparr>"
  have 1: "one_row (fst a1)" "kept_state (fst a1) = ?st" "snd a1 = ?st"
    using assms(2) state_Set_result [OF prod.collapse [symmetric] assms(1), of ?st]
    by (auto simp: Begin_def set_state_def PGState_def split: prod.splits sum.splits)
  have 2: "one_row (fst a2)" "kept_state (fst a2) = off"
    using assms(3) state_Set_result [OF prod.collapse [symmetric] 1(1), of off]
    by (auto simp: m_End_def set_state_def PGState_def split: prod.splits sum.splits)
  have on: "Snapshot (StartRefresh PGState (replicate (Suc k) RefreshTick) (fst a1, old)) = ?st"
    using ticks_load [OF assms(4) 1(1)] 1(2) by simp
  have off: "m_Middleware allow (StartRefresh PGState (replicate (Suc k) RefreshTick) (fst a2, old)) g = call CNext g"
    if "healthy (fst a2)"
    using ticks_load [OF that 2(1), of k old] 2(2) by (simp add: m_Middleware_def off_def del: replicate.simps)
  have "blocked_with reason g (m_Middleware allow (StartRefresh PGState (replicate (Suc k) RefreshTick) (fst a1, old)) g)"
    using m_Middleware_blocks [OF _ assms(5), of "StartRefresh PGState (replicate (Suc k) RefreshTick) (fst a1, old)"] on
    by simp
  moreover have "blocked_with reason g (m_Middleware allow a1 g)"
    using m_Middleware_blocks [OF _ assms(5), of a1] 1(3) by (simp add: Snapshot_def)
  ultimately show ?thesis using off html_escape_safe by blast
qed

theorem maintenance_reaches_every_replica_witness:
  "let g = fresh_ctx \<lparr>s_vals = Map.empty, s_saved = Map.empty, s_fault = None\<rparr>;
       a1 = snd (Begin PGState 9 ''<b>db</b>'' 600 (pg_table [] 1 5, off))
   in blocked_with ''<b>db</b>'' g (m_Middleware None (StartRefresh PGState [RefreshTick] (fst a1, off)) g)
      \<and> html_escape ''<b>db</b>'' = ''&lt;b&gt;db&lt;/b&gt;''"
proof -
  let ?g = "fresh_ctx \<lparr>s_vals = Map.empty, s_saved = Map.empty, s_fault = None\<rparr>"
  let ?a = "(pg_table [] 1 5, off) :: mstate_db \<times> mstate"
  have ok: "one_row (fst ?a)" by (simp add: one_row_def pg_table_def)
  let ?st = "\<lparr>mt_Active = True, mt_Reason = ''<b>db</b>'', mt_StartedAt = 9, mt_ETASecs = 600\<rparr>"
  have b: "Begin PGState 9 ''<b>db</b>'' 600 ?a = (Inr (), (pg_table [state_row ?st] 1 5, ?st))"
    by (simp add: Begin_def set_state_def PGState_def state_Set_def stmt_def pg_table_def i32_ok_def)
  have e: "m_End PGState (pg_table [state_row ?st] 1 5, ?st) = (Inr (), (pg_table [state_row off] 1 5, off))"
    by (simp add: m_End_def set_state_def PGState_def state_Set_def stmt_def pg_table_def i32_ok_def off_def)
  have v: "visitor None ?g" by (simp add: visitor_def)
  have "blocked_with ''<b>db</b>'' ?g (m_Middleware None (StartRefresh PGState (replicate (Suc 0) RefreshTick) (fst (pg_table [state_row ?st] 1 5, ?st), off)) ?g)"
    using maintenance_reaches_every_replica [OF ok b e _ v, of 0 off] by simp
  moreover have "html_escape ''<b>db</b>'' = ''&lt;b&gt;db&lt;/b&gt;''" by (simp add: html_escape_def html_special_def)
  ultimately show ?thesis unfolding Let_def b by simp
qed

end
