(* ===== verification/Heartbeat.thy ===== *)
theory Heartbeat
  imports Views Pg "HOL-Library.AList"
begin

text \<open>
  heartbeat/: process presence. The record and the store interface, the in-memory store (mock.go), the
  Postgres store (pgstore.go), the reporter (heartbeat.go) and the services page (views.go). A store
  operation that asks the process clock gets the time as an argument; the Postgres store stamps
  \<open>last_seen\<close> with the database clock. \<open>collate\<close> is the sort key of the database's collation.
  The locale \<open>sure_heartbeat_store\<close> carries the life of a reporter.
\<close>

section \<open>Heartbeats and their order\<close>

record heartbeat =
  hb_ServiceID :: string
  hb_Kind :: string
  hb_StartedAt :: time
  hb_LastSeen :: time
  hb_Meta :: string

text \<open>Heartbeats are listed by kind, and by service id within a kind.\<close>

datatype hb_key = HbKey string string

instantiation hb_key :: linorder
begin

fun less_eq_hb_key :: "hb_key \<Rightarrow> hb_key \<Rightarrow> bool" where
  "less_eq_hb_key (HbKey k i) (HbKey l j) = (if k \<noteq> l then k < l else i \<le> j)"

fun less_hb_key :: "hb_key \<Rightarrow> hb_key \<Rightarrow> bool" where
  "less_hb_key (HbKey k i) (HbKey l j) = (if k \<noteq> l then k < l else i < j)"

instance
proof
  fix x y z :: hb_key
  show "(x < y) = (x \<le> y \<and> \<not> y \<le> x)" by (cases x; cases y) auto
  show "x \<le> x" by (cases x) auto
  show "x \<le> y \<Longrightarrow> y \<le> z \<Longrightarrow> x \<le> z" by (cases x; cases y; cases z) (auto split: if_splits)
  show "x \<le> y \<Longrightarrow> y \<le> x \<Longrightarrow> x = y" by (cases x; cases y) (auto split: if_splits)
  show "x \<le> y \<or> y \<le> x" by (cases x; cases y) (auto split: if_splits)
qed

end

definition hb_key_of :: "(string \<Rightarrow> string) \<Rightarrow> heartbeat \<Rightarrow> hb_key" where
  "hb_key_of collate h = HbKey (collate (hb_Kind h)) (collate (hb_ServiceID h))"

record 's heartbeat_ops =
  ho_Beat :: "heartbeat \<Rightarrow> ('s, unit) call"
  ho_Active :: "time \<Rightarrow> duration \<Rightarrow> ('s, heartbeat list) call"
  ho_Prune :: "time \<Rightarrow> duration \<Rightarrow> ('s, unit) call"

definition HostID :: "string \<Rightarrow> int \<Rightarrow> string \<Rightarrow> string" where
  "HostID hostname pid kind =
     (let h = (if hostname = [] then ''host'' else hostname) in kind @ ''@'' @ h @ ''-'' @ Itoa pid)"

text \<open>What the reporter meets after its first beat: the context is done, a tick, or anything else.\<close>

datatype 's report_event = ReportDone | ReportTick | ReportElse "'s \<Rightarrow> 's"

fun report_loop :: "'s heartbeat_ops \<Rightarrow> heartbeat \<Rightarrow> 's report_event list \<Rightarrow> 's \<Rightarrow> 's" where
  "report_loop S hb [] s = s"
| "report_loop S hb (ReportDone # es) s = s"
| "report_loop S hb (ReportTick # es) s = report_loop S hb es (snd (ho_Beat S hb s))"
| "report_loop S hb (ReportElse f # es) s = report_loop S hb es (f s)"

definition StartReporter :: "'s heartbeat_ops \<Rightarrow> time \<Rightarrow> string \<Rightarrow> string \<Rightarrow> string \<Rightarrow> 's report_event list \<Rightarrow> 's \<Rightarrow> 's" where
  "StartReporter S started serviceID kind meta es s =
     (let hb = \<lparr>hb_ServiceID = serviceID, hb_Kind = kind, hb_StartedAt = started, hb_LastSeen = 0, hb_Meta = meta\<rparr>
      in report_loop S hb es (snd (ho_Beat S hb s)))"

section \<open>The in-memory store\<close>

record mock_beats =
  mb_m :: "(string \<times> heartbeat) list"
  mb_now :: time

definition mbeat_Beat :: "heartbeat \<Rightarrow> (mock_beats, unit) call" where
  "mbeat_Beat hb mk =
     (let hb = hb\<lparr>hb_LastSeen := mb_now mk\<rparr>;
          hb = (if IsZero (hb_StartedAt hb) then hb\<lparr>hb_StartedAt := hb_LastSeen hb\<rparr> else hb)
      in (Inr (), mk\<lparr>mb_m := AList.update (hb_ServiceID hb) hb (mb_m mk)\<rparr>))"

definition mbeat_Active :: "time \<Rightarrow> duration \<Rightarrow> (mock_beats, heartbeat list) call" where
  "mbeat_Active now wnd mk =
     (let cutoff = now - wnd
      in (Inr (sort_key (hb_key_of (\<lambda>s. s)) (filter (\<lambda>h. hb_LastSeen h > cutoff) (map snd (mb_m mk)))), mk))"

definition mbeat_Prune :: "time \<Rightarrow> duration \<Rightarrow> (mock_beats, unit) call" where
  "mbeat_Prune now olderThan mk =
     (let cutoff = now - olderThan
      in (Inr (), mk\<lparr>mb_m := filter (\<lambda>(k, h). \<not> hb_LastSeen h < cutoff) (mb_m mk)\<rparr>))"

definition MockBeats :: "mock_beats heartbeat_ops" where
  "MockBeats = \<lparr>ho_Beat = mbeat_Beat, ho_Active = mbeat_Active, ho_Prune = mbeat_Prune\<rparr>"

section \<open>The Postgres store\<close>

type_synonym beats_db = "heartbeat pg"

definition beat_row :: "heartbeat \<Rightarrow> beats_db \<Rightarrow> heartbeat" where
  "beat_row hb db = hb\<lparr>hb_StartedAt := if IsZero (hb_StartedAt hb) then pg_now db else hb_StartedAt hb,
     hb_LastSeen := pg_now db\<rparr>"

definition beat_Beat :: "heartbeat \<Rightarrow> (beats_db, unit) call" where
  "beat_Beat hb = stmt (\<lambda>db.
     let row = beat_row hb db
     in (Inr (), db\<lparr>pg_rows :=
           if hb_ServiceID hb \<in> hb_ServiceID ` set (pg_rows db)
           then map (\<lambda>r. if hb_ServiceID r = hb_ServiceID hb then row else r) (pg_rows db)
           else pg_rows db @ [row]\<rparr>))"

definition beat_Active :: "(string \<Rightarrow> string) \<Rightarrow> time \<Rightarrow> duration \<Rightarrow> (beats_db, heartbeat list) call" where
  "beat_Active collate now wnd =
     (let cutoff = now - wnd
      in stmt (\<lambda>db. (Inr (sort_key (hb_key_of collate) (filter (\<lambda>h. hb_LastSeen h > cutoff) (pg_scan db))), db)))"

definition beat_Prune :: "time \<Rightarrow> duration \<Rightarrow> (beats_db, unit) call" where
  "beat_Prune now olderThan =
     (let cutoff = now - olderThan in exec_delete (\<lambda>h. hb_LastSeen h < cutoff))"

definition PGBeats :: "(string \<Rightarrow> string) \<Rightarrow> beats_db heartbeat_ops" where
  "PGBeats collate = \<lparr>ho_Beat = beat_Beat, ho_Active = beat_Active collate, ho_Prune = beat_Prune\<rparr>"

section \<open>The services page\<close>

abbreviation (input) "onlineWindow \<equiv> (60000000000 :: int)"

definition shortDur :: "duration \<Rightarrow> string" where
  "shortDur d =
     (if d < Minute then Itoa (dur_int Second d) @ ''s''
      else if d < Hour then Itoa (dur_int Minute d) @ ''m''
      else if d < 24 * Hour then Itoa (dur_int Hour d) @ ''h'' @ Itoa (dur_int Minute d smod 60) @ ''m''
      else Itoa (dur_int Hour d sdiv 24) @ ''d'' @ Itoa (dur_int Hour d smod 24) @ ''h'')"

record service_row =
  sv_Kind :: string
  sv_ServiceID :: string
  sv_Uptime :: string
  sv_LastSeen :: string
  sv_Meta :: string

definition service_of :: "time \<Rightarrow> heartbeat \<Rightarrow> service_row" where
  "service_of now h =
     \<lparr>sv_Kind = hb_Kind h, sv_ServiceID = hb_ServiceID h, sv_Uptime = shortDur (time_Sub now (hb_StartedAt h)),
      sv_LastSeen = shortDur (time_Sub now (hb_LastSeen h)) @ '' ago'', sv_Meta = hb_Meta h\<rparr>"

text \<open>The template ranges over the map of counts in the order of its keys.\<close>

definition by_kind :: "heartbeat list \<Rightarrow> (string \<times> int) list" where
  "by_kind hbs = map (\<lambda>k. (k, int (count_list (map hb_Kind hbs) k))) (sort (remdups (map hb_Kind hbs)))"

abbreviation (input) "service_lf \<equiv> [CHR 0x0A]"

definition service_html :: "service_row \<Rightarrow> string" where
  \<open>service_html r =
     service_lf @ ''      <tr>'' @ service_lf
     @ ''        <td><span class="badge bg-info text-dark">'' @ html_escape (sv_Kind r) @ ''</span></td>'' @ service_lf
     @ ''        <td><code>'' @ html_escape (sv_ServiceID r) @ ''</code></td>'' @ service_lf
     @ ''        <td class="text-end small">'' @ html_escape (sv_Uptime r) @ ''</td>'' @ service_lf
     @ ''        <td class="text-end small">'' @ html_escape (sv_LastSeen r) @ ''</td>'' @ service_lf
     @ ''        <td class="small text-muted">'' @ html_escape (sv_Meta r) @ ''</td>'' @ service_lf
     @ ''      </tr>'' @ service_lf @ ''    ''\<close>

definition services_page :: "service_row list \<Rightarrow> (string \<times> int) list \<Rightarrow> string" where
  \<open>services_page rows kinds =
     service_lf @ ''<div class="card"><div class="card-body">'' @ service_lf
     @ ''  <h2 class="card-title mb-1">Services online</h2>'' @ service_lf
     @ ''  <p class="text-muted small mb-3">Process instances seen in the last '' @ Itoa (dur_int Second onlineWindow) @ ''s'' @ service_lf
     @ ''    ('' @ Itoa (int (length rows)) @ '' online''
     @ concat (map (\<lambda>(k, n). '' &middot; '' @ Itoa n @ '' '' @ html_escape k) kinds) @ '').</p>'' @ service_lf
     @ ''  '' @ (if rows \<noteq> [] then service_lf
          @ ''  <div class="data-table-wrapper"><table class="data-table">'' @ service_lf
          @ ''    <caption class="visually-hidden">Services and when each last reported in</caption>'' @ service_lf
          @ ''    <thead><tr><th>Kind</th><th>Instance</th><th class="text-end">Uptime</th><th class="text-end">Last seen</th><th>Meta</th></tr></thead>'' @ service_lf
          @ ''    <tbody>'' @ service_lf
          @ ''    '' @ concat (map service_html rows) @ service_lf
          @ ''    </tbody>'' @ service_lf
          @ ''  </table></div>'' @ service_lf @ ''  ''
        else service_lf
          @ ''  <div class="alert alert-secondary mb-0">No services have checked in recently.</div>'' @ service_lf @ ''  '') @ service_lf
     @ ''</div></div>''\<close>

definition renderServices :: "'s heartbeat_ops \<Rightarrow> time \<Rightarrow> 's page" where
  "renderServices S now c s =
     (case ho_Active S now onlineWindow s of
        (Inl err, s) \<Rightarrow> (Inl err, c, s)
      | (Inr hbs, s) \<Rightarrow> (Inr (services_page (map (service_of now) hbs) (by_kind hbs)), c, s))"

definition services_Views :: "'s heartbeat_ops \<Rightarrow> time \<Rightarrow> 's view list" where
  "services_Views S now =
     [\<lparr>v_Slug = ''services'', v_Title = ''Services'', v_Slot = SlotAdminPage, v_MinRole = RoleUser, v_Public = False,
        v_Render = renderServices S now, v_Actions = []\<rparr>]"

section \<open>The contract of a heartbeat store\<close>

text \<open>
  \<open>seen s i\<close> is the last heartbeat of instance \<open>i\<close>, \<open>clk s\<close> the clock that stamps heartbeats, and
  \<open>stamped\<close> what a heartbeat becomes in the store.
\<close>

definition stamped :: "time \<Rightarrow> heartbeat \<Rightarrow> heartbeat" where
  "stamped t hb = hb\<lparr>hb_StartedAt := if IsZero (hb_StartedAt hb) then t else hb_StartedAt hb, hb_LastSeen := t\<rparr>"

definition unless_older :: "time \<Rightarrow> heartbeat option \<Rightarrow> heartbeat option" where
  "unless_older cutoff h = (case h of None \<Rightarrow> None | Some h \<Rightarrow> if hb_LastSeen h < cutoff then None else Some h)"

lemma unless_older_Some: "unless_older c x = Some h \<longleftrightarrow> x = Some h \<and> \<not> hb_LastSeen h < c"
  by (auto simp: unless_older_def split: option.splits)

locale heartbeat_store =
  fixes S :: "'s heartbeat_ops" and seen :: "'s \<Rightarrow> string \<Rightarrow> heartbeat option" and inv :: "'s \<Rightarrow> bool"
    and clk :: "'s \<Rightarrow> time" and collate :: "string \<Rightarrow> string"
  assumes seen_ID: "inv s \<Longrightarrow> seen s i = Some h \<Longrightarrow> hb_ServiceID h = i"
    and Beat_ok: "inv s \<Longrightarrow> ho_Beat S hb s = (Inr (), s') \<Longrightarrow>
      inv s' \<and> seen s' = (seen s)(hb_ServiceID hb \<mapsto> stamped (clk s) hb)"
    and Beat_err: "inv s \<Longrightarrow> ho_Beat S hb s = (Inl e, s') \<Longrightarrow>
      inv s' \<and> (seen s' = seen s \<or> seen s' = (seen s)(hb_ServiceID hb \<mapsto> stamped (clk s) hb))"
    and Active_state: "inv s \<Longrightarrow> ho_Active S now w s = (r, s') \<Longrightarrow> inv s' \<and> seen s' = seen s"
    and Active_ok: "inv s \<Longrightarrow> ho_Active S now w s = (Inr out, s') \<Longrightarrow>
      sorted (map (hb_key_of collate) out) \<and> distinct out \<and> set out = {h. \<exists>i. seen s i = Some h \<and> now - w < hb_LastSeen h}"
    and Prune_ok: "inv s \<Longrightarrow> ho_Prune S now w s = (Inr (), s') \<Longrightarrow>
      inv s' \<and> seen s' = (\<lambda>i. unless_older (now - w) (seen s i))"
begin

text \<open>Pruning what is older than the window takes nothing away from the list.\<close>

lemma prune_then_active:
  assumes "inv s" "ho_Prune S now old s = (Inr (), s1)" "w \<le> old"
    and "ho_Active S now w s1 = (Inr out, s2)" "ho_Active S now w s = (Inr out', s3)"
  shows "set out = set out'"
proof -
  note P = Prune_ok [OF assms(1,2)]
  from P Active_ok [OF _ assms(4)] Active_ok [OF assms(1,5)] assms(3) show ?thesis
    by (auto simp: unless_older_def split: option.splits if_splits)
qed

text \<open>After a beat, an instance is listed exactly while the window reaches back to it.\<close>

lemma beat_then_active:
  assumes "inv s" "ho_Beat S hb s = (Inr (), s1)" "ho_Active S now w s1 = (Inr out, s2)"
  shows "stamped (clk s) hb \<in> set out \<longleftrightarrow> now - w < clk s"
    and "i \<noteq> hb_ServiceID hb \<Longrightarrow> (\<exists>h\<in>set out. hb_ServiceID h = i) \<longleftrightarrow> (\<exists>h. seen s i = Some h \<and> now - w < hb_LastSeen h)"
    and "sorted (map (hb_key_of collate) out)" "distinct (map hb_ServiceID out)"
proof -
  note B = Beat_ok [OF assms(1,2)]
  then have inv1: "inv s1" by simp
  note A = Active_ok [OF inv1 assms(3)]
  have id: "hb_ServiceID (stamped (clk s) hb) = hb_ServiceID hb" "hb_LastSeen (stamped (clk s) hb) = clk s"
    by (simp_all add: stamped_def)
  have mem: "h \<in> set out \<longleftrightarrow> seen s1 (hb_ServiceID h) = Some h \<and> now - w < hb_LastSeen h" for h
    using A seen_ID [OF inv1] by blast
  show "stamped (clk s) hb \<in> set out \<longleftrightarrow> now - w < clk s" using B by (simp add: mem id)
  show "(\<exists>h\<in>set out. hb_ServiceID h = i) \<longleftrightarrow> (\<exists>h. seen s i = Some h \<and> now - w < hb_LastSeen h)"
    if "i \<noteq> hb_ServiceID hb"
  proof -
    have "(\<exists>h\<in>set out. hb_ServiceID h = i) \<longleftrightarrow> (\<exists>h. seen s1 i = Some h \<and> now - w < hb_LastSeen h)"
      using mem seen_ID [OF inv1] by blast
    then show ?thesis using B that by simp
  qed
  show "sorted (map (hb_key_of collate) out)" using A by simp
  have "inj_on hb_ServiceID (set out)" by (rule inj_onI) (metis mem option.inject)
  then show "distinct (map hb_ServiceID out)" using A by (simp add: distinct_map)
qed

end

section \<open>The stores keep the contract\<close>

definition beats_ok :: "beats_db \<Rightarrow> bool" where
  "beats_ok db \<longleftrightarrow> distinct (map hb_ServiceID (pg_rows db))"

definition beat_seen :: "beats_db \<Rightarrow> string \<Rightarrow> heartbeat option" where
  "beat_seen db = map_of (map (\<lambda>h. (hb_ServiceID h, h)) (pg_rows db))"

lemma beats_script [simp]:
  "beats_ok (db\<lparr>pg_script := os\<rparr>) = beats_ok db" "beat_seen (db\<lparr>pg_script := os\<rparr>) = beat_seen db"
  by (simp_all add: beats_ok_def beat_seen_def)

lemma beat_seen_Some: "beats_ok db \<Longrightarrow> beat_seen db i = Some h \<longleftrightarrow> h \<in> set (pg_rows db) \<and> hb_ServiceID h = i"
  unfolding beat_seen_def by (subst map_of_eq_Some_iff) (auto simp: beats_ok_def comp_def)

definition upsert_beat :: "heartbeat \<Rightarrow> beats_db \<Rightarrow> beats_db" where
  "upsert_beat hb db = db\<lparr>pg_rows :=
     if hb_ServiceID hb \<in> hb_ServiceID ` set (pg_rows db)
     then map (\<lambda>r. if hb_ServiceID r = hb_ServiceID hb then beat_row hb db else r) (pg_rows db)
     else pg_rows db @ [beat_row hb db]\<rparr>"

lemma upsert_beat_ok:
  assumes "beats_ok db"
  shows "beats_ok (upsert_beat hb db)" "beat_seen (upsert_beat hb db) = (beat_seen db)(hb_ServiceID hb \<mapsto> stamped (pg_now db) hb)"
proof -
  have id: "hb_ServiceID (beat_row hb db) = hb_ServiceID hb" by (simp add: beat_row_def)
  have "map hb_ServiceID (map (\<lambda>r. if hb_ServiceID r = hb_ServiceID hb then beat_row hb db else r) (pg_rows db))
      = map hb_ServiceID (pg_rows db)" by (auto simp: id)
  then show ok: "beats_ok (upsert_beat hb db)"
    using assms by (auto simp: beats_ok_def upsert_beat_def id simp del: map_map)
  have "beat_seen (upsert_beat hb db) i = Some h \<longleftrightarrow> ((beat_seen db)(hb_ServiceID hb \<mapsto> stamped (pg_now db) hb)) i = Some h" for i h
  proof (cases "i = hb_ServiceID hb")
    case True
    then show ?thesis unfolding beat_seen_Some [OF ok] unfolding upsert_beat_def
      by (auto simp: id beat_row_def stamped_def) (metis imageI)+
  next
    case False
    then have "((beat_seen db)(hb_ServiceID hb \<mapsto> stamped (pg_now db) hb)) i = beat_seen db i" by simp
    then show ?thesis unfolding beat_seen_Some [OF ok] using False beat_seen_Some [OF assms, of i h]
      unfolding upsert_beat_def by (auto simp: id)
  qed
  then show "beat_seen (upsert_beat hb db) = (beat_seen db)(hb_ServiceID hb \<mapsto> stamped (pg_now db) hb)"
    by (intro ext option_eqI)
qed

lemma beat_Beat_result:
  assumes "beat_Beat hb db = (r, db')" "beats_ok db"
  shows "beats_ok db' \<and> (beat_seen db' = (beat_seen db)(hb_ServiceID hb \<mapsto> stamped (pg_now db) hb)
    \<or> (\<exists>e. r = Inl e) \<and> beat_seen db' = beat_seen db)"
proof -
  have "stmt (\<lambda>db. (Inr (), upsert_beat hb db)) db = (r, db')"
    using assms(1) by (simp add: beat_Beat_def upsert_beat_def Let_def)
  then show ?thesis
    by (rule stmt_rule) (use assms(2) upsert_beat_ok [of "db\<lparr>pg_script := os\<rparr>" hb for os] in auto)
qed

lemma sorted_listing:
  assumes "distinct hs"
  shows "sorted (map f (sort_key f (filter P hs))) \<and> distinct (sort_key f (filter P hs))
    \<and> set (sort_key f (filter P hs)) = {h \<in> set hs. P h}"
  using assms by auto

interpretation pbeat: heartbeat_store "PGBeats collate" beat_seen beats_ok pg_now collate
proof (unfold_locales, goal_cases)
  case (1 s i h)
  then show ?case by (simp add: beat_seen_Some)
next
  case (2 s hb s')
  then show ?case using beat_Beat_result [of hb s "Inr ()" s'] by (simp add: PGBeats_def)
next
  case (3 s hb e s')
  then show ?case using beat_Beat_result [of hb s "Inl e" s'] by (auto simp: PGBeats_def)
next
  case (4 s now w r s')
  then have "beat_Active collate now w s = (r, s')" by (simp add: PGBeats_def)
  then show ?case unfolding beat_Active_def Let_def
    by (rule stmt_rule) (use 4(1) in auto)
next
  case (5 s now w out s')
  then have "beat_Active collate now w s = (Inr out, s')" by (simp add: PGBeats_def)
  then have "out = sort_key (hb_key_of collate) (filter (\<lambda>h. hb_LastSeen h > now - w) (pg_scan s))"
    unfolding beat_Active_def Let_def by (elim stmt_cases) (auto simp: pg_scan_def)
  moreover have "distinct (pg_scan s)" using 5(1) by (simp add: pg_scan_def beats_ok_def distinct_map)
  ultimately show ?case
    using sorted_listing [of "pg_scan s" "hb_key_of collate" "\<lambda>h. hb_LastSeen h > now - w"] beat_seen_Some [OF 5(1)] by auto
next
  case (6 s now w s')
  then have "stmt (\<lambda>db. (Inr (), db\<lparr>pg_rows := filter (\<lambda>r. \<not> hb_LastSeen r < now - w) (pg_rows db)\<rparr>)) s = (Inr (), s')"
    by (simp add: PGBeats_def beat_Prune_def exec_delete_def Let_def)
  then have rows: "pg_rows s' = filter (\<lambda>r. \<not> hb_LastSeen r < now - w) (pg_rows s)"
    by (elim stmt_cases) auto
  then have ok: "beats_ok s'" using 6(1) by (simp add: beats_ok_def distinct_map_filter)
  have "beat_seen s' i = unless_older (now - w) (beat_seen s i)" for i
  proof (rule option_eqI)
    show "beat_seen s' i = Some h \<longleftrightarrow> unless_older (now - w) (beat_seen s i) = Some h" for h
      unfolding unless_older_Some beat_seen_Some [OF ok] beat_seen_Some [OF 6(1)] rows by auto
  qed
  with ok show ?case by (simp add: fun_eq_iff)
qed

definition mbeats_ok :: "mock_beats \<Rightarrow> bool" where
  "mbeats_ok mk \<longleftrightarrow> distinct (map fst (mb_m mk)) \<and> (\<forall>(k, h)\<in>set (mb_m mk). hb_ServiceID h = k)"

lemma mbeats_map_of: "mbeats_ok mk \<Longrightarrow> map_of (mb_m mk) i = Some h \<longleftrightarrow> (i, h) \<in> set (mb_m mk)"
  by (rule map_of_eq_Some_iff) (simp add: mbeats_ok_def)

lemma mbeats_listed:
  assumes "mbeats_ok mk"
  shows "distinct (map snd (mb_m mk))" "h \<in> set (map snd (mb_m mk)) \<longleftrightarrow> (\<exists>i. map_of (mb_m mk) i = Some h)"
proof -
  have ids: "map (\<lambda>x. hb_ServiceID (snd x)) (mb_m mk) = map fst (mb_m mk)"
    using assms by (auto simp: mbeats_ok_def)
  have "distinct (map hb_ServiceID (map snd (mb_m mk)))"
    unfolding map_map comp_def ids using assms by (simp add: mbeats_ok_def)
  then show "distinct (map snd (mb_m mk))" by (rule distinct_map [THEN iffD1, THEN conjunct1])
  show "h \<in> set (map snd (mb_m mk)) \<longleftrightarrow> (\<exists>i. map_of (mb_m mk) i = Some h)"
    using mbeats_map_of [OF assms] by force
qed

interpretation mbeat: heartbeat_store MockBeats "\<lambda>mk. map_of (mb_m mk)" mbeats_ok mb_now "\<lambda>s. s"
proof (unfold_locales, goal_cases)
  case (1 s i h)
  then show ?case by (auto simp: mbeats_map_of mbeats_ok_def)
next
  case (2 s hb s')
  have s': "s' = s\<lparr>mb_m := AList.update (hb_ServiceID hb) (stamped (mb_now s) hb) (mb_m s)\<rparr>"
    using 2(2) by (cases hb) (auto simp: MockBeats_def mbeat_Beat_def Let_def stamped_def)
  have "hb_ServiceID h = k" if "(k, h) \<in> set (AList.update (hb_ServiceID hb) (stamped (mb_now s) hb) (mb_m s))" for k h
  proof -
    have "distinct (map fst (AList.update (hb_ServiceID hb) (stamped (mb_now s) hb) (mb_m s)))"
      using 2(1) by (simp add: mbeats_ok_def distinct_update)
    then have "map_of (AList.update (hb_ServiceID hb) (stamped (mb_now s) hb) (mb_m s)) k = Some h"
      using that by simp
    then show ?thesis using 2(1) mbeats_map_of [OF 2(1)] by (auto simp: update_conv' stamped_def mbeats_ok_def split: if_splits)
  qed
  then show ?case using 2(1) unfolding s' by (auto simp: mbeats_ok_def distinct_update update_conv')
next
  case (3 s hb e s')
  then show ?case by (simp add: MockBeats_def mbeat_Beat_def Let_def)
next
  case (4 s now w r s')
  then show ?case by (simp add: MockBeats_def mbeat_Active_def Let_def)
next
  case (5 s now w out s')
  then have "out = sort_key (hb_key_of (\<lambda>s. s)) (filter (\<lambda>h. hb_LastSeen h > now - w) (map snd (mb_m s)))"
    by (auto simp: MockBeats_def mbeat_Active_def Let_def)
  then show ?case
    using sorted_listing [OF mbeats_listed(1) [OF 5(1)], of "hb_key_of (\<lambda>s. s)" "\<lambda>h. hb_LastSeen h > now - w"]
      mbeats_listed(2) [OF 5(1)] by auto
next
  case (6 s now w s')
  then have s': "s' = s\<lparr>mb_m := filter (\<lambda>(k, h). \<not> hb_LastSeen h < now - w) (mb_m s)\<rparr>"
    by (simp add: MockBeats_def mbeat_Prune_def Let_def)
  then have ok: "mbeats_ok s'" using 6(1) by (auto simp: mbeats_ok_def distinct_map_filter)
  have m: "mb_m s' = filter (\<lambda>(k, h). \<not> hb_LastSeen h < now - w) (mb_m s)" using s' by simp
  have "map_of (mb_m s') i = unless_older (now - w) (map_of (mb_m s) i)" for i
  proof (rule option_eqI)
    show "map_of (mb_m s') i = Some h \<longleftrightarrow> unless_older (now - w) (map_of (mb_m s) i) = Some h" for h
      unfolding unless_older_Some mbeats_map_of [OF ok] mbeats_map_of [OF 6(1)] unfolding m by auto
  qed
  with ok show ?case by (simp add: fun_eq_iff)
qed

section \<open>Properties\<close>

text \<open>
  The services page lists who has checked in. On the Postgres store, after an instance's beat was
  stored, any list the database answers contains that instance exactly while the window reaches back
  to the beat, every other instance exactly while it reaches back to that one's last beat, each
  instance once, by kind and then id - and pruning anything older than the window first changes
  none of it.
\<close>

theorem beat_keeps_instance_listed:
  assumes "beats_ok db" and "beat_Beat hb db = (Inr (), db1)"
    and "beat_Active collate now w db1 = (Inr out, db2)" and "i \<noteq> hb_ServiceID hb"
    and "beat_Prune now old db1 = (Inr (), db3)" and "w \<le> old" and "beat_Active collate now w db3 = (Inr out', db4)"
  shows "((\<exists>h\<in>set out. hb_ServiceID h = hb_ServiceID hb) \<longleftrightarrow> now - w < pg_now db)
    \<and> ((\<exists>h\<in>set out. hb_ServiceID h = i) \<longleftrightarrow> (\<exists>h\<in>set (pg_rows db). hb_ServiceID h = i \<and> now - w < hb_LastSeen h))
    \<and> distinct (map hb_ServiceID out) \<and> sorted (map (hb_key_of collate) out) \<and> set out' = set out"
proof -
  have b: "ho_Beat (PGBeats collate) hb db = (Inr (), db1)" "ho_Active (PGBeats collate) now w db1 = (Inr out, db2)"
    "ho_Prune (PGBeats collate) now old db1 = (Inr (), db3)" "ho_Active (PGBeats collate) now w db3 = (Inr out', db4)"
    using assms by (simp_all add: PGBeats_def)
  note B = pbeat.Beat_ok [OF assms(1) b(1)]
  note L = pbeat.beat_then_active [OF assms(1) b(1,2)]
  have "set out' = set out" using B pbeat.prune_then_active [OF _ b(3) assms(6) b(4,2)] by blast
  moreover have "(\<exists>h. beat_seen db i = Some h \<and> now - w < hb_LastSeen h)
      \<longleftrightarrow> (\<exists>h\<in>set (pg_rows db). hb_ServiceID h = i \<and> now - w < hb_LastSeen h)"
    using assms(1) by (auto simp: beat_seen_Some)
  moreover have "(\<exists>h\<in>set out. hb_ServiceID h = hb_ServiceID hb) \<longleftrightarrow> now - w < pg_now db"
  proof
    assume "\<exists>h\<in>set out. hb_ServiceID h = hb_ServiceID hb"
    then obtain h where h: "h \<in> set out" "hb_ServiceID h = hb_ServiceID hb" by blast
    with pbeat.Active_ok [OF _ b(2)] B obtain j where "beat_seen db1 j = Some h" "now - w < hb_LastSeen h" by auto
    with B h(2) pbeat.seen_ID [of db1 j h] show "now - w < pg_now db" by (auto simp: stamped_def)
  next
    assume "now - w < pg_now db"
    with L(1) have "stamped (pg_now db) hb \<in> set out" by simp
    then show "\<exists>h\<in>set out. hb_ServiceID h = hb_ServiceID hb" by (rule bexI [rotated]) (simp add: stamped_def)
  qed
  ultimately show ?thesis using L(2) [OF assms(4)] L(3,4) by simp
qed

definition ex_beat :: "string \<Rightarrow> string \<Rightarrow> time \<Rightarrow> heartbeat" where
  "ex_beat sid kind t = \<lparr>hb_ServiceID = sid, hb_Kind = kind, hb_StartedAt = 1, hb_LastSeen = t, hb_Meta = []\<rparr>"

theorem beat_keeps_instance_listed_witness:
  "let db = pg_table [ex_beat ''w1'' ''worker'' 5, ex_beat ''a1'' ''api'' 50] 1 100;
       db1 = snd (beat_Beat (ex_beat ''web1'' ''web'' 0) db);
       out = (case fst (beat_Active (\<lambda>s. s) 110 60 db1) of Inr out \<Rightarrow> out | _ \<Rightarrow> [])
   in (\<exists>h\<in>set out. hb_ServiceID h = ''web1'') \<and> \<not> (\<exists>h\<in>set out. hb_ServiceID h = ''w1'')"
proof -
  let ?db = "pg_table [ex_beat ''w1'' ''worker'' 5, ex_beat ''a1'' ''api'' 50] 1 100"
  let ?hb = "ex_beat ''web1'' ''web'' 0"
  have ok: "beats_ok ?db" by (simp add: beats_ok_def pg_table_def ex_beat_def)
  obtain db1 where b: "beat_Beat ?hb ?db = (Inr (), db1)" "pg_script db1 = []"
    by (simp add: beat_Beat_def stmt_def pg_table_def ex_beat_def Let_def)
  obtain out where o1: "beat_Active (\<lambda>s. s) 110 60 db1 = (Inr out, db1)"
    using b(2) by (simp add: beat_Active_def stmt_def Let_def)
  obtain db3 where p: "beat_Prune 110 60 db1 = (Inr (), db3)" "pg_script db3 = []"
    using b(2) by (simp add: beat_Prune_def exec_delete_def stmt_def Let_def)
  obtain out' where o2: "beat_Active (\<lambda>s. s) 110 60 db3 = (Inr out', db3)"
    using p(2) by (simp add: beat_Active_def stmt_def Let_def)
  from beat_keeps_instance_listed [OF ok b(1) o1 _ p(1) _ o2, of "''w1''"]
  have "\<exists>h\<in>set out. hb_ServiceID h = ''web1''" "\<not> (\<exists>h\<in>set out. hb_ServiceID h = ''w1'')"
    by (simp_all add: ex_beat_def pg_table_def)
  then show ?thesis by (auto simp: b(1) o1 Let_def)
qed

section \<open>The life of a reporter\<close>

text \<open>The state in which a reporter's last beat was made; \<open>s0\<close> is that of the beat before the events.\<close>

fun last_beat :: "'s heartbeat_ops \<Rightarrow> heartbeat \<Rightarrow> 's report_event list \<Rightarrow> 's \<Rightarrow> 's \<Rightarrow> 's" where
  "last_beat S hb [] s s0 = s0"
| "last_beat S hb (ReportDone # es) s s0 = s0"
| "last_beat S hb (ReportTick # es) s s0 = last_beat S hb es (snd (ho_Beat S hb s)) s"
| "last_beat S hb (ReportElse f # es) s s0 = last_beat S hb es (f s) s0"

locale sure_heartbeat_store = heartbeat_store S seen inv clk collate
  for S :: "'s heartbeat_ops" and seen and inv :: "'s \<Rightarrow> bool" and clk and collate +
  fixes up :: "'s \<Rightarrow> bool"
  assumes Beat_up: "inv s \<Longrightarrow> up s \<Longrightarrow> \<exists>s'. ho_Beat S hb s = (Inr (), s') \<and> up s' \<and> clk s' = clk s"
begin

text \<open>
  What else happens to the store while instance \<open>i\<close> reports: its clock goes on, and its heartbeat is
  left alone or, once it is older than \<open>old\<close>, pruned.
\<close>

definition gentle :: "string \<Rightarrow> duration \<Rightarrow> ('s \<Rightarrow> 's) \<Rightarrow> bool" where
  "gentle i old f \<longleftrightarrow> (\<forall>s. inv s \<and> up s \<longrightarrow> inv (f s) \<and> up (f s) \<and> clk s \<le> clk (f s) \<and>
     (seen (f s) i = seen s i \<or> seen (f s) i = unless_older (clk (f s) - old) (seen s i)))"

definition fresh :: "heartbeat \<Rightarrow> duration \<Rightarrow> time \<Rightarrow> 's \<Rightarrow> bool" where
  "fresh hb old t s \<longleftrightarrow> inv s \<and> up s \<and>
     (seen s (hb_ServiceID hb) = Some (stamped t hb) \<or> seen s (hb_ServiceID hb) = None \<and> t < clk s - old)"

lemma fresh_beat:
  "inv s \<Longrightarrow> up s \<Longrightarrow> fresh hb old (clk s) (snd (ho_Beat S hb s))"
  using Beat_up [of s hb] Beat_ok [of s hb] by (auto simp: fresh_def)

lemma report_loop_fresh:
  "fresh hb old (clk s0) s \<Longrightarrow> (\<forall>f. ReportElse f \<in> set es \<longrightarrow> gentle (hb_ServiceID hb) old f) \<Longrightarrow>
   fresh hb old (clk (last_beat S hb es s s0)) (report_loop S hb es s)"
proof (induction es arbitrary: s s0)
  case (Cons e es)
  have rest: "\<forall>f. ReportElse f \<in> set es \<longrightarrow> gentle (hb_ServiceID hb) old f" using Cons.prems(2) by simp
  show ?case
  proof (cases e)
    case ReportTick
    have "fresh hb old (clk s) (snd (ho_Beat S hb s))"
      using Cons.prems(1) by (intro fresh_beat) (simp_all add: fresh_def)
    then show ?thesis using Cons.IH rest ReportTick by simp
  next
    case (ReportElse f)
    then have "gentle (hb_ServiceID hb) old f" using Cons.prems(2) by simp
    then have "fresh hb old (clk s0) (f s)"
      using Cons.prems(1) by (fastforce simp: fresh_def gentle_def unless_older_def stamped_def split: if_splits)
    then show ?thesis using Cons.IH rest ReportElse by simp
  qed (use Cons.prems in simp)
qed simp

text \<open>The list of services contains a reporter exactly while the window reaches back to its last beat.\<close>

lemma reporter_listed:
  assumes "inv s" "up s" "\<forall>f. ReportElse f \<in> set es \<longrightarrow> gentle (hb_ServiceID hb) old f"
    and "s' = report_loop S hb es (snd (ho_Beat S hb s))" "t = clk (last_beat S hb es (snd (ho_Beat S hb s)) s)"
    and "ho_Active S now w s' = (Inr out, s'')" "clk s' \<le> now" "w \<le> old"
  shows "(\<exists>h\<in>set out. hb_ServiceID h = hb_ServiceID hb) \<longleftrightarrow> now - w < t"
    and "now - w < t \<Longrightarrow> stamped t hb \<in> set out"
    and "distinct (map hb_ServiceID out)" "sorted (map (hb_key_of collate) out)"
proof -
  have "fresh hb old t s'"
    unfolding assms(4,5) using fresh_beat [OF assms(1,2)] assms(3) by (rule report_loop_fresh)
  then have F: "inv s'" "seen s' (hb_ServiceID hb) = Some (stamped t hb) \<or> seen s' (hb_ServiceID hb) = None \<and> t < clk s' - old"
    by (simp_all add: fresh_def)
  have mem: "h \<in> set out \<longleftrightarrow> seen s' (hb_ServiceID h) = Some h \<and> now - w < hb_LastSeen h" for h
    using Active_ok [OF F(1) assms(6)] seen_ID [OF F(1)] by blast
  have id: "hb_ServiceID (stamped t hb) = hb_ServiceID hb" "hb_LastSeen (stamped t hb) = t"
    by (simp_all add: stamped_def)
  have "inj_on hb_ServiceID (set out)" by (rule inj_onI) (metis mem option.inject)
  then show "distinct (map hb_ServiceID out)" "sorted (map (hb_key_of collate) out)"
    using Active_ok [OF F(1) assms(6)] by (simp_all add: distinct_map)
  show in_list: "stamped t hb \<in> set out" if "now - w < t"
    using F(2) that assms(7,8) by (auto simp: mem id)
  show "(\<exists>h\<in>set out. hb_ServiceID h = hb_ServiceID hb) \<longleftrightarrow> now - w < t"
  proof
    assume "\<exists>h\<in>set out. hb_ServiceID h = hb_ServiceID hb"
    then show "now - w < t" using F(2) mem id(2) by fastforce
  next
    assume "now - w < t"
    then show "\<exists>h\<in>set out. hb_ServiceID h = hb_ServiceID hb" using in_list id(1) by blast
  qed
qed

end

interpretation sure_pbeat: sure_heartbeat_store "PGBeats collate" beat_seen beats_ok pg_now collate healthy
proof unfold_locales
  fix s :: beats_db and hb
  assume "beats_ok s" "healthy s"
  then show "\<exists>s'. ho_Beat (PGBeats collate) hb s = (Inr (), s') \<and> healthy s' \<and> pg_now s' = pg_now s"
    by (simp add: PGBeats_def beat_Beat_def stmt_healthy Let_def)
qed

text \<open>
  C38. A reporting process is listed, a silent one ages out. On a Postgres store that answers, let
  \<open>StartReporter\<close> run through any ticks of its timer while anything else happens that leaves its row
  alone or prunes it once it is older than \<open>old\<close>, and let the clock go on. Whenever a list over a
  window of at most \<open>old\<close> is read, it contains the process exactly while the window reaches back to its
  last tick (or its start), then with its kind, its start and its meta text; every instance is listed once,
  and the list is in the order of kind and id.
\<close>

theorem reporter_listed_until_it_falls_silent:
  assumes "beats_ok db" "healthy db"
    and "\<forall>f. ReportElse f \<in> set es \<longrightarrow> (\<forall>s. beats_ok s \<and> healthy s \<longrightarrow>
      beats_ok (f s) \<and> healthy (f s) \<and> pg_now s \<le> pg_now (f s) \<and>
      (beat_seen (f s) sid = beat_seen s sid \<or> beat_seen (f s) sid = unless_older (pg_now (f s) - old) (beat_seen s sid)))"
    and "db' = StartReporter (PGBeats collate) started sid kind meta es db"
    and "hb = \<lparr>hb_ServiceID = sid, hb_Kind = kind, hb_StartedAt = started, hb_LastSeen = 0, hb_Meta = meta\<rparr>"
    and "t = pg_now (last_beat (PGBeats collate) hb es (snd (beat_Beat hb db)) db)"
    and "beat_Active collate now w db' = (Inr out, db'')" "pg_now db' \<le> now" "w \<le> old"
  shows "((\<exists>h\<in>set out. hb_ServiceID h = sid) \<longleftrightarrow> now - w < t) \<and> (now - w < t \<longrightarrow> stamped t hb \<in> set out)
    \<and> distinct (map hb_ServiceID out) \<and> sorted (map (hb_key_of collate) out)"
proof -
  let ?S = "PGBeats collate"
  have ops: "ho_Beat ?S = beat_Beat" "ho_Active ?S = beat_Active collate" by (simp_all add: PGBeats_def)
  have gentle: "\<forall>f. ReportElse f \<in> set es \<longrightarrow> sure_pbeat.gentle (hb_ServiceID hb) old f"
    using assms(3) unfolding sure_pbeat.gentle_def by (simp add: assms(5))
  have db': "db' = report_loop ?S hb es (snd (ho_Beat ?S hb db))" by (simp add: assms(4,5) StartReporter_def ops Let_def)
  note L = sure_pbeat.reporter_listed [OF assms(1,2) gentle db', unfolded ops, OF assms(6-9)]
  show ?thesis using L by (simp add: assms(5))
qed


definition ex_later :: "int \<Rightarrow> beats_db \<Rightarrow> beats_db" where
  "ex_later d db = db\<lparr>pg_now := pg_now db + d\<rparr>"

theorem reporter_listed_until_it_falls_silent_witness:
  "let db' = StartReporter (PGBeats (\<lambda>s. s)) 7 ''web1'' ''web'' [] [ReportElse (ex_later 20), ReportTick, ReportElse (ex_later 30)]
         (pg_table [ex_beat ''w1'' ''worker'' 5] 1 100);
       listed = (\<lambda>now. case fst (beat_Active (\<lambda>s. s) now 60 db') of Inr out \<Rightarrow> \<exists>h\<in>set out. hb_ServiceID h = ''web1'' | _ \<Rightarrow> False)
   in listed 150 \<and> \<not> listed 180"
proof -
  let ?db = "pg_table [ex_beat ''w1'' ''worker'' 5] 1 100"
  let ?es = "[ReportElse (ex_later 20), ReportTick, ReportElse (ex_later 30)]"
  define hb where "hb = \<lparr>hb_ServiceID = ''web1'', hb_Kind = ''web'', hb_StartedAt = 7, hb_LastSeen = 0, hb_Meta = []\<rparr>"
  define db' where "db' = StartReporter (PGBeats (\<lambda>s. s)) 7 ''web1'' ''web'' [] ?es ?db"
  have ok: "beats_ok ?db" by (simp add: beats_ok_def pg_table_def ex_beat_def)
  have others: "\<forall>f. ReportElse f \<in> set ?es \<longrightarrow> (\<forall>s. beats_ok s \<and> healthy s \<longrightarrow>
      beats_ok (f s) \<and> healthy (f s) \<and> pg_now s \<le> pg_now (f s) \<and>
      (beat_seen (f s) ''web1'' = beat_seen s ''web1'' \<or> beat_seen (f s) ''web1'' = unless_older (pg_now (f s) - 60) (beat_seen s ''web1'')))"
    by (auto simp: ex_later_def beats_ok_def beat_seen_def)
  have t: "pg_now (last_beat (PGBeats (\<lambda>s. s)) hb ?es (snd (beat_Beat hb ?db)) ?db) = 120"
    by (simp add: PGBeats_def beat_Beat_def stmt_def pg_table_def ex_later_def Let_def)
  have now: "pg_now db' = 150" "pg_script db' = []"
    by (simp_all add: db'_def StartReporter_def PGBeats_def beat_Beat_def stmt_def pg_table_def ex_later_def Let_def)
  obtain out where o: "beat_Active (\<lambda>s. s) 150 60 db' = (Inr out, db')"
    using now by (simp add: beat_Active_def stmt_def Let_def)
  obtain out' where o': "beat_Active (\<lambda>s. s) 180 60 db' = (Inr out', db')"
    using now by (simp add: beat_Active_def stmt_def Let_def)
  note R = reporter_listed_until_it_falls_silent [OF ok healthy_table others db'_def hb_def t [symmetric]]
  have "\<exists>h\<in>set out. hb_ServiceID h = ''web1''" "\<not> (\<exists>h\<in>set out'. hb_ServiceID h = ''web1'')"
    using R [OF o] R [OF o'] now by auto
  then show ?thesis by (simp only: Let_def db'_def [symmetric] o o' fst_conv sum.case) simp
qed

end
