(* ===== verification/Notify.thy ===== *)
theory Notify
  imports Views Pg
begin

text \<open>
  notify/: the notification fan-out (notify.go), the inbox store interface with its Postgres store
  (pgstore.go) and the inbox page. A sink is what a delivery channel does to the world, and the error
  it returns; registering and copying the list of sinks are single steps under the mutex.
\<close>

section \<open>Fan-out\<close>

record notification =
  n_Kind :: string
  n_Title :: string
  n_Body :: string
  n_Link :: string
  n_ActorID :: int
  n_ActorName :: string

type_synonym 'w sink = "int \<Rightarrow> notification \<Rightarrow> ('w, unit) call"

record 'w fanout =
  fo_sinks :: "'w sink list"

definition NewFanout :: "'w sink list \<Rightarrow> 'w fanout" where
  "NewFanout sinks = \<lparr>fo_sinks = sinks\<rparr>"

definition fanout_Add :: "'w sink \<Rightarrow> 'w fanout \<Rightarrow> 'w fanout" where
  "fanout_Add s f = f\<lparr>fo_sinks := fo_sinks f @ [s]\<rparr>"

definition Deliver :: "'w fanout \<Rightarrow> int \<Rightarrow> notification \<Rightarrow> ('w, unit) call" where
  "Deliver f userID n w =
     (if n_ActorID n \<noteq> 0 \<and> n_ActorID n = userID then (Inr (), w)
      else (Inr (), foldl (\<lambda>w s. snd (s userID n w)) w (fo_sinks f)))"

definition LogSink :: "(int \<Rightarrow> notification \<Rightarrow> 'w \<Rightarrow> 'w) \<Rightarrow> 'w sink" where
  "LogSink logf userID n w = (Inr (), logf userID n w)"

section \<open>The inbox\<close>

record item =
  it_ID :: int
  it_Kind :: string
  it_Title :: string
  it_Body :: string
  it_Link :: string
  it_ActorName :: string
  it_Read :: bool
  it_CreatedAt :: time

record 's inbox_ops =
  in_Add :: "int \<Rightarrow> notification \<Rightarrow> ('s, unit) call"
  in_List :: "int \<Rightarrow> int \<Rightarrow> ('s, item list) call"
  in_UnreadCount :: "int \<Rightarrow> ('s, int) call"
  in_MarkAllRead :: "int \<Rightarrow> ('s, unit) call"

definition InboxSink :: "'s inbox_ops \<Rightarrow> 's sink" where
  "InboxSink store userID n = in_Add store userID n"

record inbox_row =
  ir_id :: int
  ir_user_id :: int
  ir_kind :: string
  ir_title :: string
  ir_body :: string
  ir_link :: string
  ir_actor_name :: string
  ir_read_at :: "time option"
  ir_created_at :: time

type_synonym inbox_db = "inbox_row pg"

definition inbox_Add :: "int \<Rightarrow> notification \<Rightarrow> (inbox_db, unit) call" where
  "inbox_Add userID n = stmt (\<lambda>db.
     let row = \<lparr>ir_id = pg_next db, ir_user_id = userID, ir_kind = n_Kind n, ir_title = n_Title n, ir_body = n_Body n,
                ir_link = n_Link n, ir_actor_name = n_ActorName n, ir_read_at = None, ir_created_at = pg_now db\<rparr>
     in (Inr (), db\<lparr>pg_rows := pg_rows db @ [row], pg_next := pg_next db + 1\<rparr>))"

definition row_item :: "inbox_row \<Rightarrow> item" where
  "row_item r = \<lparr>it_ID = ir_id r, it_Kind = ir_kind r, it_Title = ir_title r, it_Body = ir_body r, it_Link = ir_link r,
     it_ActorName = ir_actor_name r, it_Read = (ir_read_at r \<noteq> None), it_CreatedAt = ir_created_at r\<rparr>"

definition inbox_List :: "int \<Rightarrow> int \<Rightarrow> (inbox_db, item list) call" where
  "inbox_List userID limit =
     (let limit = (if limit \<le> 0 \<or> limit > 200 then 50 else limit)
      in stmt (\<lambda>db. (Inr (map row_item (take (nat limit)
           (sort_key (\<lambda>r. - ir_created_at r) (filter (\<lambda>r. ir_user_id r = userID) (pg_scan db))))), db)))"

definition unread_row :: "int \<Rightarrow> inbox_row \<Rightarrow> bool" where
  "unread_row userID r \<longleftrightarrow> ir_user_id r = userID \<and> ir_read_at r = None"

definition inbox_UnreadCount :: "int \<Rightarrow> (inbox_db, int) call" where
  "inbox_UnreadCount userID = stmt (\<lambda>db. (Inr (int (length (filter (unread_row userID) (pg_rows db)))), db))"

definition inbox_MarkAllRead :: "int \<Rightarrow> (inbox_db, unit) call" where
  "inbox_MarkAllRead userID = stmt (\<lambda>db. (Inr (), db\<lparr>pg_rows :=
     map (\<lambda>r. if unread_row userID r then r\<lparr>ir_read_at := Some (pg_now db)\<rparr> else r) (pg_rows db)\<rparr>))"

definition PGInbox :: "inbox_db inbox_ops" where
  "PGInbox = \<lparr>in_Add = inbox_Add, in_List = inbox_List, in_UnreadCount = inbox_UnreadCount, in_MarkAllRead = inbox_MarkAllRead\<rparr>"

section \<open>The inbox page\<close>

record 's inbox_handler =
  ih_store :: "'s inbox_ops"
  ih_current :: current_func
  ih_tmpl :: "item list \<Rightarrow> string \<Rightarrow> gerr + string"
  ih_csrf :: "gctx \<Rightarrow> string"

definition inbox_render :: "'s inbox_handler \<Rightarrow> 's page" where
  "inbox_render h = with_user (ih_current h) (page_text (Inr []))
     (\<lambda>u c s.
        case in_List (ih_store h) (cu_ID u) 50 s of
          (Inl err, s) \<Rightarrow> (Inl err, c, s)
        | (Inr items, s) \<Rightarrow> (ih_tmpl h items (ih_csrf h c), c, s))"

definition readAll :: "'s inbox_handler \<Rightarrow> 's page" where
  "readAll h =
     (let done_page = (\<lambda>c s. (Inr [], call (CRedirect 303 ''/p/inbox'') c, s))
      in with_user (ih_current h) done_page
           (\<lambda>u c s. done_page c (snd (in_MarkAllRead (ih_store h) (cu_ID u) s))))"

definition InboxViews :: "gerr option \<Rightarrow> 's inbox_handler \<Rightarrow> gerr + 's view list" where
  "InboxViews parse_err h =
     (case parse_err of
        Some err \<Rightarrow> Inl err
      | None \<Rightarrow> Inr [\<lparr>v_Slug = ''inbox'', v_Title = ''Inbox'', v_Slot = SlotSitePage, v_MinRole = RoleUser, v_Public = False,
          v_Render = inbox_render h, v_Actions = [(''read-all'', readAll h)]\<rparr>])"

section \<open>The contract of an inbox\<close>

text \<open>A channel that changes neither the unread counts nor the inbox's being up.\<close>

definition leaves_alone :: "('w \<Rightarrow> int \<Rightarrow> nat) \<Rightarrow> ('w \<Rightarrow> bool) \<Rightarrow> 'w sink \<Rightarrow> bool" where
  "leaves_alone unread up k \<longleftrightarrow> (\<forall>u n w. unread (snd (k u n w)) = unread w \<and> (up w \<longrightarrow> up (snd (k u n w))))"

text \<open>
  \<open>unread s u\<close> is how many unread notifications \<open>u\<close> has. A failed write may have happened; an inbox
  that is \<open>up\<close> takes what it is given.
\<close>

locale inbox =
  fixes S :: "'s inbox_ops" and unread :: "'s \<Rightarrow> int \<Rightarrow> nat" and up :: "'s \<Rightarrow> bool"
  assumes Add_ok: "in_Add S u n s = (Inr (), s') \<Longrightarrow> unread s' = (unread s)(u := Suc (unread s u))"
    and Add_err: "in_Add S u n s = (Inl e, s') \<Longrightarrow> unread s' = unread s \<or> unread s' = (unread s)(u := Suc (unread s u))"
    and Add_up: "up s \<Longrightarrow> \<exists>s'. in_Add S u n s = (Inr (), s')"
    and List_state: "in_List S u limit s = (r, s') \<Longrightarrow> unread s' = unread s"
    and Count_state: "in_UnreadCount S u s = (r', s') \<Longrightarrow> unread s' = unread s"
    and Count_ok: "in_UnreadCount S u s = (Inr k, s') \<Longrightarrow> k = int (unread s u)"
    and MarkAllRead_ok: "in_MarkAllRead S u s = (Inr (), s') \<Longrightarrow> unread s' = (unread s)(u := 0)"
begin

text \<open>
  One notification through a fan-out: the inbox gets it exactly once, whatever the channels before
  and after it do (as long as they leave the inbox alone), and not at all for one's own action.
\<close>

lemma run_keeps:
  "list_all (leaves_alone unread up) ks \<Longrightarrow> unread (foldl (\<lambda>w k. snd (k u n w)) w ks) = unread w
     \<and> (up w \<longrightarrow> up (foldl (\<lambda>w k. snd (k u n w)) w ks))"
  by (induction ks arbitrary: w) (simp_all add: leaves_alone_def)

lemma delivered_once:
  assumes others: "list_all (leaves_alone unread up) (before @ after)" and "up w"
    and run: "Deliver (NewFanout (before @ [InboxSink S] @ after)) u n w = (r, w')"
  shows "unread w' = (if n_ActorID n \<noteq> 0 \<and> n_ActorID n = u then unread w else (unread w)(u := Suc (unread w u)))"
proof (cases "n_ActorID n \<noteq> 0 \<and> n_ActorID n = u")
  case True
  then show ?thesis using run by (simp add: Deliver_def)
next
  case False
  define go :: "'s \<Rightarrow> 's sink list \<Rightarrow> 's" where "go = foldl (\<lambda>w k. snd (k u n w))"
  have keeps: "unread (go w before) = unread w" "up (go w before)" "\<And>w. unread (go w after) = unread w"
    using others run_keeps [of before u n w] run_keeps [of after u n] \<open>up w\<close> by (simp_all add: go_def)
  obtain w2 where a: "in_Add S u n (go w before) = (Inr (), w2)" using Add_up [OF keeps(2)] by blast
  have "w' = go w2 after"
    using run False a by (simp add: Deliver_def NewFanout_def InboxSink_def go_def del: de_Morgan_conj)
  then have "unread w' = (unread w)(u := Suc (unread w u))" using Add_ok [OF a] keeps by simp
  then show ?thesis unfolding if_not_P [OF False] .
qed

end

definition unread_rows :: "inbox_db \<Rightarrow> int \<Rightarrow> nat" where
  "unread_rows db u = length (filter (unread_row u) (pg_rows db))"

lemma unread_script [simp]: "unread_rows (db\<lparr>pg_script := os\<rparr>) = unread_rows db"
  by (simp add: unread_rows_def fun_eq_iff)

lemma inbox_Add_result:
  assumes "inbox_Add u n db = (r, db')"
  shows "unread_rows db' = (unread_rows db)(u := Suc (unread_rows db u)) \<or> (\<exists>e. r = Inl e) \<and> unread_rows db' = unread_rows db"
  using assms unfolding inbox_Add_def Let_def
  by (rule stmt_rule) (auto simp: unread_rows_def unread_row_def fun_eq_iff)

definition mark_row :: "time \<Rightarrow> int \<Rightarrow> inbox_row \<Rightarrow> inbox_row" where
  "mark_row t u r = (if unread_row u r then r\<lparr>ir_read_at := Some t\<rparr> else r)"

lemma unread_after_mark: "unread_row v (mark_row t u r) \<longleftrightarrow> v \<noteq> u \<and> unread_row v r"
  by (auto simp: mark_row_def unread_row_def)

lemma unread_rows_marked:
  "unread_rows (db\<lparr>pg_rows := map (mark_row t u) (pg_rows db)\<rparr>) = (unread_rows db)(u := 0)"
  by (simp add: unread_rows_def fun_eq_iff filter_map comp_def unread_after_mark)

lemma inbox_MarkAllRead_result:
  assumes "inbox_MarkAllRead u db = (r, db')"
  shows "unread_rows db' = (unread_rows db)(u := 0) \<or> (\<exists>e. r = Inl e) \<and> unread_rows db' = unread_rows db"
  using assms unfolding inbox_MarkAllRead_def mark_row_def [symmetric]
  by (rule stmt_rule) (auto simp only: unread_rows_marked unread_script prod.inject)

lemma inbox_Add_up: "healthy db \<Longrightarrow> \<exists>db'. inbox_Add u n db = (Inr (), db') \<and> healthy db'"
  by (simp add: inbox_Add_def stmt_healthy Let_def)

interpretation pinbox: inbox PGInbox unread_rows healthy
proof (unfold_locales, goal_cases)
  case (1 u n s s')
  then show ?case using inbox_Add_result [of u n s "Inr ()" s'] by (simp add: PGInbox_def)
next
  case (2 u n s e s')
  then show ?case using inbox_Add_result [of u n s "Inl e" s'] by (auto simp: PGInbox_def)
next
  case (3 s u n)
  then show ?case using inbox_Add_up [of s u n] by (auto simp: PGInbox_def)
next
  case (4 u limit s r s')
  then show ?case by (auto simp: PGInbox_def inbox_List_def Let_def elim!: stmt_cases)
next
  case (5 u s r' s')
  then show ?case by (auto simp: PGInbox_def inbox_UnreadCount_def elim!: stmt_cases)
next
  case (6 u s k s')
  then show ?case by (auto simp: PGInbox_def inbox_UnreadCount_def unread_rows_def elim!: stmt_cases)
next
  case (7 u s s')
  then show ?case using inbox_MarkAllRead_result [of u s "Inr ()" s'] by (simp add: PGInbox_def)
qed

section \<open>Properties\<close>

text \<open>
  A notification sent through a fan-out with the Postgres inbox among its sinks, when the other
  channels leave the inbox table alone (whatever errors they return) and the database answers,
  is reported as delivered and raises the unread count of its recipient by exactly one and nobody
  else's; a notification about the recipient's own action raises no count.
\<close>

theorem notification_reaches_inbox_once:
  assumes "list_all (leaves_alone unread_rows healthy) (before @ after)" and "healthy db"
    and "Deliver (NewFanout (before @ [InboxSink PGInbox] @ after)) u n db = (r, db')"
  shows "r = Inr () \<and> unread_rows db' =
     (if n_ActorID n \<noteq> 0 \<and> n_ActorID n = u then unread_rows db else (unread_rows db)(u := Suc (unread_rows db u)))"
proof
  show "r = Inr ()" using assms(3) by (auto simp: Deliver_def split: if_splits)
  show "unread_rows db' = (if n_ActorID n \<noteq> 0 \<and> n_ActorID n = u then unread_rows db
      else (unread_rows db)(u := Suc (unread_rows db u)))"
    by (rule pinbox.delivered_once [OF assms])
qed

definition mention :: notification where
  "mention = \<lparr>n_Kind = ''mention'', n_Title = ''hi'', n_Body = [], n_Link = ''/x'', n_ActorID = 2, n_ActorName = ''bob''\<rparr>"

definition no_mail :: "'w sink" where
  "no_mail u n w = (Inl (Foreign ''mail: connection refused''), w)"

theorem notification_reaches_inbox_once_witness:
  "case Deliver (NewFanout ([no_mail] @ [InboxSink PGInbox] @ [LogSink (\<lambda>u n w. w)])) 7 mention (pg_table [] 1 0) of
     (r, db') \<Rightarrow> r = Inr () \<and> unread_rows db' = (unread_rows (pg_table [] 1 0))(7 := 1)"
proof -
  obtain r db' where run: "Deliver (NewFanout ([no_mail] @ [InboxSink PGInbox] @ [LogSink (\<lambda>u n w. w)])) 7 mention
      (pg_table [] 1 0) = (r, db')" by fastforce
  have "r = Inr () \<and> unread_rows db' = (if n_ActorID mention \<noteq> 0 \<and> n_ActorID mention = 7 then unread_rows (pg_table [] 1 0)
      else (unread_rows (pg_table [] 1 0))(7 := Suc (unread_rows (pg_table [] 1 0) 7)))"
    by (rule notification_reaches_inbox_once [OF _ _ run]) (simp_all add: leaves_alone_def no_mail_def LogSink_def)
  then show ?thesis unfolding run by (simp add: mention_def unread_rows_def pg_table_def)
qed

end
