(* ===== verification/Loginlog.thy ===== *)
theory Loginlog
  imports Views Users GoCrypto
begin

text \<open>
  loginlog/: the audit of login attempts (loginlog.go), its Postgres store (pgstore.go) and the two
  history pages. An attempt looks the typed name up in one store and writes to another, so both act
  on one world; \<open>on_fst\<close> and \<open>on_snd\<close> let the operations of a store act on its half of a pair.
\<close>

section \<open>Attempts\<close>

record log_entry =
  le_ID :: int
  le_UserID :: int
  le_Username :: string
  le_IPHash :: string
  le_Success :: bool
  le_CreatedAt :: time

record 's log_ops =
  lg_Record :: "log_entry \<Rightarrow> ('s, unit) call"
  lg_Recent :: "int \<Rightarrow> int \<Rightarrow> ('s, log_entry list) call"
  lg_RecentAll :: "int \<Rightarrow> ('s, log_entry list) call"

definition HashIP :: "string \<Rightarrow> string \<Rightarrow> string" where
  "HashIP salt ip = (if ip = [] then [] else hex_encode (sha256 (salt @ ''|'' @ ip)))"

definition attempt_entry :: "string \<Rightarrow> string \<Rightarrow> string \<Rightarrow> bool \<Rightarrow> int \<Rightarrow> log_entry" where
  "attempt_entry salt ip username success userID =
     \<lparr>le_ID = 0, le_UserID = userID, le_Username = username, le_IPHash = HashIP salt ip, le_Success = success, le_CreatedAt = 0\<rparr>"

definition Attempt ::
    "'w log_ops \<Rightarrow> (string \<Rightarrow> ('w, int) call) option \<Rightarrow> string \<Rightarrow> string \<Rightarrow> string \<Rightarrow> int \<Rightarrow> bool \<Rightarrow> ('w, unit) call" where
  "Attempt store resolver salt ip username userID success w =
     (case resolver of
        Some f \<Rightarrow>
          if userID = 0
          then (case f username w of
                  (Inr i, w) \<Rightarrow> lg_Record store (attempt_entry salt ip username success i) w
                | (Inl err, w) \<Rightarrow> lg_Record store (attempt_entry salt ip username success userID) w)
          else lg_Record store (attempt_entry salt ip username success userID) w
      | None \<Rightarrow> lg_Record store (attempt_entry salt ip username success userID) w)"

section \<open>The Postgres store\<close>

type_synonym log_db = "log_entry pg"

definition log_Record :: "log_entry \<Rightarrow> (log_db, unit) call" where
  "log_Record e = stmt (\<lambda>db.
     (Inr (), db\<lparr>pg_rows := pg_rows db @ [e\<lparr>le_ID := pg_next db, le_CreatedAt := pg_now db\<rparr>], pg_next := pg_next db + 1\<rparr>))"

text \<open>ORDER BY created_at DESC LIMIT n.\<close>

definition newest :: "int \<Rightarrow> log_entry list \<Rightarrow> log_entry list" where
  "newest limit es = take (nat limit) (sort_key (\<lambda>e. - le_CreatedAt e) es)"

definition log_Recent :: "int \<Rightarrow> int \<Rightarrow> (log_db, log_entry list) call" where
  "log_Recent userID limit =
     (let limit = (if limit \<le> 0 \<or> limit > 500 then 50 else limit)
      in stmt (\<lambda>db. (Inr (newest limit (filter (\<lambda>e. le_UserID e = userID) (pg_scan db))), db)))"

definition log_RecentAll :: "int \<Rightarrow> (log_db, log_entry list) call" where
  "log_RecentAll limit =
     (let limit = (if limit \<le> 0 \<or> limit > 1000 then 200 else limit)
      in stmt (\<lambda>db. (Inr (newest limit (pg_scan db)), db)))"

definition PGLog :: "log_db log_ops" where
  "PGLog = \<lparr>lg_Record = log_Record, lg_Recent = log_Recent, lg_RecentAll = log_RecentAll\<rparr>"

section \<open>The history pages\<close>

record log_row =
  lr_When :: string
  lr_User :: string
  lr_UserID :: int
  lr_IPShort :: string
  lr_Success :: bool

record 's log_handler =
  lh_store :: "'s log_ops"
  lh_current :: current_func
  lh_tmpl :: "string \<Rightarrow> log_row list \<Rightarrow> gerr + string"
  lh_zone :: "time \<Rightarrow> int"

definition toRow :: "(time \<Rightarrow> int) \<Rightarrow> log_entry \<Rightarrow> log_row" where
  "toRow zone e =
     (let ip = (if length (le_IPHash e) > 12 then take 12 (le_IPHash e) else le_IPHash e)
      in \<lparr>lr_When = format_second zone (le_CreatedAt e), lr_User = le_Username e, lr_UserID = le_UserID e,
          lr_IPShort = ip, lr_Success = le_Success e\<rparr>)"

definition toRows :: "(time \<Rightarrow> int) \<Rightarrow> log_entry list \<Rightarrow> log_row list" where
  "toRows zone es = map (toRow zone) es"

definition log_renderAdmin :: "'s log_handler \<Rightarrow> 's page" where
  "log_renderAdmin h c s =
     (case lg_RecentAll (lh_store h) 200 s of
        (Inl err, s) \<Rightarrow> (Inl err, c, s)
      | (Inr es, s) \<Rightarrow> (lh_tmpl h ''admin.html'' (toRows (lh_zone h) es), c, s))"

definition log_renderUser :: "'s log_handler \<Rightarrow> 's page" where
  "log_renderUser h = with_user (lh_current h) (page_text (Inr []))
     (\<lambda>u c s.
        case lg_Recent (lh_store h) (cu_ID u) 50 s of
          (Inl err, s) \<Rightarrow> (Inl err, c, s)
        | (Inr es, s) \<Rightarrow> (lh_tmpl h ''user.html'' (toRows (lh_zone h) es), c, s))"

definition log_Views :: "gerr option \<Rightarrow> 's log_handler \<Rightarrow> gerr + 's view list" where
  "log_Views parse_err h =
     (case parse_err of
        Some err \<Rightarrow> Inl err
      | None \<Rightarrow> Inr
          [\<lparr>v_Slug = ''login-log'', v_Title = ''Login log'', v_Slot = SlotAdminPage, v_MinRole = RoleUser, v_Public = False,
            v_Render = log_renderAdmin h, v_Actions = []\<rparr>,
           \<lparr>v_Slug = ''sign-ins'', v_Title = ''Sign-ins'', v_Slot = SlotSitePage, v_MinRole = RoleUser, v_Public = False,
            v_Render = log_renderUser h, v_Actions = []\<rparr>])"

section \<open>Two stores side by side\<close>

definition on_fst :: "('a, 'r) call \<Rightarrow> ('a \<times> 'b, 'r) call" where
  "on_fst f w = (case f (fst w) of (r, a) \<Rightarrow> (r, (a, snd w)))"

definition on_snd :: "('b, 'r) call \<Rightarrow> ('a \<times> 'b, 'r) call" where
  "on_snd f w = (case f (snd w) of (r, b) \<Rightarrow> (r, (fst w, b)))"

definition second_log :: "'b log_ops \<Rightarrow> ('a \<times> 'b) log_ops" where
  "second_log S = \<lparr>lg_Record = (\<lambda>e. on_snd (lg_Record S e)), lg_Recent = (\<lambda>u n. on_snd (lg_Recent S u n)),
     lg_RecentAll = (\<lambda>n. on_snd (lg_RecentAll S n))\<rparr>"

section \<open>The contract of a login log\<close>

text \<open>
  \<open>entries s\<close> is what has been recorded. A failed write may have happened. A history shows entries of the
  user, and an entry with fewer than \<open>limit\<close> others of its time or later is in it.
\<close>

definition stamped :: "log_entry \<Rightarrow> log_entry \<Rightarrow> bool" where
  "stamped e x \<longleftrightarrow> (\<exists>i t. x = e\<lparr>le_ID := i, le_CreatedAt := t\<rparr>)"

definition as_recent :: "log_entry \<Rightarrow> log_entry list \<Rightarrow> log_entry list" where
  "as_recent e es = filter (\<lambda>x. le_CreatedAt e \<le> le_CreatedAt x) es"

locale login_log =
  fixes S :: "'s log_ops" and entries :: "'s \<Rightarrow> log_entry list"
  assumes Record_ok: "lg_Record S e s = (Inr (), s') \<Longrightarrow> \<exists>x. stamped e x \<and> entries s' = entries s @ [x]"
    and Record_err: "lg_Record S e s = (Inl err, s') \<Longrightarrow> entries s' = entries s \<or> (\<exists>x. stamped e x \<and> entries s' = entries s @ [x])"
    and Recent_state: "lg_Recent S u n s = (r, s') \<Longrightarrow> entries s' = entries s"
    and Recent_sound: "lg_Recent S u n s = (Inr es, s') \<Longrightarrow> set es \<subseteq> {e \<in> set (entries s). le_UserID e = u}"
    and Recent_shows: "lg_Recent S u n s = (Inr es, s') \<Longrightarrow> 0 < n \<Longrightarrow> n \<le> 500 \<Longrightarrow> e \<in> set (entries s) \<Longrightarrow> le_UserID e = u \<Longrightarrow>
      int (length (as_recent e (filter (\<lambda>x. le_UserID x = u) (entries s)))) \<le> n \<Longrightarrow> e \<in> set es"
    and RecentAll_state: "lg_RecentAll S n s = (r', s') \<Longrightarrow> entries s' = entries s"
begin

text \<open>
  An attempt is recorded as typed, with the hash of the address and the id that the resolver gave,
  and nothing else is recorded; a resolver only reads.
\<close>

definition reads_only :: "(string \<Rightarrow> ('s, int) call) \<Rightarrow> bool" where
  "reads_only f \<longleftrightarrow> (\<forall>n s. entries (snd (f n s)) = entries s)"

definition attributed :: "(string \<Rightarrow> ('s, int) call) option \<Rightarrow> string \<Rightarrow> int \<Rightarrow> 's \<Rightarrow> int" where
  "attributed resolver username u s =
     (case resolver of None \<Rightarrow> u | Some f \<Rightarrow> if u = 0 then (case fst (f username s) of Inr i \<Rightarrow> i | Inl e \<Rightarrow> 0) else u)"

lemma record_once:
  assumes "lg_Record S e s = (r, s')"
  shows "(\<exists>x. stamped e x \<and> entries s' = entries s @ [x]) \<or> entries s' = entries s \<and> r \<noteq> Inr ()"
  using assms Record_ok [of e s s'] Record_err [of e s _ s'] by (cases r) auto

lemma attempt_recorded:
  assumes "\<forall>f. resolver = Some f \<longrightarrow> reads_only f"
    and "Attempt S resolver salt ip username u success s = (r, s')"
  shows "(\<exists>x. stamped (attempt_entry salt ip username success (attributed resolver username u s)) x \<and> entries s' = entries s @ [x])
    \<or> entries s' = entries s \<and> r \<noteq> Inr ()"
proof (cases "resolver \<noteq> None \<and> u = 0")
  case False
  then have "lg_Record S (attempt_entry salt ip username success (attributed resolver username u s)) s = (r, s')"
    using assms(2) by (auto simp: Attempt_def attributed_def split: option.splits)
  then show ?thesis by (rule record_once)
next
  case True
  then obtain f where f: "resolver = Some f" "u = 0" by auto
  obtain q s1 where q: "f username s = (q, s1)" by fastforce
  have "entries s1 = entries s" using assms(1) f(1) q unfolding reads_only_def by (metis snd_conv)
  moreover have "lg_Record S (attempt_entry salt ip username success (attributed resolver username u s)) s1 = (r, s')"
    using assms(2) f q by (cases q) (auto simp: Attempt_def attributed_def)
  ultimately show ?thesis using record_once by metis
qed

text \<open>A history page shows a user's own entries only.\<close>

lemma own_history:
  assumes "lg_Recent S u n s = (Inr es, s')" "x \<in> set (toRows zone es)"
  shows "lr_UserID x = u \<and> (\<exists>e\<in>set (entries s). le_UserID e = u \<and> x = toRow zone e)"
  using Recent_sound [OF assms(1)] assms(2) by (auto simp: toRows_def toRow_def Let_def)

end

section \<open>The Postgres store keeps the contract\<close>

text \<open>An element with at most \<open>k\<close> elements of its key or below is among the first \<open>k\<close> of the sorted list.\<close>

lemma take_sort_key:
  fixes f :: "'a \<Rightarrow> 'k :: linorder"
  assumes "x \<in> set xs" "length (filter (\<lambda>y. f y \<le> f x) xs) \<le> k"
  shows "x \<in> set (take k (sort_key f xs))"
proof -
  define ys where "ys = sort_key f xs"
  have s: "sorted (map f ys)" and x: "x \<in> set ys" using assms(1) by (simp_all add: ys_def)
  obtain j where j: "j < length ys" "ys ! j = x" using x by (auto simp: in_set_conv_nth)
  have "f y \<le> f x" if "y \<in> set (take (Suc j) ys)" for y
  proof -
    from that obtain i where "i \<le> j" "y = ys ! i" by (auto simp: in_set_conv_nth less_Suc_eq_le)
    with s j show ?thesis using sorted_nth_mono [of "map f ys" i j] by simp
  qed
  then have "filter (\<lambda>y. f y \<le> f x) (take (Suc j) ys) = take (Suc j) ys" by (simp add: filter_id_conv)
  then have "Suc j \<le> length (filter (\<lambda>y. f y \<le> f x) ys)"
    using j(1) by (subst append_take_drop_id [of "Suc j" ys, symmetric]) (simp only: filter_append length_append, simp)
  also have "\<dots> = length (filter (\<lambda>y. f y \<le> f x) xs)"
    by (simp only: ys_def length_filter_conv_card [symmetric] filter_sort length_sort)
  finally have "j < k" using assms(2) by simp
  with j have "x \<in> set (take k ys)" by (auto simp: in_set_conv_nth)
  then show ?thesis by (simp add: ys_def)
qed

lemma newest_shows:
  assumes "e \<in> set es" "int (length (as_recent e es)) \<le> n"
  shows "e \<in> set (newest n es)"
  unfolding newest_def by (rule take_sort_key) (use assms in \<open>simp_all add: as_recent_def nat_le_iff\<close>)

lemma log_Record_rows:
  assumes "log_Record e db = (r, db')"
  shows "pg_rows db' = pg_rows db @ [e\<lparr>le_ID := pg_next db, le_CreatedAt := pg_now db\<rparr>]
    \<or> pg_rows db' = pg_rows db \<and> r \<noteq> Inr ()"
  using assms unfolding log_Record_def by (rule stmt_rule) auto

interpretation plog: login_log PGLog pg_rows
proof (unfold_locales, goal_cases)
  case (1 e s s')
  then show ?case using log_Record_rows [of e s "Inr ()" s'] by (auto simp: PGLog_def stamped_def)
next
  case (2 e s err s')
  then show ?case using log_Record_rows [of e s "Inl err" s'] by (auto simp: PGLog_def stamped_def)
next
  case (3 u n s r s')
  then show ?case by (auto simp: PGLog_def log_Recent_def Let_def elim!: stmt_cases)
next
  case (4 u n s es s')
  then show ?case
    by (auto simp: PGLog_def log_Recent_def newest_def Let_def elim!: stmt_cases dest!: in_set_takeD)
next
  case (5 u n s es s' e)
  have len: "length (as_recent e (filter P (pg_scan d))) = length (as_recent e (filter P (pg_rows d)))" for P and d :: log_db
    by (simp add: as_recent_def pg_scan_def filter_sort)
  from 5 obtain os where "es = newest n (filter (\<lambda>e. le_UserID e = u) (pg_scan (s\<lparr>pg_script := os\<rparr>)))"
    by (auto simp: PGLog_def log_Recent_def Let_def elim!: stmt_cases)
  moreover have "e \<in> set (newest n (filter (\<lambda>e. le_UserID e = u) (pg_scan (s\<lparr>pg_script := os\<rparr>))))"
    by (rule newest_shows) (use 5(4,5,6) in \<open>simp_all only: len\<close>, simp_all)
  ultimately show ?case by simp
next
  case (6 n s r' s')
  then show ?case by (auto simp: PGLog_def log_RecentAll_def Let_def elim!: stmt_cases)
qed

text \<open>The log beside a table of users keeps the contract, and looking a name up there only reads.\<close>

lemma on_snd_iff: "on_snd f w = (r, w') \<longleftrightarrow> f (snd w) = (r, snd w') \<and> fst w' = fst w"
  by (cases w; cases w') (auto simp: on_snd_def split: prod.splits)

lemma on_fst_iff: "on_fst f w = (r, w') \<longleftrightarrow> f (fst w) = (r, fst w') \<and> snd w' = snd w"
  by (cases w; cases w') (auto simp: on_fst_def split: prod.splits)

abbreviation (input) "beside \<equiv> second_log PGLog :: (users_db \<times> log_db) log_ops"

interpretation wlog: login_log beside "\<lambda>w. pg_rows (snd w)"
proof (unfold_locales, goal_cases)
  case (1 e s s')
  then show ?case using plog.Record_ok [of e "snd s" "snd s'"] by (simp add: second_log_def on_snd_iff)
next
  case (2 e s err s')
  then show ?case using plog.Record_err [of e "snd s" err "snd s'"] by (simp add: second_log_def on_snd_iff)
next
  case (3 u n s r s')
  then show ?case using plog.Recent_state [of u n "snd s" r "snd s'"] by (simp add: second_log_def on_snd_iff)
next
  case (4 u n s es s')
  then show ?case using plog.Recent_sound [of u n "snd s" es "snd s'"] by (simp add: second_log_def on_snd_iff)
next
  case (5 u n s es s' e)
  then show ?case using plog.Recent_shows [of u n "snd s" es "snd s'" e] by (simp add: second_log_def on_snd_iff)
next
  case (6 n s r' s')
  then show ?case using plog.RecentAll_state [of n "snd s" r' "snd s'"] by (simp add: second_log_def on_snd_iff)
qed

definition by_name :: "(string \<Rightarrow> string) \<Rightarrow> string \<Rightarrow> (users_db \<times> log_db, int) call" where
  "by_name lower n = on_fst (us_IDByName (PGStore lower) n)"

lemma by_name_reads: "wlog.reads_only (by_name lower)"
  by (simp add: wlog.reads_only_def by_name_def on_fst_def split: prod.split)

text \<open>What looking a name up returns, and what an attempt leaves of the users.\<close>

lemma IDByName_rows: "pg_rows (snd (IDByName lower n db)) = pg_rows db"
  using query_row_state(1) [of "\<lambda>u. lower (u_Username u) = lower n" db]
  by (auto simp: IDByName_def split: prod.splits sum.splits)

lemma by_name_found:
  assumes "fst (by_name lower n w) = Inr i"
  shows "\<exists>v\<in>set (pg_rows (fst w)). u_ID v = i \<and> lower (u_Username v) = lower n"
proof -
  from assms have "fst (IDByName lower n (fst w)) = Inr i"
    by (simp add: by_name_def on_fst_def PGStore_def split: prod.splits)
  moreover obtain q d where q: "query_row (\<lambda>u. lower (u_Username u) = lower n) (fst w) = (q, d)"
    by (rule prod.exhaust)
  ultimately obtain u where "q = Inr u" "i = u_ID u"
    by (cases q) (simp_all add: IDByName_def split: if_splits)
  with q query_row_result(1) [of "\<lambda>u. lower (u_Username u) = lower n" "fst w" u d] show ?thesis by auto
qed

lemma by_name_users: "pg_rows (fst (snd (by_name lower n w))) = pg_rows (fst w)"
  using IDByName_rows [of lower n "fst w"] by (simp add: by_name_def on_fst_def PGStore_def split_def)

lemma Record_users: "fst (snd (lg_Record beside e w)) = fst w"
  by (simp add: second_log_def on_snd_def split: prod.split)

lemma Attempt_users: "pg_rows (fst (snd (Attempt beside (Some (by_name lower)) salt ip username u success w))) = pg_rows (fst w)"
proof (cases "u = 0")
  case True
  obtain q w1 where q: "by_name lower username w = (q, w1)" by (rule prod.exhaust)
  then have "pg_rows (fst w1) = pg_rows (fst w)" using by_name_users [of lower username w] by simp
  then show ?thesis using q True by (simp add: Attempt_def Record_users split: sum.split)
qed (simp add: Attempt_def Record_users)

lemma HashIP_Nil [simp]: "HashIP salt [] = []"
  by (simp add: HashIP_def)

lemma HashIP_length: "length (HashIP salt ip) = (if ip = [] then 0 else 64)"
  by (simp add: HashIP_def)

section \<open>Properties\<close>

text \<open>
  C34. What an attempt leaves in the audit, with the Postgres stores, whatever the databases do: the
  users are as they were, and either nothing is recorded and an error is returned or exactly one
  entry is appended, with the name as typed, the outcome, the salted hash of the address (which has
  64 hex digits, or none for an unknown address) and a user id that is the caller's, or, when the
  caller has none, the id of a stored account with that name up to case, or 0.
\<close>

theorem attempt_is_audited:
  assumes "Attempt beside (Some (by_name lower)) salt ip username u success w = (r, w')"
  shows "pg_rows (fst w') = pg_rows (fst w) \<and>
    (pg_rows (snd w') = pg_rows (snd w) \<and> r \<noteq> Inr () \<or>
     (\<exists>x. pg_rows (snd w') = pg_rows (snd w) @ [x] \<and> le_Username x = username \<and> le_Success x = success
        \<and> le_IPHash x = HashIP salt ip \<and> length (le_IPHash x) = (if ip = [] then 0 else 64)
        \<and> (le_UserID x = u \<or> u = 0 \<and> (\<exists>v\<in>set (pg_rows (fst w)). u_ID v = le_UserID x \<and> lower (u_Username v) = lower username))))"
proof
  show "pg_rows (fst w') = pg_rows (fst w)"
    using Attempt_users [of lower salt ip username u success w] assms by simp
  let ?i = "wlog.attributed (Some (by_name lower)) username u w"
  have who: "?i = u \<or> u = 0 \<and> (\<exists>v\<in>set (pg_rows (fst w)). u_ID v = ?i \<and> lower (u_Username v) = lower username)"
    using by_name_found [of lower username w] by (auto simp: wlog.attributed_def split: sum.split)
  have "(\<exists>x. stamped (attempt_entry salt ip username success ?i) x \<and> pg_rows (snd w') = pg_rows (snd w) @ [x])
      \<or> pg_rows (snd w') = pg_rows (snd w) \<and> r \<noteq> Inr ()"
    by (rule wlog.attempt_recorded [OF _ assms]) (simp add: by_name_reads)
  with who show "pg_rows (snd w') = pg_rows (snd w) \<and> r \<noteq> Inr () \<or>
     (\<exists>x. pg_rows (snd w') = pg_rows (snd w) @ [x] \<and> le_Username x = username \<and> le_Success x = success
        \<and> le_IPHash x = HashIP salt ip \<and> length (le_IPHash x) = (if ip = [] then 0 else 64)
        \<and> (le_UserID x = u \<or> u = 0 \<and> (\<exists>v\<in>set (pg_rows (fst w)). u_ID v = le_UserID x \<and> lower (u_Username v) = lower username)))"
    by (elim disjE) (auto simp: stamped_def attempt_entry_def HashIP_length)
qed

definition ex_world :: "users_db \<times> log_db" where
  "ex_world = (pg_table [\<lparr>u_ID = 7, u_Username = ''bob'', u_Email = [], u_PasswordHash = [], u_Role = 0,
      u_EmailVerified = False, u_CreatedAt = 5\<rparr>] 8 9, pg_table [] 1 9)"

text \<open>A failed sign-in as bob, whose reply from the log is lost.\<close>

definition ex_outage :: "users_db \<times> log_db" where
  "ex_outage = (fst ex_world, (snd ex_world)\<lparr>pg_script := [Lost ''timeout'']\<rparr>)"

lemma ex_by_name:
  "snd w = l \<Longrightarrow> fst w = fst ex_world \<Longrightarrow> by_name (\<lambda>x. x) ''bob'' w = (Inr 7, w)"
  by (cases w) (simp add: by_name_def on_fst_def PGStore_def IDByName_def query_row_def stmt_def ex_world_def pg_table_def pg_scan_def)

theorem attempt_is_audited_witness:
  "\<exists>w' x. Attempt beside (Some (by_name (\<lambda>x. x))) ''salt'' ''10.0.0.1'' ''bob'' 0 False ex_outage = (Inl (Foreign ''timeout''), w')
     \<and> pg_rows (fst w') = pg_rows (fst ex_world) \<and> pg_rows (snd w') = [x] \<and> length (le_IPHash x) = 64 \<and> le_UserID x \<in> {0, 7}"
proof -
  obtain r w' where run: "Attempt beside (Some (by_name (\<lambda>x. x))) ''salt'' ''10.0.0.1'' ''bob'' 0 False ex_outage = (r, w')" by (rule prod.exhaust)
  then have "r = Inl (Foreign ''timeout'')" "pg_rows (snd w') \<noteq> []"
    by (auto simp: Attempt_def ex_by_name ex_outage_def second_log_def on_snd_def PGLog_def log_Record_def stmt_def Let_def
        ex_world_def pg_table_def)
  with attempt_is_audited [OF run] run show ?thesis
    by (auto simp: ex_outage_def ex_world_def pg_table_def)
qed

text \<open>
  A failed sign-in under the name of an account reaches its owner: when the databases answer, at most
  49 entries of the owner bear a time as late as the database's clock, and no other account's name is
  the same up to case, the owner's sign-ins page then shows a failed attempt with the name as typed
  and the first twelve digits of the hash of the address.
\<close>

theorem failed_login_reaches_owner:
  assumes "healthy udb" "healthy ldb"
    and "v \<in> set (pg_rows udb)" "lower (u_Username v) = lower username"
    and "\<forall>v'\<in>set (pg_rows udb). lower (u_Username v') = lower username \<longrightarrow> v' = v"
    and "length (filter (\<lambda>x. le_UserID x = u_ID v \<and> pg_now ldb \<le> le_CreatedAt x) (pg_rows ldb)) < 50"
    and "Attempt beside (Some (by_name lower)) salt ip username 0 False (udb, ldb) = (r, w')"
    and "lh_store h = PGLog" "lh_current h c = (Some me, True, c')" "cu_ID me = u_ID v"
  shows "r = Inr () \<and> (\<exists>rows s'. log_renderUser h c (snd w') = (lh_tmpl h ''user.html'' rows, c', s') \<and>
     (\<exists>x\<in>set rows. lr_User x = username \<and> lr_UserID x = u_ID v \<and> \<not> lr_Success x \<and> lr_IPShort x = take 12 (HashIP salt ip)))"
proof -
  have "find (\<lambda>u. lower (u_Username u) = lower username) (pg_scan udb) = Some v"
    by (rule find_scan_unique) (use assms(3,4,5) in blast)+
  then have "IDByName lower username udb = (Inr (u_ID v), next_stmt udb)"
    using assms(1) by (simp add: IDByName_def query_row_healthy)
  then have find: "by_name lower username (udb, ldb) = (Inr (u_ID v), (next_stmt udb, ldb))"
    by (simp add: by_name_def on_fst_def PGStore_def)
  let ?x = "(attempt_entry salt ip username False (u_ID v))\<lparr>le_ID := pg_next ldb, le_CreatedAt := pg_now ldb\<rparr>"
  let ?l = "(next_stmt ldb)\<lparr>pg_rows := pg_rows ldb @ [?x], pg_next := pg_next ldb + 1\<rparr>"
  have w': "r = Inr ()" "w' = (next_stmt udb, ?l)"
    using assms(7) find assms(2)
    by (simp_all add: Attempt_def second_log_def on_snd_def PGLog_def log_Record_def stmt_healthy)
  obtain es s' where es: "lg_Recent PGLog (u_ID v) 50 ?l = (Inr es, s')"
    using assms(2) by (simp add: PGLog_def log_Recent_def stmt_healthy)
  have "as_recent ?x (filter (\<lambda>x. le_UserID x = u_ID v) (pg_rows ?l))
      = filter (\<lambda>x. le_UserID x = u_ID v \<and> pg_now ldb \<le> le_CreatedAt x) (pg_rows ldb) @ [?x]"
    by (simp add: as_recent_def attempt_entry_def conj_commute)
  then have "?x \<in> set es"
    by (intro plog.Recent_shows [OF es]) (use assms(6) in \<open>simp_all add: attempt_entry_def\<close>)
  then have "toRow (lh_zone h) ?x \<in> set (toRows (lh_zone h) es)" by (simp add: toRows_def)
  moreover have "log_renderUser h c (snd w') = (lh_tmpl h ''user.html'' (toRows (lh_zone h) es), c', s')"
    using assms(8,9,10) es w' by (simp add: log_renderUser_def with_user_def)
  ultimately show ?thesis using w'(1) by (force simp: toRow_def attempt_entry_def)
qed

definition bob_page :: "log_db log_handler" where
  "bob_page = \<lparr>lh_store = PGLog, lh_current = (\<lambda>c. (Some \<lparr>cu_ID = 7, cu_Username = ''bob'', cu_Email = [], cu_Role = 0, cu_CreatedAt = 5\<rparr>, True, c)),
     lh_tmpl = (\<lambda>name rows. Inr (concat (map lr_User rows))), lh_zone = (\<lambda>_. 0)\<rparr>"

definition ex_request :: gctx where
  "ex_request = fresh_ctx \<lparr>s_vals = Map.empty, s_saved = Map.empty, s_fault = None\<rparr>"

theorem failed_login_reaches_owner_witness:
  "case Attempt beside (Some (by_name (\<lambda>x. x))) ''salt'' ''10.0.0.1'' ''bob'' 0 False ex_world of
     (r, w') \<Rightarrow> r = Inr () \<and> (\<exists>rows s'. log_renderUser bob_page (ex_request) (snd w') = (lh_tmpl bob_page ''user.html'' rows, ex_request, s')
       \<and> (\<exists>x\<in>set rows. lr_User x = ''bob'' \<and> \<not> lr_Success x \<and> lr_IPShort x = take 12 (HashIP ''salt'' ''10.0.0.1'')))"
proof -
  let ?c = "ex_request"
  obtain r w' where run: "Attempt beside (Some (by_name (\<lambda>x. x))) ''salt'' ''10.0.0.1'' ''bob'' 0 False ex_world = (r, w')"
    by (rule prod.exhaust)
  let ?v = "\<lparr>u_ID = 7, u_Username = ''bob'', u_Email = [], u_PasswordHash = [], u_Role = 0, u_EmailVerified = False, u_CreatedAt = 5\<rparr>"
  have w: "ex_world = (pg_table [?v] 8 9, pg_table [] 1 9)" by (simp add: ex_world_def)
  have v: "?v \<in> set (pg_rows (pg_table [?v] 8 9))" "\<forall>v'\<in>set (pg_rows (pg_table [?v] 8 9)). u_Username v' = ''bob'' \<longrightarrow> v' = ?v"
    by (simp_all add: pg_table_def)
  from failed_login_reaches_owner [of "pg_table [?v] 8 9" "pg_table [] 1 9" ?v "\<lambda>x. x" "''bob''" "''salt''" "''10.0.0.1''" r w' bob_page ?c _ ?c]
    run w v have "r = Inr () \<and> (\<exists>rows s'. log_renderUser bob_page ?c (snd w') = (lh_tmpl bob_page ''user.html'' rows, ?c, s') \<and>
     (\<exists>x\<in>set rows. lr_User x = ''bob'' \<and> lr_UserID x = u_ID ?v \<and> \<not> lr_Success x \<and> lr_IPShort x = take 12 (HashIP ''salt'' ''10.0.0.1'')))"
    by (simp add: pg_table_def bob_page_def healthy_def)
  then show ?thesis unfolding run prod.case by blast
qed

end
