(* ===== verification/Account.thy ===== *)
theory Account
  imports Views Authflow
begin

text \<open>
  account/account.go: the self-service page of the signed-in user, its profile summary and the
  change-password form over the account flows. The bcrypt functions and the salt that a request draws
  are arguments, as in the flows.
\<close>

section \<open>The page\<close>

definition account_roleName :: "role \<Rightarrow> string" where
  "account_roleName r =
     (if r = RoleBanned then ''Banned''
      else if r = RoleDisabled then ''Disabled''
      else if r = RoleContributor then ''Contributor''
      else if r = RoleMod then ''Mod''
      else if r = RoleAdmin then ''Admin''
      else ''User'')"

record account_page =
  ap_User :: core_user
  ap_RoleName :: string
  ap_Joined :: string
  ap_Msg :: string
  ap_Err :: string
  ap_CSRFToken :: string

record 's account_handler =
  ah_flow :: "'s flow"
  ah_current :: current_func
  ah_tmpl :: "account_page \<Rightarrow> gerr + string"
  ah_csrf :: "gctx \<Rightarrow> string"
  ah_zone :: "time \<Rightarrow> int"

definition account_view :: "'s account_handler \<Rightarrow> core_user \<Rightarrow> string \<Rightarrow> string \<Rightarrow> string \<Rightarrow> gerr + string" where
  "account_view h u msg errMsg csrf =
     ah_tmpl h \<lparr>ap_User = u, ap_RoleName = account_roleName (cu_Role u), ap_Joined = format_date (ah_zone h) (cu_CreatedAt u),
       ap_Msg = msg, ap_Err = errMsg, ap_CSRFToken = csrf\<rparr>"

definition account_render :: "'s account_handler \<Rightarrow> 's page" where
  "account_render h = with_user (ah_current h) (page_text (Inr []))
     (\<lambda>u c s. (account_view h u (g_query c ''msg'') (g_query c ''err'') (ah_csrf h c), c, s))"

definition account_redirect :: "string \<Rightarrow> string \<Rightarrow> 's page" where
  "account_redirect key val = redirect_to ''/p/account'' key val"

definition changeErr :: "gerr \<Rightarrow> string" where
  "changeErr err =
     (if errors_Is err (Sentinel Authflow_ErrBadCredentials) then ''current password is incorrect''
      else if errors_Is err (Sentinel Authflow_ErrWeakPassword) then ''new password must be at least 8 characters''
      else ''could not change password'')"

definition changePassword :: "bcrypt \<Rightarrow> bytes \<Rightarrow> 's account_handler \<Rightarrow> 's page" where
  "changePassword B salt h = with_user (ah_current h) (account_redirect ''err'' ''not signed in'')
     (\<lambda>u c s.
        let cur = g_form c ''current_password''; nw = g_form c ''new_password''
        in if nw \<noteq> g_form c ''confirm_password'' then account_redirect ''err'' ''new passwords do not match'' c s
           else case ChangePassword B salt (ah_flow h) (cu_ID u) cur nw s of
                  (Inl err, s) \<Rightarrow> account_redirect ''err'' (changeErr err) c s
                | (Inr _, s) \<Rightarrow> account_redirect ''msg'' ''password changed'' c s)"

definition account_Views :: "gerr option \<Rightarrow> bcrypt \<Rightarrow> bytes \<Rightarrow> 's account_handler \<Rightarrow> gerr + 's view list" where
  "account_Views parse_err B salt h =
     (case parse_err of
        Some err \<Rightarrow> Inl err
      | None \<Rightarrow> Inr [\<lparr>v_Slug = ''account'', v_Title = ''Account'', v_Slot = SlotSitePage, v_MinRole = RoleUser, v_Public = False,
          v_Render = account_render h, v_Actions = [(''change-password'', changePassword B salt h)]\<rparr>])"

section \<open>What the form does\<close>

lemma account_redirect_ok: "account_redirect ''msg'' ''password changed'' c s = (Inr [], call (CRedirect 303 ''/p/account?msg=password+changed'') c, s)"
proof -
  have "QueryEscape ''password changed'' = ''password+changed''" by code_simp
  then show ?thesis by (simp add: account_redirect_def redirect_to_def)
qed

lemma account_redirect_err:
  "\<exists>url. account_redirect ''err'' val c s = (Inr [], call (CRedirect 303 url) c, s) \<and> url \<noteq> ''/p/account?msg=password+changed''"
  by (intro exI [of _ "''/p/account?err='' @ QueryEscape val"]) (simp add: account_redirect_def redirect_to_def)

text \<open>A request of a signed-in user ends as a refusal that writes nothing, or as the flow's answer.\<close>

lemma changePassword_runs:
  assumes "changePassword B salt h c s = (r, c', s')" "ah_current h c = (Some me, True, c1)"
  obtains url q where "r = Inr []" "c' = call (CRedirect 303 url) c1"
    "url = ''/p/account?msg=password+changed'' \<longleftrightarrow> q = Inr ()"
    "s' = s \<and> q \<noteq> Inr () \<or> g_form c1 ''new_password'' = g_form c1 ''confirm_password'' \<and>
      ChangePassword B salt (ah_flow h) (cu_ID me) (g_form c1 ''current_password'') (g_form c1 ''new_password'') s = (q, s')"
proof (cases "g_form c1 ''new_password'' = g_form c1 ''confirm_password''")
  case False
  obtain url where url: "account_redirect ''err'' ''new passwords do not match'' c1 s = (Inr [], call (CRedirect 303 url) c1, s)"
    "url \<noteq> ''/p/account?msg=password+changed''"
    using account_redirect_err [of "''new passwords do not match''" c1 s] by (elim exE conjE) (rule that)
  have "(r, c', s') = (Inr [], call (CRedirect 303 url) c1, s)"
    unfolding assms(1) [symmetric] url(1) [symmetric] using False assms(2)
    by (simp only: changePassword_def with_user_def Let_def prod.case option.case not_True_eq_False not_False_eq_True if_False if_True)
  then show ?thesis using url(2) by (intro that [of url "Inl (Foreign [])"]) simp_all
next
  case True
  obtain q s1 where q: "ChangePassword B salt (ah_flow h) (cu_ID me) (g_form c1 ''current_password'')
      (g_form c1 ''new_password'') s = (q, s1)" by (rule prod.exhaust)
  have "\<exists>url. (r, c', s') = (Inr [], call (CRedirect 303 url) c1, s1) \<and> (url = ''/p/account?msg=password+changed'' \<longleftrightarrow> q = Inr ())"
  proof (cases q)
    case (Inl e)
    have "(r, c', s') = account_redirect ''err'' (changeErr e) c1 s1"
      unfolding assms(1) [symmetric] using True assms(2) q Inl
      by (simp only: changePassword_def with_user_def Let_def prod.case option.case sum.case not_True_eq_False if_False simp_thms)
    moreover obtain url where "account_redirect ''err'' (changeErr e) c1 s1 = (Inr [], call (CRedirect 303 url) c1, s1)"
      "url \<noteq> ''/p/account?msg=password+changed''" using account_redirect_err [of "changeErr e" c1 s1] by (elim exE conjE) (rule that)
    ultimately show ?thesis using Inl by (intro exI [of _ url]) simp
  next
    case (Inr x)
    have "(r, c', s') = account_redirect ''msg'' ''password changed'' c1 s1"
      unfolding assms(1) [symmetric] using True assms(2) q Inr
      by (simp only: changePassword_def with_user_def Let_def prod.case option.case sum.case not_True_eq_False if_False simp_thms)
    then show ?thesis unfolding account_redirect_ok using Inr by (intro exI [of _ "''/p/account?msg=password+changed''"]) simp
  qed
  then obtain url where "(r, c', s') = (Inr [], call (CRedirect 303 url) c1, s1)" "url = ''/p/account?msg=password+changed'' \<longleftrightarrow> q = Inr ()"
    by (elim exE conjE) (rule that)
  then show ?thesis using True q by (intro that [of url q]) simp_all
qed

text \<open>What the flow's answer means on the Postgres store.\<close>

lemma pg_changed:
  assumes "users_inv db" "f_Users f = PGStore lower" "bcrypt_sound B" "ChangePassword B salt f uid cur nw db = (r, db')"
  shows "users_inv db' \<and> (\<forall>i. i \<noteq> uid \<longrightarrow> users_tbl db' i = users_tbl db i) \<and>
    (users_tbl db' \<noteq> users_tbl db \<or> r = Inr () \<longrightarrow> minLen f \<le> int (length nw) \<and>
      (\<exists>u hash. users_tbl db uid = Some u \<and> fst (Verify B (f_Hasher f) (u_PasswordHash u) cur)
        \<and> Verify B (f_Hasher f) hash nw = (True, False) \<and> users_tbl db' = (users_tbl db)(uid \<mapsto> u\<lparr>u_PasswordHash := hash\<rparr>)))"
proof -
  note C = pg_users.ChangePassword_result [OF assms(1,2,4)] and H = Hash_Verify [OF assms(3)]
  show ?thesis
  proof (cases r)
    case (Inl e)
    with C(1) C(3) [OF Inl] H show ?thesis by fastforce
  next
    case (Inr x)
    with C H show ?thesis by fastforce
  qed
qed

section \<open>Properties\<close>

text \<open>
  C12. The change-password form of the account page, over the Postgres store and whatever the database
  does: it answers with a redirect; no other account changes; and the stored hash changes, or the user is
  told "password changed", only if the new password was typed the same twice and is long enough and the
  current password of the signed-in user was right, and then the new hash accepts the new password.
\<close>

theorem account_form_changes_own_password:
  assumes "users_inv db" "f_Users (ah_flow h) = PGStore lower" "bcrypt_sound B" "ah_current h c = (Some me, True, c1)"
    and run: "changePassword B salt h c db = (r, c', db')"
  shows "r = Inr [] \<and> users_inv db' \<and> (\<exists>url. c' = call (CRedirect 303 url) c1) \<and>
    (\<forall>i. i \<noteq> cu_ID me \<longrightarrow> users_tbl db' i = users_tbl db i) \<and>
    (users_tbl db' \<noteq> users_tbl db \<or> c' = call (CRedirect 303 ''/p/account?msg=password+changed'') c1 \<longrightarrow>
      g_form c1 ''new_password'' = g_form c1 ''confirm_password'' \<and> minLen (ah_flow h) \<le> int (length (g_form c1 ''new_password'')) \<and>
      (\<exists>u hash. users_tbl db (cu_ID me) = Some u
        \<and> fst (Verify B (f_Hasher (ah_flow h)) (u_PasswordHash u) (g_form c1 ''current_password''))
        \<and> Verify B (f_Hasher (ah_flow h)) hash (g_form c1 ''new_password'') = (True, False)
        \<and> users_tbl db' = (users_tbl db)(cu_ID me \<mapsto> u\<lparr>u_PasswordHash := hash\<rparr>)))"
proof -
  obtain url q where c: "r = Inr []" "c' = call (CRedirect 303 url) c1" "url = ''/p/account?msg=password+changed'' \<longleftrightarrow> q = Inr ()"
    and q: "db' = db \<and> q \<noteq> Inr () \<or> g_form c1 ''new_password'' = g_form c1 ''confirm_password'' \<and>
      ChangePassword B salt (ah_flow h) (cu_ID me) (g_form c1 ''current_password'') (g_form c1 ''new_password'') db = (q, db')"
    by (rule changePassword_runs [OF run assms(4)])
  from q show ?thesis
  proof (elim disjE conjE)
    assume "db' = db" "q \<noteq> Inr ()"
    then show ?thesis using c assms(1) by simp
  next
    assume m: "g_form c1 ''new_password'' = g_form c1 ''confirm_password''"
      and run: "ChangePassword B salt (ah_flow h) (cu_ID me) (g_form c1 ''current_password'') (g_form c1 ''new_password'') db = (q, db')"
    from pg_changed [OF assms(1-3) run] c show ?thesis unfolding m [symmetric] by auto
  qed
qed

definition ex_account :: "users_db account_handler" where
  "ex_account = \<lparr>ah_flow = ex_flow, ah_current = (\<lambda>c. (ToCore (Some (ex_row 1 ''bob'' ''b@x'' ''secret12'')), True, c)),
     ah_tmpl = (\<lambda>p. Inr (ap_Joined p)), ah_csrf = (\<lambda>_. ''t''), ah_zone = (\<lambda>_. 0)\<rparr>"

definition ex_form :: "string \<Rightarrow> string \<Rightarrow> string \<Rightarrow> gctx" where
  "ex_form cur nw confirm = (fresh_ctx \<lparr>s_vals = Map.empty, s_saved = Map.empty, s_fault = None\<rparr>)\<lparr>g_form :=
     (\<lambda>_. [])(''current_password'' := cur, ''new_password'' := nw, ''confirm_password'' := confirm)\<rparr>"

theorem account_form_changes_own_password_witness:
  "case changePassword plain_bcrypt [] ex_account (ex_form ''secret12'' ''better-one'' ''better-one'') ex_users of
     (r, c', db') \<Rightarrow> r = Inr [] \<and> users_inv db' \<and> g_log c' = [CRedirect 303 ''/p/account?msg=password+changed'']
       \<and> (\<exists>hash. Verify plain_bcrypt (f_Hasher ex_flow) hash ''better-one'' = (True, False)
           \<and> users_tbl db' 1 = Some (ex_row 1 ''bob'' ''b@x'' hash)) \<and> users_tbl db' 2 = users_tbl ex_users 2"
proof -
  let ?c = "ex_form ''secret12'' ''better-one'' ''better-one''"
  obtain r c' db' where run: "changePassword plain_bcrypt [] ex_account ?c ex_users = (r, c', db')"
    by (rule prod_cases3)
  have me: "ah_current ex_account ?c = (Some \<lparr>cu_ID = 1, cu_Username = ''bob'', cu_Email = ''b@x'', cu_Role = RoleUser, cu_CreatedAt = 5\<rparr>, True, ?c)"
    by (simp add: ex_account_def ex_row_def)
  have c: "ChangePassword plain_bcrypt [] ex_flow 1 ''secret12'' ''better-one'' ex_users =
      (Inr (), pg_table [ex_row 1 ''bob'' ''b@x'' ''better-one'', ex_row 2 ''eve'' [] ''password''] 3 9)"
    by (simp add: ChangePassword_def ex_flow_fields PGStore_def ByID_def UpdatePasswordHash_def
        query_row_healthy exec_update_healthy)
      (simp add: ex_users_def pg_table_def pg_scan_def next_stmt_def ex_row_def ex_flow_Verify ex_flow_Hash
        PGStore_def UpdatePasswordHash_def exec_update_def stmt_def)
  have form: "g_form ?c ''new_password'' = ''better-one''" "g_form ?c ''current_password'' = ''secret12''"
    "g_form ?c ''confirm_password'' = ''better-one''" "g_log ?c = []" "ah_flow ex_account = ex_flow"
    by (simp_all add: ex_form_def fresh_ctx_def ex_account_def)
  have told: "c' = call (CRedirect 303 ''/p/account?msg=password+changed'') ?c"
    using run me c form by (auto simp: changePassword_def with_user_def account_redirect_ok Let_def)
  have f: "f_Users (ah_flow ex_account) = PGStore (\<lambda>x. x)" by (simp add: form ex_flow_fields)
  note T = account_form_changes_own_password [OF ex_users_inv(1) f plain_bcrypt_promises(1) me run, unfolded form told core_user.simps]
  from T obtain u hash where u: "users_tbl ex_users 1 = Some u" "Verify plain_bcrypt (f_Hasher ex_flow) hash ''better-one'' = (True, False)"
    "users_tbl db' = (users_tbl ex_users)(1 \<mapsto> u\<lparr>u_PasswordHash := hash\<rparr>)" by blast
  have "u = ex_row 1 ''bob'' ''b@x'' ''secret12''" using u(1) by (simp add: ex_users_def users_tbl_def pg_table_def ex_row_def)
  then have "users_tbl db' 1 = Some (ex_row 1 ''bob'' ''b@x'' hash)" "users_tbl db' 2 = users_tbl ex_users 2"
    using u(3) by (simp_all add: ex_row_def)
  moreover have "g_log c' = [CRedirect 303 ''/p/account?msg=password+changed'']" by (simp add: told form)
  ultimately show ?thesis unfolding run prod.case using T u(2) by blast
qed

end
