(* ===== verification/Adminusers.thy ===== *)
theory Adminusers
  imports Views Authflow
begin

text \<open>
  adminusers/adminusers.go: the user-management page of administrators over a user store: list users,
  set a role, reset a password. The host's gate lets only administrators reach it.
\<close>

section \<open>The page\<close>

record admin_row =
  ur_ID :: int
  ur_Username :: string
  ur_Email :: string
  ur_Role :: int
  ur_Joined :: string

record users_page =
  up_Users :: "admin_row list"
  up_Roles :: "(int \<times> string) list"
  up_Total :: int
  up_Msg :: string
  up_Err :: string
  up_CSRFToken :: string

record 's users_handler =
  uh_store :: "'s users_ops"
  uh_hasher :: hasher
  uh_tmpl :: "users_page \<Rightarrow> gerr + string"
  uh_csrf :: "gctx \<Rightarrow> string"
  uh_zone :: "time \<Rightarrow> int"

definition roleOpts :: "(int \<times> string) list" where
  "roleOpts = [(RoleBanned, ''Banned''), (RoleUser, ''User''), (RoleContributor, ''Contributor''), (RoleMod, ''Mod''), (RoleAdmin, ''Admin'')]"

definition userRow :: "(time \<Rightarrow> int) \<Rightarrow> user \<Rightarrow> admin_row" where
  "userRow zone u = \<lparr>ur_ID = u_ID u, ur_Username = u_Username u, ur_Email = u_Email u, ur_Role = u_Role u,
     ur_Joined = format_date zone (u_CreatedAt u)\<rparr>"

definition users_render :: "'s users_handler \<Rightarrow> 's page" where
  "users_render h c s =
     (case us_List (uh_store h) 0 200 s of
        (Inl err, s) \<Rightarrow> (Inl err, c, s)
      | (Inr (us, count), s) \<Rightarrow>
          (uh_tmpl h \<lparr>up_Users = map (userRow (uh_zone h)) us, up_Roles = roleOpts, up_Total = count,
             up_Msg = g_query c ''msg'', up_Err = g_query c ''err'', up_CSRFToken = uh_csrf h c\<rparr>, c, s))"

definition users_redirect :: "string \<Rightarrow> string \<Rightarrow> 's page" where
  "users_redirect key val = redirect_to ''/admin/p/users'' key val"

definition setRole :: "'s users_handler \<Rightarrow> 's page" where
  "setRole h c s =
     (let i = fst (ParseInt (g_form c ''user_id''))
      in case Atoi (g_form c ''role'') of
           (role, err) \<Rightarrow>
             if i \<le> 0 \<or> err \<noteq> None then users_redirect ''err'' ''bad request'' c s
             else case us_SetRole (uh_store h) i role s of
                    (Inl err, s) \<Rightarrow> users_redirect ''err'' (error_text err) c s
                  | (Inr _, s) \<Rightarrow> users_redirect ''msg'' ''role updated'' c s)"

definition resetPassword :: "bcrypt \<Rightarrow> bytes \<Rightarrow> 's users_handler \<Rightarrow> 's page" where
  "resetPassword B salt h c s =
     (let i = fst (ParseInt (g_form c ''user_id'')); pw = g_form c ''password''
      in if i \<le> 0 \<or> length pw < 8 then users_redirect ''err'' ''password must be at least 8 characters'' c s
         else case Hash B salt (uh_hasher h) pw of
                Inl err \<Rightarrow> users_redirect ''err'' (error_text err) c s
              | Inr hash \<Rightarrow>
                  (case us_UpdatePasswordHash (uh_store h) i hash s of
                     (Inl err, s) \<Rightarrow> users_redirect ''err'' (error_text err) c s
                   | (Inr _, s) \<Rightarrow> users_redirect ''msg'' ''password reset'' c s))"

definition users_Views :: "gerr option \<Rightarrow> bcrypt \<Rightarrow> bytes \<Rightarrow> 's users_handler \<Rightarrow> gerr + 's view list" where
  "users_Views parse_err B salt h =
     (case parse_err of
        Some err \<Rightarrow> Inl err
      | None \<Rightarrow> Inr [\<lparr>v_Slug = ''users'', v_Title = ''Users'', v_Slot = SlotAdminPage, v_MinRole = RoleUser, v_Public = False,
          v_Render = users_render h, v_Actions = [(''set-role'', setRole h), (''reset-password'', resetPassword B salt h)]\<rparr>])"

section \<open>What a reset does\<close>

lemma users_redirect_parts:
  "fst (users_redirect key val c s) = Inr []" "snd (snd (users_redirect key val c s)) = s"
  by (simp_all add: users_redirect_def redirect_to_def)

lemma setRole_state:
  "snd (snd (setRole h c s)) =
    (let i = fst (ParseInt (g_form c ''user_id''))
     in case Atoi (g_form c ''role'') of
          (role, err) \<Rightarrow> if i \<le> 0 \<or> err \<noteq> None then s else snd (us_SetRole (uh_store h) i role s))"
  by (simp add: setRole_def Let_def users_redirect_parts split: sum.split prod.split)

lemma resetPassword_state:
  "snd (snd (resetPassword B salt h c s)) =
    (let i = fst (ParseInt (g_form c ''user_id'')); pw = g_form c ''password''
     in if i \<le> 0 \<or> length pw < 8 then s
        else case Hash B salt (uh_hasher h) pw of
               Inl _ \<Rightarrow> s
             | Inr hash \<Rightarrow> snd (us_UpdatePasswordHash (uh_store h) i hash s))"
  by (simp add: resetPassword_def Let_def users_redirect_parts split: sum.split prod.split)

lemma reset_told: "users_redirect ''msg'' ''password reset'' c s = (Inr [], call (CRedirect 303 ''/admin/p/users?msg=password+reset'') c, s)"
proof -
  have "QueryEscape ''password reset'' = ''password+reset''" by code_simp
  then show ?thesis by (simp add: users_redirect_def redirect_to_def)
qed

definition reset_row :: "int \<Rightarrow> string \<Rightarrow> user \<Rightarrow> user" where
  "reset_row i hash u = (if u_ID u = i then u\<lparr>u_PasswordHash := hash\<rparr> else u)"

text \<open>After the reset of an account's hash, a name that only this account bears stands for its new row.\<close>

lemma reset_matches:
  assumes "u \<in> set (pg_rows db)" "u_ID u = i" "named lower n u" "\<forall>v\<in>set (pg_rows db). named lower n v \<longrightarrow> v = u"
    and rows: "pg_rows db' = map (reset_row i hash) (pg_rows db)"
  shows "login_matches lower n db' v \<longleftrightarrow> v = u\<lparr>u_PasswordHash := hash\<rparr>"
proof -
  have n: "named lower n (reset_row i hash w) = named lower n w" for w by (simp add: reset_row_def named_def)
  have u: "reset_row i hash u = u\<lparr>u_PasswordHash := hash\<rparr>" using assms(2) by (simp add: reset_row_def)
  have "v = u\<lparr>u_PasswordHash := hash\<rparr>" if "v \<in> set (pg_rows db')" "named lower n v"
  proof -
    from that rows obtain w where w: "w \<in> set (pg_rows db)" "v = reset_row i hash w" by auto
    with that n assms(4) have "w = u" by simp
    with w u show ?thesis by simp
  qed
  moreover have "u\<lparr>u_PasswordHash := hash\<rparr> \<in> set (pg_rows db')" using rows assms(1) u by force
  moreover have "named lower n (u\<lparr>u_PasswordHash := hash\<rparr>)" using n [of u] u assms(3) by simp
  ultimately show ?thesis by (auto simp: login_matches_def)
qed

lemma resetPassword_healthy:
  assumes "healthy db" "uh_store h = PGStore lower" "0 < fst (ParseInt (g_form c ''user_id''))" "8 \<le> length (g_form c ''password'')"
    and "Hash B salt (uh_hasher h) (g_form c ''password'') = Inr hash"
  shows "resetPassword B salt h c db = (Inr [], call (CRedirect 303 ''/admin/p/users?msg=password+reset'') c,
    (next_stmt db)\<lparr>pg_rows := map (reset_row (fst (ParseInt (g_form c ''user_id''))) hash) (pg_rows db)\<rparr>)"
  using assms
  by (simp add: resetPassword_def Let_def PGStore_def UpdatePasswordHash_def exec_update_healthy reset_told reset_row_def [abs_def])

section \<open>Properties\<close>

text \<open>
  An administrator's password reset, when the database answers: with a positive user id and a
  password of at least eight bytes that can be hashed, the page says "password reset" and only the
  rows of that id get the hash; then whoever signs in by a name that only this account bears gets
  that account with the new password, and is refused with a password whose peppered forms bcrypt
  tells apart from the new one.
\<close>

theorem admin_reset_then_login:
  assumes "healthy db" "uh_store h = PGStore lower" "0 < fst (ParseInt (g_form c ''user_id''))" "8 \<le> length (g_form c ''password'')"
    and "Hash B salt (uh_hasher h) (g_form c ''password'') = Inr hash" "bcrypt_sound B"
    and "resetPassword B salt h c db = (r, c', db')"
    and "f_Users f = PGStore lower" "f_Hasher f = uh_hasher h"
    and "u \<in> set (pg_rows db)" "u_ID u = fst (ParseInt (g_form c ''user_id''))" "named lower (TrimSpace ident) u"
    and "\<forall>v\<in>set (pg_rows db). named lower (TrimSpace ident) v \<longrightarrow> v = u"
    and "bcrypt_tight B (peppered (g_form c ''password'') (Pepper (f_Hasher f))) (peppered old (Pepper (f_Hasher f)))"
    and "bcrypt_tight B (peppered (g_form c ''password'') (Pepper (f_Hasher f))) (peppered old (PrevPepper (f_Hasher f)))"
  shows "r = Inr [] \<and> c' = call (CRedirect 303 ''/admin/p/users?msg=password+reset'') c \<and>
    pg_rows db' = map (\<lambda>v. if u_ID v = u_ID u then v\<lparr>u_PasswordHash := hash\<rparr> else v) (pg_rows db) \<and>
    fst (Authenticate B salt' f ident (g_form c ''password'') db') = Inr (u\<lparr>u_PasswordHash := hash\<rparr>) \<and>
    fst (Authenticate B salt' f ident old db') = Inl (Sentinel Authflow_ErrBadCredentials)"
proof -
  let ?i = "fst (ParseInt (g_form c ''user_id''))" and ?u = "u\<lparr>u_PasswordHash := hash\<rparr>"
  have run: "r = Inr []" "c' = call (CRedirect 303 ''/admin/p/users?msg=password+reset'') c"
    and db': "db' = (next_stmt db)\<lparr>pg_rows := map (reset_row ?i hash) (pg_rows db)\<rparr>"
    using resetPassword_healthy [OF assms(1-5)] assms(7) by simp_all
  have rows: "pg_rows db' = map (reset_row ?i hash) (pg_rows db)" and up: "healthy db'"
    using assms(1) by (simp_all add: db')
  have m: "login_matches lower (TrimSpace ident) db' v \<longleftrightarrow> v = ?u" for v
    by (rule reset_matches [OF assms(10-13) rows])
  have ok: "fst (Verify B (f_Hasher f) (u_PasswordHash ?u) (g_form c ''password''))"
    using Hash_Verify [OF assms(6,5)] assms(9) by simp
  have no: "\<not> fst (Verify B (f_Hasher f) (u_PasswordHash ?u) old)"
    using assms(5,9,14,15) by (auto simp: Verify_ok_iff Check_def Hash_def bcrypt_tight_def)
  have "fst (Authenticate B salt' f ident (g_form c ''password'') db') = Inr ?u"
    using Authenticate_fst [OF up assms(8), of ident B "g_form c ''password''" salt'] ok unfolding m by auto
  moreover have "fst (Authenticate B salt' f ident old db') = Inl (Sentinel Authflow_ErrBadCredentials)"
    using Authenticate_fst [OF up assms(8), of ident B old salt'] no unfolding m by auto
  moreover have "pg_rows db' = map (\<lambda>v. if u_ID v = u_ID u then v\<lparr>u_PasswordHash := hash\<rparr> else v) (pg_rows db)"
    using rows assms(11) by (simp add: reset_row_def [abs_def])
  ultimately show ?thesis using run by blast
qed

definition ex_admin :: "users_db users_handler" where
  "ex_admin = \<lparr>uh_store = PGStore (\<lambda>x. x), uh_hasher = f_Hasher ex_flow, uh_tmpl = (\<lambda>p. Inr (up_Msg p)), uh_csrf = (\<lambda>_. []), uh_zone = (\<lambda>_. 0)\<rparr>"

definition ex_reset :: gctx where
  "ex_reset = (fresh_ctx \<lparr>s_vals = Map.empty, s_saved = Map.empty, s_fault = None\<rparr>)\<lparr>g_form :=
     (\<lambda>_. [])(''user_id'' := ''1'', ''password'' := ''fresh-start'')\<rparr>"

theorem admin_reset_then_login_witness:
  "case resetPassword plain_bcrypt [] ex_admin ex_reset ex_users of (r, c', db') \<Rightarrow>
     g_log c' = [CRedirect 303 ''/admin/p/users?msg=password+reset''] \<and>
     fst (Authenticate plain_bcrypt [] ex_flow ''bob'' ''fresh-start'' db') = Inr (ex_row 1 ''bob'' ''b@x'' ''fresh-start'') \<and>
     fst (Authenticate plain_bcrypt [] ex_flow ''bob'' ''secret12'' db') = Inl (Sentinel Authflow_ErrBadCredentials)"
proof -
  obtain r c' db' where run: "resetPassword plain_bcrypt [] ex_admin ex_reset ex_users = (r, c', db')" by (rule prod_cases3)
  have form: "g_form ex_reset ''user_id'' = ''1''" "g_form ex_reset ''password'' = ''fresh-start''" "g_log ex_reset = []"
    by (simp_all add: ex_reset_def fresh_ctx_def)
  have id1: "fst (ParseInt ''1'') = 1" by code_simp
  have st: "uh_store ex_admin = PGStore (\<lambda>x. x)" "f_Hasher ex_flow = uh_hasher ex_admin" by (simp_all add: ex_admin_def)
  have hash: "Hash plain_bcrypt [] (uh_hasher ex_admin) ''fresh-start'' = Inr ''fresh-start''"
    using ex_flow_Hash [of "''fresh-start''" "[]"] by (simp add: st [symmetric])
  have u: "ex_row 1 ''bob'' ''b@x'' ''secret12'' \<in> set (pg_rows ex_users)"
    "named (\<lambda>x. x) (TrimSpace ''bob'') (ex_row 1 ''bob'' ''b@x'' ''secret12'')"
    "\<forall>v\<in>set (pg_rows ex_users). named (\<lambda>x. x) (TrimSpace ''bob'') v \<longrightarrow> v = ex_row 1 ''bob'' ''b@x'' ''secret12''"
    by (simp_all add: ex_users_def pg_table_def named_def ex_row_def)
  have "bcrypt_tight plain_bcrypt (peppered ''fresh-start'' (Pepper (f_Hasher ex_flow))) (peppered ''secret12'' (Pepper (f_Hasher ex_flow)))"
    "bcrypt_tight plain_bcrypt (peppered ''fresh-start'' (Pepper (f_Hasher ex_flow))) (peppered ''secret12'' (PrevPepper (f_Hasher ex_flow)))"
    by (simp_all add: ex_flow_fields peppered_def)
  from admin_reset_then_login [OF ex_users_inv(2) st(1), of ex_reset plain_bcrypt "[]" "''fresh-start''",
      unfolded form id1, OF _ _ hash plain_bcrypt_promises(1) run ex_users_inv(3) st(2) u(1) _ u(2,3) this]
  show ?thesis unfolding run by (simp add: form ex_row_def)
qed

end
