(* ===== verification/Profile.thy ===== *)
theory Profile
  imports Views
begin

text \<open>
  profile/profile.go: the public summary card of a profile page. The subject of the page comes from
  the core package (\<open>core.ViewSubject\<close>, a parameter), the user from the host's resolver.
\<close>

record profile_handler =
  ph_resolve :: "int \<Rightarrow> core_user option \<times> bool"
  ph_subject :: "gctx \<Rightarrow> int \<times> bool"
  ph_tmpl :: "string \<Rightarrow> string \<Rightarrow> gerr + string"
  ph_zone :: "time \<Rightarrow> int"

definition profile_roleName :: "role \<Rightarrow> string" where
  "profile_roleName r =
     (if r = RoleBanned then ''Banned''
      else if r = RoleContributor then ''Contributor''
      else if r = RoleMod then ''Mod''
      else if r = RoleAdmin then ''Admin''
      else ''User'')"

definition profile_render :: "profile_handler \<Rightarrow> 's page" where
  "profile_render h c s =
     (case ph_subject h c of
        (uid, ok) \<Rightarrow>
          if \<not> ok then (Inr [], c, s)
          else case ph_resolve h uid of
                 (Some u, True) \<Rightarrow> (ph_tmpl h (profile_roleName (cu_Role u)) (format_date (ph_zone h) (cu_CreatedAt u)), c, s)
               | _ \<Rightarrow> (Inr [], c, s))"

definition profile_Views :: "gerr option \<Rightarrow> profile_handler \<Rightarrow> gerr + 's view list" where
  "profile_Views parse_err h =
     (case parse_err of
        Some err \<Rightarrow> Inl err
      | None \<Rightarrow> Inr [\<lparr>v_Slug = ''summary'', v_Title = ''Profile'', v_Slot = SlotUserWidget, v_MinRole = RoleUser, v_Public = True,
          v_Render = profile_render h, v_Actions = []\<rparr>])"

text \<open>The card reads: it touches neither the request nor any store, and shows nothing of an unknown user.\<close>

lemma profile_render_reads:
  "\<exists>r. profile_render h c s = (r, c, s) \<and> (\<not> snd (ph_resolve h (fst (ph_subject h c))) \<longrightarrow> r = Inr [])"
  by (auto simp: profile_render_def split: prod.splits option.splits bool.splits)

text \<open>A disabled account is shown as a user, unlike on its own account page.\<close>

lemma profile_disabled_is_user: "profile_roleName RoleDisabled = ''User''"
  by (simp add: profile_roleName_def)

end
