(* ===== verification/Schema.thy ===== *)
theory Schema
  imports Users Account Loginlog "HOL-Library.AList" "HOL-Library.Multiset"
begin

text \<open>
  The \<open>Migrate\<close> functions of the nine Postgres stores. The database's catalogue is a table of named
  relations (tables, indexes and views share one name space); a DDL statement reads and writes it
  as Postgres documents: \<open>IF NOT EXISTS\<close> skips when the name is taken, \<open>ADD COLUMN IF NOT EXISTS\<close>
  when the column is there, \<open>CREATE OR REPLACE VIEW\<close> only appends output columns. Every statement
  goes through \<open>stmt\<close>, so that it may fail or lose its reply. The theorems show that the
  migrations converge: in any order, with any failures and repetitions, a deployment ends with the
  schema of a fresh one, in which the statements of every store (\<open>pkg_sql\<close>) find what they name.
\<close>

section \<open>The catalogue\<close>

datatype sql_type = Bigserial | Bigint | Integer | Smallint | Text | Boolean | Timestamptz

datatype sql_value = V_int int | V_text string | V_bool bool | V_time time

datatype sql_default = Default_value sql_value | Default_now

datatype column_constraint = Not_null | Default sql_default | Primary_key | Unique | Check_eq int

type_synonym column = "string \<times> sql_type \<times> column_constraint list"

datatype view_expr =
    Column string
  | Case_of string "(int \<times> string) list" string
  | Text_literal string
  | Smallint_literal int

datatype relation =
    Table "column list" "string list"
  | Index bool string "(string \<times> bool) list"
  | View "(string \<times> sql_type) list" "(string \<times> view_expr) list" string

type_synonym schema = "(string \<times> relation) list"

type_synonym catalogue = "(string \<times> relation) pg"

text \<open>A \<open>BIGSERIAL\<close> column is a \<open>BIGINT\<close> column to whoever reads it.\<close>

fun read_type :: "sql_type \<Rightarrow> sql_type" where
  "read_type Bigserial = Bigint"
| "read_type ty = ty"

fun outputs :: "relation \<Rightarrow> (string \<times> sql_type) list" where
  "outputs (Table cs key) = map (\<lambda>(n, ty, _). (n, read_type ty)) cs"
| "outputs (View os es from) = os"
| "outputs (Index u t cs) = []"

fun expr_column :: "view_expr \<Rightarrow> string list" where
  "expr_column (Column c) = [c]"
| "expr_column (Case_of c ws e) = [c]"
| "expr_column (Text_literal t) = []"
| "expr_column (Smallint_literal n) = []"

fun expr_type :: "(string \<times> sql_type) list \<Rightarrow> view_expr \<Rightarrow> sql_type" where
  "expr_type os (Column c) = the (map_of os c)"
| "expr_type os (Case_of c ws e) = Text"
| "expr_type os (Text_literal t) = Text"
| "expr_type os (Smallint_literal n) = Smallint"

definition view_outputs :: "relation \<Rightarrow> (string \<times> view_expr) list \<Rightarrow> (string \<times> sql_type) list" where
  "view_outputs r es = map (\<lambda>(n, e). (n, expr_type (outputs r) e)) es"

section \<open>Statements\<close>

datatype ddl =
    Create_table string "column list" "string list"
  | Add_column string column
  | Create_index bool string string "(string \<times> bool) list"
  | Replace_view string "(string \<times> view_expr) list" string

fun run_ddl :: "ddl \<Rightarrow> schema \<Rightarrow> string + schema" where
  "run_ddl (Create_table t cs key) s =
     Inr (if map_of s t = None then s @ [(t, Table cs key)] else s)"
| "run_ddl (Add_column t c) s =
     (case map_of s t of
        Some (Table cs key) \<Rightarrow>
          Inr (if fst c \<in> set (map fst cs) then s else AList.update t (Table (cs @ [c]) key) s)
      | Some _ \<Rightarrow> Inl ''relation is not a table''
      | None \<Rightarrow> Inl ''relation does not exist'')"
| "run_ddl (Create_index u n t ks) s =
     (case map_of s t of
        Some (Table cs key) \<Rightarrow>
          if list_all (\<lambda>k. fst k \<in> set (map fst cs)) ks
          then Inr (if map_of s n = None then s @ [(n, Index u t ks)] else s)
          else Inl ''column does not exist''
      | Some _ \<Rightarrow> Inl ''relation is not a table''
      | None \<Rightarrow> Inl ''relation does not exist'')"
| "run_ddl (Replace_view n es t) s =
     (case map_of s t of
        None \<Rightarrow> Inl ''relation does not exist''
      | Some r \<Rightarrow>
          if list_all (\<lambda>(_, e). list_all (\<lambda>c. c \<in> set (map fst (outputs r))) (expr_column e)) es
          then (case map_of s n of
                  None \<Rightarrow> Inr (s @ [(n, View (view_outputs r es) es t)])
                | Some (View os _ _) \<Rightarrow>
                    if take (length os) (view_outputs r es) = os
                    then Inr (AList.update n (View (view_outputs r es) es t) s)
                    else Inl ''cannot change or drop columns of a view''
                | Some _ \<Rightarrow> Inl ''relation is not a view'')
          else Inl ''column does not exist'')"

definition ExecContext :: "ddl \<Rightarrow> (catalogue, unit) call" where
  "ExecContext d = stmt (\<lambda>db. case run_ddl d (pg_rows db) of
     Inl e \<Rightarrow> (Inl (Foreign e), db) | Inr s \<Rightarrow> (Inr (), db\<lparr>pg_rows := s\<rparr>))"

section \<open>The migrations\<close>

abbreviation "default_text t \<equiv> Default (Default_value (V_text t))"
abbreviation "default_int n \<equiv> Default (Default_value (V_int n))"
abbreviation "default_bool b \<equiv> Default (Default_value (V_bool b))"

definition users_columns :: "column list" where
  "users_columns =
    [(''id'', Bigserial, [Primary_key]),
     (''username'', Text, [Not_null, Unique]),
     (''email'', Text, [Not_null, default_text []]),
     (''password_hash'', Text, [Not_null, default_text []]),
     (''role'', Integer, [Not_null, default_int 0]),
     (''email_verified'', Boolean, [Not_null, default_bool False]),
     (''created_at'', Timestamptz, [Not_null, Default Default_now])]"

definition user_display :: "(string \<times> view_expr) list" where
  "user_display =
    [(''id'', Column ''id''),
     (''username'', Column ''username''),
     (''role'', Case_of ''role''
        [(-2, ''banned''), (-1, ''disabled''), (1, ''contributor''), (2, ''mod''), (3, ''admin'')] ''user''),
     (''avatar_path'', Text_literal []),
     (''reputation_tier'', Smallint_literal 0)]"

definition create_users :: ddl where
  "create_users =
     Create_table ''users'' users_columns []"

definition add_email_verified :: ddl where
  "add_email_verified =
     Add_column ''users''
       (''email_verified'', Boolean, [Not_null, default_bool False])"

definition create_user_display :: ddl where
  "create_user_display =
     Replace_view ''user_display'' user_display ''users''"

definition users_Migrate :: "(catalogue, unit) call" where
  "users_Migrate db =
     (case ExecContext create_users db of
        (Inl err, db) \<Rightarrow> (Inl err, db)
      | (Inr _, db) \<Rightarrow>
          (case ExecContext add_email_verified db of
             (Inl err, db) \<Rightarrow> (Inl err, db)
           | (Inr _, db) \<Rightarrow> ExecContext create_user_display db))"

definition create_auth_tokens :: ddl where
  "create_auth_tokens =
     Create_table ''auth_tokens''
       [(''id'', Bigserial, [Primary_key]),
        (''user_id'', Bigint, [Not_null]),
        (''purpose'', Text, [Not_null]),
        (''token_hash'', Text, [Not_null]),
        (''expires_at'', Timestamptz, [Not_null]),
        (''used_at'', Timestamptz, []),
        (''created_at'', Timestamptz, [Not_null, Default Default_now])] []"

definition create_auth_tokens_hash :: ddl where
  "create_auth_tokens_hash =
     Create_index False ''auth_tokens_hash'' ''auth_tokens''
       [(''token_hash'', False), (''purpose'', False)]"

definition token_Migrate :: "(catalogue, unit) call" where
  "token_Migrate db =
     (case ExecContext create_auth_tokens db of
        (Inl err, db) \<Rightarrow> (Inl err, db)
      | (Inr _, db) \<Rightarrow> ExecContext create_auth_tokens_hash db)"

definition create_api_keys :: ddl where
  "create_api_keys =
     Create_table ''api_keys''
       [(''user_id'', Bigint, [Primary_key]),
        (''api_key'', Text, [Not_null, Unique]),
        (''rotated_at'', Timestamptz, []),
        (''created_at'', Timestamptz, [Not_null, Default Default_now])] []"

definition apikey_Migrate :: "(catalogue, unit) call" where
  "apikey_Migrate = ExecContext create_api_keys"

definition create_service_heartbeats :: ddl where
  "create_service_heartbeats =
     Create_table ''service_heartbeats''
       [(''service_id'', Text, [Primary_key]),
        (''kind'', Text, [Not_null, default_text []]),
        (''started_at'', Timestamptz, [Not_null, Default Default_now]),
        (''last_seen'', Timestamptz, [Not_null, Default Default_now]),
        (''meta'', Text, [Not_null, default_text []])] []"

definition create_service_heartbeats_seen :: ddl where
  "create_service_heartbeats_seen =
     Create_index False ''service_heartbeats_seen'' ''service_heartbeats''
       [(''last_seen'', False)]"

definition heartbeat_Migrate :: "(catalogue, unit) call" where
  "heartbeat_Migrate db =
     (case ExecContext create_service_heartbeats db of
        (Inl err, db) \<Rightarrow> (Inl err, db)
      | (Inr _, db) \<Rightarrow> ExecContext create_service_heartbeats_seen db)"

definition create_job_settings :: ddl where
  "create_job_settings =
     Create_table ''job_settings''
       [(''job_name'', Text, [Not_null]),
        (''key'', Text, [Not_null]),
        (''value'', Text, [Not_null, default_text []]),
        (''updated_at'', Timestamptz, [Not_null, Default Default_now])] [''job_name'', ''key'']"

definition jobsettings_Migrate :: "(catalogue, unit) call" where
  "jobsettings_Migrate = ExecContext create_job_settings"

definition create_job_triggers :: ddl where
  "create_job_triggers =
     Create_table ''job_triggers''
       [(''id'', Bigserial, [Primary_key]),
        (''job_name'', Text, [Not_null]),
        (''requested_at'', Timestamptz, [Not_null, Default Default_now])] []"

definition create_job_triggers_name :: ddl where
  "create_job_triggers_name =
     Create_index True ''job_triggers_name'' ''job_triggers'' [(''job_name'', False)]"

definition jobtrigger_Migrate :: "(catalogue, unit) call" where
  "jobtrigger_Migrate db =
     (case ExecContext create_job_triggers db of
        (Inl err, db) \<Rightarrow> (Inl err, db)
      | (Inr _, db) \<Rightarrow> ExecContext create_job_triggers_name db)"

definition create_login_logs :: ddl where
  "create_login_logs =
     Create_table ''login_logs''
       [(''id'', Bigserial, [Primary_key]),
        (''user_id'', Bigint, [Not_null, default_int 0]),
        (''username'', Text, [Not_null, default_text []]),
        (''ip_hash'', Text, [Not_null, default_text []]),
        (''success'', Boolean, [Not_null, default_bool False]),
        (''created_at'', Timestamptz, [Not_null, Default Default_now])] []"

definition create_login_logs_user_time :: ddl where
  "create_login_logs_user_time =
     Create_index False ''login_logs_user_time'' ''login_logs''
       [(''user_id'', False), (''created_at'', True)]"

definition loginlog_Migrate :: "(catalogue, unit) call" where
  "loginlog_Migrate db =
     (case ExecContext create_login_logs db of
        (Inl err, db) \<Rightarrow> (Inl err, db)
      | (Inr _, db) \<Rightarrow> ExecContext create_login_logs_user_time db)"

definition create_maintenance_state :: ddl where
  "create_maintenance_state =
     Create_table ''maintenance_state''
       [(''id'', Integer, [Primary_key, default_int 1, Check_eq 1]),
        (''active'', Boolean, [Not_null, default_bool False]),
        (''reason'', Text, [Not_null, default_text []]),
        (''started_at'', Timestamptz, []),
        (''eta_secs'', Integer, [Not_null, default_int 0])] []"

definition maintenance_Migrate :: "(catalogue, unit) call" where
  "maintenance_Migrate = ExecContext create_maintenance_state"

definition create_notifications :: ddl where
  "create_notifications =
     Create_table ''notifications''
       [(''id'', Bigserial, [Primary_key]),
        (''user_id'', Bigint, [Not_null]),
        (''kind'', Text, [Not_null, default_text []]),
        (''title'', Text, [Not_null]),
        (''body'', Text, [Not_null, default_text []]),
        (''link'', Text, [Not_null, default_text []]),
        (''actor_name'', Text, [Not_null, default_text []]),
        (''read_at'', Timestamptz, []),
        (''created_at'', Timestamptz, [Not_null, Default Default_now])] []"

definition create_notifications_user_time :: ddl where
  "create_notifications_user_time =
     Create_index False ''notifications_user_time'' ''notifications''
       [(''user_id'', False), (''created_at'', True)]"

definition notify_Migrate :: "(catalogue, unit) call" where
  "notify_Migrate db =
     (case ExecContext create_notifications db of
        (Inl err, db) \<Rightarrow> (Inl err, db)
      | (Inr _, db) \<Rightarrow> ExecContext create_notifications_user_time db)"

text \<open>The stores of a deployment, and a sequence of calls of their migrations.\<close>

datatype store_pkg =
    Pkg_users | Pkg_authtoken | Pkg_apikey | Pkg_heartbeat | Pkg_jobsettings | Pkg_jobtrigger
  | Pkg_loginlog | Pkg_maintenance | Pkg_notify

fun Migrate :: "store_pkg \<Rightarrow> (catalogue, unit) call" where
  "Migrate Pkg_users = users_Migrate"
| "Migrate Pkg_authtoken = token_Migrate"
| "Migrate Pkg_apikey = apikey_Migrate"
| "Migrate Pkg_heartbeat = heartbeat_Migrate"
| "Migrate Pkg_jobsettings = jobsettings_Migrate"
| "Migrate Pkg_jobtrigger = jobtrigger_Migrate"
| "Migrate Pkg_loginlog = loginlog_Migrate"
| "Migrate Pkg_maintenance = maintenance_Migrate"
| "Migrate Pkg_notify = notify_Migrate"

fun migrate_seq :: "store_pkg list \<Rightarrow> catalogue \<Rightarrow> (store_pkg \<times> (gerr + unit)) list \<times> catalogue" where
  "migrate_seq [] db = ([], db)"
| "migrate_seq (p # ps) db =
     (case Migrate p db of (r, db) \<Rightarrow> case migrate_seq ps db of (rs, db) \<Rightarrow> ((p, r) # rs, db))"

definition all_pkgs :: "store_pkg list" where
  "all_pkgs = [Pkg_users, Pkg_authtoken, Pkg_apikey, Pkg_heartbeat, Pkg_jobsettings, Pkg_jobtrigger,
     Pkg_loginlog, Pkg_maintenance, Pkg_notify]"

text \<open>What a fresh deployment ends with.\<close>

definition fresh_schema :: schema where
  "fresh_schema = pg_rows (snd (migrate_seq all_pkgs (pg_table [] 0 0)))"

text \<open>
  Two relations agree when they differ at most in the order of a table's columns, and two schemas
  agree on the library's names when their relations do. The stores name the columns they read.
\<close>

fun same_relation :: "relation \<Rightarrow> relation \<Rightarrow> bool" where
  "same_relation (Table cs key) r = (case r of Table cs' key' \<Rightarrow> mset cs = mset cs' \<and> key = key' | _ \<Rightarrow> False)"
| "same_relation r r' = (r = r')"

text \<open>The users table of a deployment older than the verification of e-mail addresses.\<close>

definition old_users :: relation where
  "old_users = Table (filter (\<lambda>c. fst c \<noteq> ''email_verified'') users_columns) []"

definition deployed :: "schema \<Rightarrow> bool" where
  "deployed s = list_all (\<lambda>(n, R). case map_of s n of None \<Rightarrow> True
     | Some r \<Rightarrow> same_relation r R \<or> n = ''users'' \<and> r = old_users) fresh_schema"

definition up_to_date :: "schema \<Rightarrow> bool" where
  "up_to_date s = list_all (\<lambda>(n, R). case map_of s n of None \<Rightarrow> False | Some r \<Rightarrow> same_relation r R) fresh_schema"

section \<open>What each statement does to the library's names\<close>

text \<open>\<open>fits d\<close>: the statement declares what the fresh schema has under that name.\<close>

definition email_verified_column :: column where
  "email_verified_column = (''email_verified'', Boolean, [Not_null, default_bool False])"

fun fits_in :: "schema \<Rightarrow> ddl \<Rightarrow> bool" where
  "fits_in F (Create_table t cs key) \<longleftrightarrow> map_of F t = Some (Table cs key)"
| "fits_in F (Add_column t c) \<longleftrightarrow> t = ''users'' \<and> c = email_verified_column"
| "fits_in F (Create_index u n t ks) \<longleftrightarrow> map_of F n = Some (Index u t ks) \<and>
     (case map_of F t of
        Some (Table cs key) \<Rightarrow> t \<noteq> ''users'' \<and> list_all (\<lambda>k. fst k \<in> set (map fst cs)) ks
      | _ \<Rightarrow> False)"
| "fits_in F (Replace_view n es t) \<longleftrightarrow> n = ''user_display'' \<and> es = user_display \<and> t = ''users''"

abbreviation "fits \<equiv> fits_in fresh_schema"

text \<open>\<open>established d s\<close>: what a success of the statement leaves for good.\<close>

fun established :: "ddl \<Rightarrow> schema \<Rightarrow> bool" where
  "established (Create_table t cs key) s \<longleftrightarrow> map_of s t \<noteq> None"
| "established (Add_column t c) s \<longleftrightarrow>
     (case map_of s t of Some (Table cs key) \<Rightarrow> fst c \<in> set (map fst cs) | _ \<Rightarrow> False)"
| "established (Create_index u n t ks) s \<longleftrightarrow> map_of s n \<noteq> None"
| "established (Replace_view n es t) s \<longleftrightarrow> map_of s n \<noteq> None"

fun target_of :: "ddl \<Rightarrow> string" where
  "target_of (Create_table t cs key) = t"
| "target_of (Add_column t c) = t"
| "target_of (Create_index u n t ks) = n"
| "target_of (Replace_view n es t) = n"

fun base_of :: "ddl \<Rightarrow> string" where
  "base_of (Create_table t cs key) = t"
| "base_of (Add_column t c) = t"
| "base_of (Create_index u n t ks) = t"
| "base_of (Replace_view n es t) = t"

lemma fresh_distinct: "distinct (map fst fresh_schema)"
  by code_simp

lemma fresh_users: "map_of fresh_schema ''users'' = Some (Table users_columns [])"
  by code_simp

lemma fresh_display: "map_of fresh_schema ''user_display'' =
    Some (View (view_outputs (Table users_columns []) user_display) user_display ''users'')"
  by code_simp

lemma fresh_tables: "list_all (\<lambda>(n, R). case R of Table cs key \<Rightarrow> distinct (map fst cs) | _ \<Rightarrow> True) fresh_schema"
  by code_simp

lemma map_of_snoc: "map_of (s @ [(n, r)]) m = (if map_of s m = None then if m = n then Some r else None else map_of s m)"
  by (simp add: map_add_def split: option.splits)

lemma map_of_upd [simp]: "map_of (AList.update n r s) = (map_of s)(n \<mapsto> r)"
  by (rule update_conv')

definition agrees :: "string \<Rightarrow> relation \<Rightarrow> bool" where
  "agrees n r \<longleftrightarrow> (case map_of fresh_schema n of None \<Rightarrow> True
     | Some R \<Rightarrow> same_relation r R \<or> n = ''users'' \<and> r = old_users)"

lemma deployed_iff: "deployed s \<longleftrightarrow> (\<forall>n r. map_of s n = Some r \<longrightarrow> agrees n r)"
proof -
  have "deployed s \<longleftrightarrow> (\<forall>n R. map_of fresh_schema n = Some R \<longrightarrow> (case map_of s n of None \<Rightarrow> True
     | Some r \<Rightarrow> same_relation r R \<or> n = ''users'' \<and> r = old_users))"
    using fresh_distinct unfolding deployed_def list_all_iff
    by (auto simp del: map_of_eq_None_iff dest: map_of_is_SomeI map_of_SomeD)
  then show ?thesis by (auto simp: agrees_def split: option.splits)
qed

lemma up_to_date_iff:
  "up_to_date s \<longleftrightarrow> (\<forall>n R. map_of fresh_schema n = Some R \<longrightarrow>
     (case map_of s n of None \<Rightarrow> False | Some r \<Rightarrow> same_relation r R))"
  using fresh_distinct unfolding up_to_date_def list_all_iff
  by (auto simp del: map_of_eq_None_iff dest: map_of_is_SomeI map_of_SomeD)

lemma deployed_upd:
  "deployed s \<Longrightarrow> agrees n r \<Longrightarrow> map_of s' = (map_of s)(n \<mapsto> r) \<Longrightarrow> deployed s'"
  by (auto simp: deployed_iff split: if_splits)

lemma same_relation_refl [simp]: "same_relation r r"
  by (cases r) auto

lemma same_table:
  "same_relation r (Table cs key) \<longleftrightarrow> (\<exists>cs'. r = Table cs' key \<and> mset cs' = mset cs)"
  by (cases r) auto

lemma fits_agrees:
  "fits (Create_table t cs key) \<Longrightarrow> agrees t (Table cs key)"
  "fits (Create_index u n t ks) \<Longrightarrow> agrees n (Index u t ks)"
  by (auto simp: agrees_def)

lemma table_agrees:
  assumes "map_of fresh_schema t = Some (Table cs key)" "agrees t r"
  obtains cs' where "r = Table cs' key" "mset cs' = mset cs"
  | "t = ''users''" "r = old_users"
  using assms by (auto simp: agrees_def same_table)

lemma users_agrees:
  assumes "agrees ''users'' r"
  obtains (current) cs where "r = Table cs []" "mset cs = mset users_columns"
  | (old) "r = old_users"
  using assms by (auto simp: agrees_def fresh_users same_table)

text \<open>The view reads the same columns at the same types from every form of the users table.\<close>

lemma users_columns_distinct: "distinct (map fst users_columns)"
  by code_simp

lemma mset_columns:
  assumes "mset cs = mset cs'" "distinct (map fst cs')"
  shows "map_of cs = map_of cs'" and "set (map fst cs) = set (map fst cs')"
proof -
  have "distinct (map fst cs)" using assms by (metis mset_map mset_eq_imp_distinct_iff)
  then show "map_of cs = map_of cs'"
    using assms by (metis map_of_inject_set mset_eq_setD)
  show "set (map fst cs) = set (map fst cs')" using assms(1) by (metis mset_map mset_eq_setD)
qed

lemma outputs_map_of: "map_of (outputs (Table cs key)) n = map_option (\<lambda>(ty, _). read_type ty) (map_of cs n)"
  by (induction cs) auto

lemma outputs_names: "map fst (outputs (Table cs key)) = map fst cs"
  by auto

lemma display_outputs_old: "view_outputs old_users user_display = view_outputs (Table users_columns []) user_display"
  by code_simp

lemma view_outputs_cong:
  "map_of (outputs r) = map_of (outputs r') \<Longrightarrow> view_outputs r es = view_outputs r' es"
proof -
  assume eq: "map_of (outputs r) = map_of (outputs r')"
  have "expr_type (outputs r) e = expr_type (outputs r') e" for e
    by (cases e) (simp_all add: eq)
  then show ?thesis by (simp add: view_outputs_def)
qed

lemma display_outputs:
  assumes "agrees ''users'' r"
  shows "view_outputs r user_display = view_outputs (Table users_columns []) user_display"
  using assms
proof (cases rule: users_agrees)
  case (current cs)
  have "map_of (outputs r) = map_of (outputs (Table users_columns []))"
    unfolding current(1)
    by (rule ext) (simp only: outputs_map_of mset_columns(1) [OF current(2) users_columns_distinct])
  then show ?thesis by (rule view_outputs_cong)
next
  case old
  then show ?thesis by (simp add: display_outputs_old)
qed

lemma display_columns:
  assumes "agrees ''users'' r"
  shows "list_all (\<lambda>(_, e). list_all (\<lambda>c. c \<in> set (map fst (outputs r))) (expr_column e)) user_display"
  using assms
proof (cases rule: users_agrees)
  case (current cs)
  have "set (map fst (outputs r)) = set (map fst users_columns)"
    unfolding current(1) outputs_names using mset_columns(2) [OF current(2) users_columns_distinct] .
  moreover have "list_all (\<lambda>(_, e). list_all (\<lambda>c. c \<in> set (map fst users_columns)) (expr_column e)) user_display"
    by code_simp
  ultimately show ?thesis by simp
next
  case old
  have "list_all (\<lambda>(_, e). list_all (\<lambda>c. c \<in> set (map fst (outputs old_users))) (expr_column e)) user_display"
    by code_simp
  then show ?thesis by (simp add: old)
qed

text \<open>The old users table with the column added is the table of a fresh schema, in another order.\<close>

lemma old_upgraded:
  "old_users = Table cs key \<Longrightarrow> agrees ''users'' (Table (cs @ [email_verified_column]) key)"
proof -
  have "mset (filter (\<lambda>c. fst c \<noteq> ''email_verified'') users_columns @ [email_verified_column]) = mset users_columns"
    by code_simp
  then show "old_users = Table cs key \<Longrightarrow> ?thesis"
    by (auto simp: old_users_def agrees_def fresh_users)
qed

lemma email_verified_in: "''email_verified'' \<in> set (map fst users_columns)"
  by code_simp

lemma old_lacks: "old_users = Table cs key \<Longrightarrow> ''email_verified'' \<notin> set (map fst cs)"
  by (auto simp: old_users_def)

text \<open>
  What a successful statement does: nothing, or it writes one relation of the library that agrees
  with the fresh schema and keeps the columns that were there.
\<close>

definition grows :: "string \<Rightarrow> schema \<Rightarrow> schema \<Rightarrow> bool" where
  "grows n s s' \<longleftrightarrow> s' = s \<or> (\<exists>r. map_of s' = (map_of s)(n \<mapsto> r) \<and> agrees n r \<and>
     (\<forall>cs key. map_of s n = Some (Table cs key) \<longrightarrow>
        (\<exists>cs'. r = Table cs' key \<and> set (map fst cs) \<subseteq> set (map fst cs'))))"

lemma grows_refl [simp]: "grows n s s"
  by (simp add: grows_def)

lemma grows_new: "map_of s n = None \<Longrightarrow> agrees n r \<Longrightarrow> grows n s (s @ [(n, r)])"
  unfolding grows_def by (intro disjI2 exI [of _ r]) (auto simp: map_add_def fun_eq_iff split: option.splits)

lemma grows_update:
  "agrees n r \<Longrightarrow> (\<And>cs key. map_of s n = Some (Table cs key) \<Longrightarrow>
      \<exists>cs'. r = Table cs' key \<and> set (map fst cs) \<subseteq> set (map fst cs')) \<Longrightarrow>
   grows n s (AList.update n r s)"
  unfolding grows_def by (intro disjI2 exI [of _ r]) (simp add: update_conv')

lemma established_mono:
  assumes est: "established d s" and grows: "grows n s s'"
  shows "established d s'"
proof (cases "s' = s")
  case False
  then obtain r where upd: "map_of s' = (map_of s)(n \<mapsto> r)"
    and keep: "\<And>cs key. map_of s n = Some (Table cs key) \<Longrightarrow> \<exists>cs'. r = Table cs' key \<and> set (map fst cs) \<subseteq> set (map fst cs')"
    using grows unfolding grows_def by blast
  show ?thesis
  proof (cases d)
    case (Add_column t c)
    with est obtain cs key where cs: "map_of s t = Some (Table cs key)" "fst c \<in> set (map fst cs)"
      by (auto split: option.splits relation.splits)
    show ?thesis
    proof (cases "t = n")
      case True
      then obtain cs' where "r = Table cs' key" "set (map fst cs) \<subseteq> set (map fst cs')"
        using keep cs(1) by metis
      then show ?thesis using cs(2) True by (simp add: Add_column upd subset_iff del: set_map)
    next
      case False
      then show ?thesis using cs by (simp add: Add_column upd)
    qed
  qed (use est in \<open>auto simp: upd\<close>)
qed (simp add: est)

lemma grows_deployed: "deployed s \<Longrightarrow> grows n s s' \<Longrightarrow> deployed s'"
  unfolding grows_def using deployed_upd by blast

lemma grows_elsewhere: "grows n s s' \<Longrightarrow> m \<noteq> n \<Longrightarrow> map_of s' m = map_of s m"
  unfolding grows_def by auto

lemma run_create_table:
  "fits (Create_table t cs key) \<Longrightarrow> run_ddl (Create_table t cs key) s = Inr s' \<Longrightarrow>
   grows t s s' \<and> established (Create_table t cs key) s'"
  using fits_agrees(1) [of t cs key] by (cases "map_of s t") (auto intro: grows_new simp: map_add_def simp del: fits_in.simps)

lemma run_create_index:
  "fits (Create_index u n t ks) \<Longrightarrow> run_ddl (Create_index u n t ks) s = Inr s' \<Longrightarrow>
   grows n s s' \<and> established (Create_index u n t ks) s'"
  using fits_agrees(2) [of u n t ks]
  by (cases "map_of s n") (auto intro: grows_new simp: map_add_def simp del: fits_in.simps split: option.splits relation.splits if_splits)

lemma run_add_column:
  assumes dep: "deployed s" and fit: "fits (Add_column t c)" and run: "run_ddl (Add_column t c) s = Inr s'"
  shows "grows t s s' \<and> established (Add_column t c) s'"
proof -
  have t: "t = ''users''" "c = email_verified_column" using fit by auto
  obtain cs key where cs: "map_of s ''users'' = Some (Table cs key)"
    using run t by (auto split: option.splits relation.splits)
  have ag: "agrees ''users'' (Table cs key)" using dep cs by (auto simp: deployed_iff)
  show ?thesis
  proof (cases "fst c \<in> set (map fst cs)")
    case True
    then show ?thesis using run t cs by simp
  next
    case False
    have "agrees ''users'' (Table (cs @ [c]) key)"
      using ag
    proof (cases rule: users_agrees)
      case (current cs')
      then show ?thesis
        using False email_verified_in mset_columns(2) [OF current(2) users_columns_distinct]
        by (simp add: t email_verified_column_def)
    next
      case old
      then show ?thesis using old_upgraded [of cs key] t by simp
    qed
    then have "grows t s (AList.update t (Table (cs @ [c]) key) s)"
      using cs by (intro grows_update) (auto simp: t)
    moreover have "s' = AList.update t (Table (cs @ [c]) key) s"
      using run cs False by (simp add: t)
    ultimately show ?thesis by (simp add: update_conv')
  qed
qed

lemma run_replace_view:
  assumes dep: "deployed s" and fit: "fits (Replace_view n es t)" and run: "run_ddl (Replace_view n es t) s = Inr s'"
  shows "grows n s s' \<and> established (Replace_view n es t) s'"
proof -
  have n: "n = ''user_display''" "es = user_display" "t = ''users''" using fit by auto
  obtain r where r: "map_of s t = Some r" using run by (auto split: option.splits)
  have "agrees ''users'' r" using dep r n by (auto simp: deployed_iff)
  then have ag: "agrees n (View (view_outputs r es) es t)"
    by (simp add: n agrees_def fresh_display display_outputs)
  show ?thesis
  proof (cases "map_of s n")
    case None
    then have "s' = s @ [(n, View (view_outputs r es) es t)]"
      using run r by (simp split: if_splits)
    then show ?thesis using grows_new [OF None ag] by simp
  next
    case (Some v)
    then obtain os es' t' where v: "v = View os es' t'" and s': "s' = AList.update n (View (view_outputs r es) es t) s"
      using run r by (auto split: if_splits relation.splits)
    then have "grows n s s'" using Some ag by (auto intro: grows_update)
    then show ?thesis using s' by (simp add: update_conv')
  qed
qed

lemma run_ddl_grows:
  assumes "deployed s" "fits d" "run_ddl d s = Inr s'"
  shows "grows (target_of d) s s' \<and> established d s'"
  using assms
  by (cases d) (simp_all only: target_of.simps run_create_table run_create_index run_add_column run_replace_view)

section \<open>Convergence\<close>

fun exec_all :: "ddl list \<Rightarrow> (catalogue, unit) call" where
  "exec_all [] db = (Inr (), db)"
| "exec_all (d # ds) db =
     (case ExecContext d db of (Inl err, db) \<Rightarrow> (Inl err, db) | (Inr _, db) \<Rightarrow> exec_all ds db)"

fun pkg_ddl :: "store_pkg \<Rightarrow> ddl list" where
  "pkg_ddl Pkg_users = [create_users, add_email_verified, create_user_display]"
| "pkg_ddl Pkg_authtoken = [create_auth_tokens, create_auth_tokens_hash]"
| "pkg_ddl Pkg_apikey = [create_api_keys]"
| "pkg_ddl Pkg_heartbeat = [create_service_heartbeats, create_service_heartbeats_seen]"
| "pkg_ddl Pkg_jobsettings = [create_job_settings]"
| "pkg_ddl Pkg_jobtrigger = [create_job_triggers, create_job_triggers_name]"
| "pkg_ddl Pkg_loginlog = [create_login_logs, create_login_logs_user_time]"
| "pkg_ddl Pkg_maintenance = [create_maintenance_state]"
| "pkg_ddl Pkg_notify = [create_notifications, create_notifications_user_time]"

lemma exec_all_single [simp]: "exec_all [d] = ExecContext d"
proof (rule ext)
  fix db
  obtain r db' where "ExecContext d db = (r, db')" by (rule prod.exhaust)
  then show "exec_all [d] db = ExecContext d db" by (cases r) auto
qed

lemma Migrate_exec: "Migrate p = exec_all (pkg_ddl p)"
  by (cases p)
    (simp_all add: fun_eq_iff users_Migrate_def token_Migrate_def apikey_Migrate_def heartbeat_Migrate_def
      jobsettings_Migrate_def jobtrigger_Migrate_def loginlog_Migrate_def maintenance_Migrate_def
      notify_Migrate_def exec_all_single [unfolded fun_eq_iff] del: exec_all.simps(1) split: prod.split sum.split)

lemma set_all_pkgs [simp]: "p \<in> set all_pkgs"
  by (cases p) (simp_all add: all_pkgs_def)

definition all_fit :: "schema \<Rightarrow> bool" where
  "all_fit F \<longleftrightarrow> list_all (\<lambda>p. list_all (fits_in F) (pkg_ddl p)) all_pkgs"

lemma all_fit_fresh: "all_fit fresh_schema"
  by code_simp

lemma pkg_ddl_fits: "list_all fits (pkg_ddl p)"
  using all_fit_fresh set_all_pkgs [of p] unfolding all_fit_def list_all_iff by blast

fun creates :: "ddl \<Rightarrow> bool" where
  "creates (Add_column t c) \<longleftrightarrow> False"
| "creates d \<longleftrightarrow> True"

lemma fresh_created:
  assumes "map_of fresh_schema n = Some R"
  obtains p d where "d \<in> set (pkg_ddl p)" "creates d" "target_of d = n"
proof -
  have "list_all (\<lambda>(n, _). list_ex (\<lambda>p. list_ex (\<lambda>d. creates d \<and> target_of d = n) (pkg_ddl p)) all_pkgs) fresh_schema"
    by code_simp
  moreover have "(n, R) \<in> set fresh_schema" using assms by (rule map_of_SomeD)
  ultimately have "list_ex (\<lambda>p. list_ex (\<lambda>d. creates d \<and> target_of d = n) (pkg_ddl p)) all_pkgs"
    unfolding list_all_iff by blast
  then show thesis using that by (auto simp: list_ex_iff)
qed

lemma fits_target: "fits d \<Longrightarrow> map_of fresh_schema (target_of d) \<noteq> None"
  by (cases d) (auto simp: fresh_users fresh_display)

text \<open>The order in which migrations move the schema.\<close>

definition advances :: "schema \<Rightarrow> schema \<Rightarrow> bool" where
  "advances s s' \<longleftrightarrow> deployed s' \<and> (\<forall>d. established d s \<longrightarrow> established d s') \<and>
     (\<forall>n. map_of fresh_schema n = None \<longrightarrow> map_of s' n = map_of s n)"

lemma advances_refl: "deployed s \<Longrightarrow> advances s s"
  by (simp add: advances_def)

lemma advances_trans: "advances s t \<Longrightarrow> advances t u \<Longrightarrow> advances s u"
  by (simp add: advances_def)

lemma grows_advances:
  assumes "deployed s" "fits d" "grows (target_of d) s s'"
  shows "advances s s'"
  unfolding advances_def
proof (intro conjI allI impI)
  show "deployed s'" using assms(1,3) by (rule grows_deployed)
  show "established e s \<Longrightarrow> established e s'" for e using assms(3) by (rule established_mono [rotated])
  show "map_of s' n = map_of s n" if "map_of fresh_schema n = None" for n
    using assms(3) that fits_target [OF assms(2)] by (auto intro: grows_elsewhere)
qed

lemma ExecContext_advances:
  assumes "ExecContext d db = (r, db')" "deployed (pg_rows db)" "fits d"
  shows "advances (pg_rows db) (pg_rows db') \<and> (r = Inr () \<longrightarrow> established d (pg_rows db'))"
  using assms(1) unfolding ExecContext_def
proof (rule stmt_rule, goal_cases)
  case (1 os q e)
  show ?case
  proof (cases "run_ddl d (pg_rows db)")
    case (Inl m)
    then show ?thesis using 1 advances_refl [OF assms(2)] by auto
  next
    case (Inr s')
    have "grows (target_of d) (pg_rows db) s' \<and> established d s'"
      using assms(2,3) Inr by (rule run_ddl_grows)
    then show ?thesis using 1 Inr grows_advances [OF assms(2,3)] by auto
  qed
qed (simp_all add: advances_refl [OF assms(2)])

lemma exec_all_advances:
  "exec_all ds db = (r, db') \<Longrightarrow> deployed (pg_rows db) \<Longrightarrow> list_all fits ds \<Longrightarrow>
   advances (pg_rows db) (pg_rows db') \<and> (r = Inr () \<longrightarrow> (\<forall>d\<in>set ds. established d (pg_rows db')))"
proof (induction ds arbitrary: db)
  case Nil
  then show ?case by (simp add: advances_refl)
next
  case (Cons d ds)
  obtain q db1 where ex: "ExecContext d db = (q, db1)" by (rule prod.exhaust)
  have step: "advances (pg_rows db) (pg_rows db1) \<and> (q = Inr () \<longrightarrow> established d (pg_rows db1))"
    using ex Cons.prems by (intro ExecContext_advances) auto
  show ?case
  proof (cases q)
    case (Inl e)
    then show ?thesis using Cons.prems ex step by auto
  next
    case (Inr u)
    have "exec_all ds db1 = (r, db')" using Cons.prems ex Inr by simp
    moreover have "deployed (pg_rows db1)" using step by (simp add: advances_def)
    ultimately have "advances (pg_rows db1) (pg_rows db') \<and> (r = Inr () \<longrightarrow> (\<forall>d\<in>set ds. established d (pg_rows db')))"
      using Cons.prems(3) by (intro Cons.IH) auto
    then show ?thesis using step Inr advances_trans by (auto simp: advances_def)
  qed
qed

lemma migrate_seq_advances:
  "migrate_seq ps db = (rs, db') \<Longrightarrow> deployed (pg_rows db) \<Longrightarrow>
   advances (pg_rows db) (pg_rows db') \<and>
   (\<forall>p. (p, Inr ()) \<in> set rs \<longrightarrow> (\<forall>d\<in>set (pkg_ddl p). established d (pg_rows db')))"
proof (induction ps arbitrary: db rs)
  case Nil
  then show ?case by (auto simp: advances_refl)
next
  case (Cons p ps)
  obtain r db1 where m: "Migrate p db = (r, db1)" by (rule prod.exhaust)
  obtain rs1 where rs: "migrate_seq ps db1 = (rs1, db')" "rs = (p, r) # rs1"
    using Cons.prems(1) m by (auto split: prod.splits)
  have step: "advances (pg_rows db) (pg_rows db1) \<and> (r = Inr () \<longrightarrow> (\<forall>d\<in>set (pkg_ddl p). established d (pg_rows db1)))"
    using m Cons.prems(2) pkg_ddl_fits unfolding Migrate_exec by (rule exec_all_advances)
  then have rest: "advances (pg_rows db1) (pg_rows db') \<and>
      (\<forall>p. (p, Inr ()) \<in> set rs1 \<longrightarrow> (\<forall>d\<in>set (pkg_ddl p). established d (pg_rows db')))"
    using Cons.IH [OF rs(1)] by (simp add: advances_def)
  show ?case
    using step rest rs(2) advances_trans [of "pg_rows db" "pg_rows db1" "pg_rows db'"]
    by (auto simp: advances_def)
qed

lemma established_all:
  assumes "deployed s" "\<And>p d. d \<in> set (pkg_ddl p) \<Longrightarrow> established d s"
  shows "up_to_date s"
  unfolding up_to_date_iff
proof (intro allI impI)
  fix n R assume R: "map_of fresh_schema n = Some R"
  then obtain p d where d: "d \<in> set (pkg_ddl p)" "creates d" "target_of d = n" by (rule fresh_created)
  have "map_of s n \<noteq> None" using assms(2) [OF d(1)] d(2,3) by (cases d) auto
  then obtain r where r: "map_of s n = Some r" by auto
  have "agrees n r" using assms(1) r by (simp add: deployed_iff)
  moreover have "\<not> (n = ''users'' \<and> r = old_users)"
    using assms(2) [of add_email_verified Pkg_users] r
    by (auto simp: add_email_verified_def old_users_def)
  ultimately show "case map_of s n of None \<Rightarrow> False | Some r \<Rightarrow> same_relation r R"
    using R r by (auto simp: agrees_def)
qed

text \<open>In a database that answers, every migration succeeds, whatever ran before it.\<close>

lemma up_to_date_deployed: "up_to_date s \<Longrightarrow> deployed s"
  by (auto simp: up_to_date_iff deployed_iff agrees_def split: option.splits)

fun is_create_table :: "ddl \<Rightarrow> bool" where
  "is_create_table (Create_table t cs key) \<longleftrightarrow> True"
| "is_create_table d \<longleftrightarrow> False"

lemma run_ddl_succeeds:
  assumes dep: "deployed s" and fit: "fits d" and base: "is_create_table d \<or> map_of s (base_of d) \<noteq> None"
  shows "\<exists>s'. run_ddl d s = Inr s'"
proof (cases d)
  case (Add_column t c)
  then obtain r where r: "map_of s ''users'' = Some r" "t = ''users''" using fit base by auto
  then have "agrees ''users'' r" using dep by (auto simp: deployed_iff)
  then show ?thesis using r by (cases rule: users_agrees) (simp_all add: Add_column old_users_def)
next
  case (Create_index u n t ks)
  obtain cs key where F: "map_of fresh_schema t = Some (Table cs key)" "t \<noteq> ''users''"
      "list_all (\<lambda>k. fst k \<in> set (map fst cs)) ks"
    using fit Create_index by (auto split: option.splits relation.splits)
  obtain r where r: "map_of s t = Some r" using base Create_index by auto
  then have "agrees t r" using dep by (auto simp: deployed_iff)
  with F(1) obtain cs' where "r = Table cs' key" "mset cs' = mset cs" using F(2) by (cases rule: table_agrees) auto
  moreover have "set (map fst cs') = set (map fst cs)" using calculation(2) by (metis mset_map mset_eq_setD)
  ultimately show ?thesis using F(3) r by (auto simp: Create_index)
next
  case (Replace_view n es t)
  then have n: "n = ''user_display''" "es = user_display" "t = ''users''" using fit by auto
  obtain r where r: "map_of s ''users'' = Some r" using base Replace_view n by auto
  then have ag: "agrees ''users'' r" using dep by (auto simp: deployed_iff)
  show ?thesis
  proof (cases "map_of s n")
    case None
    then show ?thesis using r display_columns [OF ag] by (simp add: Replace_view n)
  next
    case (Some v)
    then have "agrees n v" using dep by (auto simp: deployed_iff)
    then have "v = View (view_outputs r es) es t"
      by (cases v) (auto simp: n agrees_def fresh_display display_outputs [OF ag])
    then show ?thesis using r Some display_columns [OF ag] by (simp add: Replace_view n)
  qed
qed simp

fun runnable :: "string list \<Rightarrow> ddl list \<Rightarrow> bool" where
  "runnable ns [] \<longleftrightarrow> True"
| "runnable ns (d # ds) \<longleftrightarrow>
     (is_create_table d \<or> base_of d \<in> set ns) \<and> runnable (target_of d # ns) ds"

lemma pkg_ddl_runnable: "runnable [] (pkg_ddl p)"
proof -
  have "list_all (\<lambda>p. runnable [] (pkg_ddl p)) all_pkgs" by code_simp
  then show ?thesis unfolding list_all_iff using set_all_pkgs [of p] by blast
qed

lemma established_target: "established d s \<Longrightarrow> map_of s (target_of d) \<noteq> None"
  by (cases d) (auto split: option.splits)

lemma ExecContext_healthy:
  "healthy db \<Longrightarrow> run_ddl d (pg_rows db) = Inr s \<Longrightarrow>
   ExecContext d db = (Inr (), (next_stmt db)\<lparr>pg_rows := s\<rparr>)"
  by (simp add: ExecContext_def stmt_healthy)

lemma exec_all_succeeds:
  "healthy db \<Longrightarrow> deployed (pg_rows db) \<Longrightarrow> list_all fits ds \<Longrightarrow> runnable ns ds \<Longrightarrow>
   list_all (\<lambda>n. map_of (pg_rows db) n \<noteq> None) ns \<Longrightarrow>
   \<exists>db'. exec_all ds db = (Inr (), db') \<and> healthy db'"
proof (induction ds arbitrary: db ns)
  case (Cons d ds)
  have "is_create_table d \<or> map_of (pg_rows db) (base_of d) \<noteq> None"
    using Cons.prems(4,5) by (auto simp: list_all_iff)
  then obtain s where s: "run_ddl d (pg_rows db) = Inr s"
    using run_ddl_succeeds [of "pg_rows db" d] Cons.prems(2,3) by auto
  let ?db = "(next_stmt db)\<lparr>pg_rows := s\<rparr>"
  have ex: "ExecContext d db = (Inr (), ?db)" using Cons.prems(1) s by (rule ExecContext_healthy)
  have gr: "grows (target_of d) (pg_rows db) s \<and> established d s"
    using Cons.prems(2,3) s by (intro run_ddl_grows) auto
  have "map_of s n \<noteq> None" if "n \<in> set (target_of d # ns)" for n
  proof (cases "n = target_of d")
    case True
    then show ?thesis using gr established_target by blast
  next
    case False
    then show ?thesis using that gr grows_elsewhere [of "target_of d" "pg_rows db" s n] Cons.prems(5)
      by (auto simp: list_all_iff)
  qed
  then have "\<exists>db'. exec_all ds ?db = (Inr (), db') \<and> healthy db'"
    using Cons.prems gr by (intro Cons.IH [of _ "target_of d # ns"]) (auto simp: list_all_iff intro: grows_deployed)
  then show ?case using ex by simp
qed simp

lemma Migrate_succeeds:
  "healthy db \<Longrightarrow> deployed (pg_rows db) \<Longrightarrow> \<exists>db'. Migrate p db = (Inr (), db') \<and> healthy db' \<and> deployed (pg_rows db')"
  unfolding Migrate_exec
  using exec_all_succeeds [OF _ _ pkg_ddl_fits pkg_ddl_runnable] exec_all_advances [OF _ _ pkg_ddl_fits]
  by (fastforce simp: advances_def)

lemma migrate_seq_succeeds:
  "healthy db \<Longrightarrow> deployed (pg_rows db) \<Longrightarrow>
   \<exists>db'. migrate_seq ps db = (map (\<lambda>p. (p, Inr ())) ps, db') \<and> healthy db'"
proof (induction ps arbitrary: db)
  case (Cons p ps)
  obtain db1 where db1: "Migrate p db = (Inr (), db1)" "healthy db1" "deployed (pg_rows db1)"
    using Migrate_succeeds [OF Cons.prems] by blast
  obtain db' where "migrate_seq ps db1 = (map (\<lambda>p. (p, Inr ())) ps, db')" "healthy db'"
    using Cons.IH [OF db1(2,3)] by blast
  then show ?case using db1(1) by simp
qed simp

text \<open>On a schema that is up to date no statement changes anything.\<close>

lemma run_ddl_idle:
  assumes "up_to_date s" "fits d"
  shows "run_ddl d s = Inr s"
proof -
  have dep: "deployed s" using assms(1) by (rule up_to_date_deployed)
  have here: "\<exists>r. map_of s n = Some r \<and> same_relation r R" if "map_of fresh_schema n = Some R" for n R
    using assms(1) that by (fastforce simp: up_to_date_iff split: option.splits)
  obtain cs where cs: "map_of s ''users'' = Some (Table cs [])" "mset cs = mset users_columns"
    using here [OF fresh_users] by (auto simp: same_table)
  have base: "map_of s (base_of d) \<noteq> None"
    using assms(2) cs(1) by (cases d) (auto split: option.splits dest: here)
  then obtain s' where s': "run_ddl d s = Inr s'" using run_ddl_succeeds [OF dep assms(2)] by auto
  show ?thesis
  proof (cases d)
    case (Create_table t cs key)
    then show ?thesis using base by auto
  next
    case (Add_column t c)
    have "''email_verified'' \<in> set (map fst cs)"
      using mset_columns(2) [OF cs(2) users_columns_distinct] email_verified_in by simp
    then show ?thesis using assms(2) cs(1) by (simp add: Add_column email_verified_column_def)
  next
    case (Create_index u n t ks)
    then have "map_of s n \<noteq> None" using assms(2) here [of n] by auto
    then show ?thesis using s' by (auto simp: Create_index split: option.splits relation.splits if_splits)
  next
    case (Replace_view n es t)
    then have n: "n = ''user_display''" "es = user_display" "t = ''users''" using assms(2) by auto
    have ag: "agrees ''users'' (Table cs [])" using cs by (simp add: agrees_def fresh_users)
    obtain v where v: "map_of s n = Some v" "same_relation v (View (view_outputs (Table users_columns []) es) es t)"
      using here [OF fresh_display] n by auto
    then have "v = View (view_outputs (Table cs []) es) es t"
      by (cases v) (auto simp: n display_outputs [OF ag])
    then show ?thesis
      using v(1) cs(1) display_columns [OF ag] by (simp add: Replace_view n update_triv)
  qed
qed

lemma exec_all_idle:
  "up_to_date (pg_rows db) \<Longrightarrow> list_all fits ds \<Longrightarrow> pg_rows (snd (exec_all ds db)) = pg_rows db"
proof (induction ds arbitrary: db)
  case (Cons d ds)
  have "run_ddl d (pg_rows db) = Inr (pg_rows db)" using Cons.prems by (simp add: run_ddl_idle)
  then have rows: "pg_rows (snd (ExecContext d db)) = pg_rows db"
    by (simp add: ExecContext_def stmt_def split: list.split outcome.split)
  obtain r db1 where ex: "ExecContext d db = (r, db1)" by (rule prod.exhaust)
  show ?case
  proof (cases r)
    case (Inr u)
    then show ?thesis using Cons.IH [of db1] Cons.prems rows ex by simp
  qed (use rows ex in simp)
qed simp

lemma migrate_seq_idle: "up_to_date (pg_rows db) \<Longrightarrow> pg_rows (snd (migrate_seq ps db)) = pg_rows db"
proof (induction ps arbitrary: db)
  case (Cons p ps)
  obtain r db1 where m: "Migrate p db = (r, db1)" by (rule prod.exhaust)
  have "pg_rows db1 = pg_rows db"
    using exec_all_idle [OF Cons.prems pkg_ddl_fits, of p] m by (simp add: Migrate_exec)
  then show ?case using Cons.IH [of db1] Cons.prems m by (simp add: case_prod_beta)
qed simp


section \<open>The display view\<close>

text \<open>
  What a plugin reads of the accounts: the view's expressions over a row of the users table, whose
  column values \<open>users_column\<close> reads off the record.
\<close>

fun users_column :: "user \<Rightarrow> string \<Rightarrow> sql_value option" where
  "users_column u c =
     map_of [(''id'', V_int (u_ID u)), (''username'', V_text (u_Username u)), (''email'', V_text (u_Email u)),
       (''password_hash'', V_text (u_PasswordHash u)), (''role'', V_int (u_Role u)),
       (''email_verified'', V_bool (u_EmailVerified u)), (''created_at'', V_time (u_CreatedAt u))] c"

fun eval_expr :: "(string \<Rightarrow> sql_value option) \<Rightarrow> view_expr \<Rightarrow> sql_value option" where
  "eval_expr row (Column c) = row c"
| "eval_expr row (Case_of c ws e) =
     (case row c of
        Some (V_int n) \<Rightarrow> Some (V_text (case map_of ws n of Some t \<Rightarrow> t | None \<Rightarrow> e))
      | _ \<Rightarrow> None)"
| "eval_expr row (Text_literal t) = Some (V_text t)"
| "eval_expr row (Smallint_literal n) = Some (V_int n)"

definition eval_view :: "(string \<Rightarrow> sql_value option) \<Rightarrow> (string \<times> view_expr) list \<Rightarrow> (string \<times> sql_value option) list" where
  "eval_view row es = map (\<lambda>(n, e). (n, eval_expr row e)) es"

section \<open>The statements of the stores\<close>

text \<open>
  The statements that the stores send, each with the table, the columns it reads or writes and those its
  clauses name: \<open>Sql_select t cols clauses\<close>, \<open>Sql_insert t cols conflict others\<close> with the columns that
  get a value, the target of \<open>ON CONFLICT\<close> (\<open>[]\<close> for none) and the columns of \<open>DO UPDATE\<close> and \<open>RETURNING\<close>,
  \<open>Sql_update t cols clauses\<close> and \<open>Sql_delete t clauses\<close>. They are written down from the text of
  the statements, not from the migrations.
\<close>

datatype sql =
    Sql_select string "string list" "string list"
  | Sql_insert string "string list" "string list" "string list"
  | Sql_update string "string list" "string list"
  | Sql_delete string "string list"

definition userCols :: string where
  "userCols = ''id, username, email, password_hash, role, email_verified, created_at''"

definition logCols :: string where
  "logCols = ''id, user_id, username, ip_hash, success, created_at''"

definition select_list :: "string \<Rightarrow> string list" where
  "select_list cols = map (dropWhile (\<lambda>c. c = CHR '' '')) (Split (CHR '','') cols)"

definition users_sql :: "sql list" where
  "users_sql =
    [Sql_insert ''users'' [''username'', ''email'', ''password_hash'', ''role''] [] [''id''],
     Sql_select ''users'' (select_list userCols) [''id''],
     Sql_select ''users'' (select_list userCols) [''username''],
     Sql_select ''users'' (select_list userCols) [''email''],
     Sql_select ''users'' [''id''] [''username''],
     Sql_update ''users'' [''password_hash''] [''id''],
     Sql_update ''users'' [''role''] [''id''],
     Sql_update ''users'' [''email_verified''] [''id''],
     Sql_select ''users'' [] [],
     Sql_select ''users'' (select_list userCols) [''id'']]"

definition token_sql :: "sql list" where
  "token_sql =
    [Sql_insert ''auth_tokens'' [''user_id'', ''purpose'', ''token_hash'', ''expires_at''] [] [],
     Sql_update ''auth_tokens'' [''used_at''] [''token_hash'', ''purpose'', ''used_at'', ''expires_at'', ''user_id'']]"

definition apikey_sql :: "sql list" where
  "apikey_sql =
    [Sql_select ''api_keys'' [''user_id''] [''api_key''],
     Sql_insert ''api_keys'' [''user_id'', ''api_key''] [''user_id''] [],
     Sql_insert ''api_keys'' [''user_id'', ''api_key''] [''user_id''] [''api_key'', ''rotated_at'', ''created_at''],
     Sql_select ''api_keys'' [''api_key'', ''rotated_at'', ''created_at''] [''user_id'']]"

definition heartbeat_sql :: "sql list" where
  "heartbeat_sql =
    [Sql_insert ''service_heartbeats'' [''service_id'', ''kind'', ''started_at'', ''last_seen'', ''meta''] [''service_id'']
       [''kind'', ''started_at'', ''last_seen'', ''meta''],
     Sql_select ''service_heartbeats'' [''service_id'', ''kind'', ''started_at'', ''last_seen'', ''meta'']
       [''last_seen'', ''kind'', ''service_id''],
     Sql_delete ''service_heartbeats'' [''last_seen'']]"

definition jobsettings_sql :: "sql list" where
  "jobsettings_sql =
    [Sql_select ''job_settings'' [''key'', ''value''] [''job_name''],
     Sql_insert ''job_settings'' [''job_name'', ''key'', ''value'', ''updated_at''] [''job_name'', ''key'']
       [''value'', ''updated_at''],
     Sql_delete ''job_settings'' [''job_name'', ''key'']]"

definition jobtrigger_sql :: "sql list" where
  "jobtrigger_sql =
    [Sql_insert ''job_triggers'' [''job_name''] [''job_name''] [],
     Sql_delete ''job_triggers'' [''id'', ''job_name''],
     Sql_select ''job_triggers'' [''id''] [''requested_at'']]"

definition loginlog_sql :: "sql list" where
  "loginlog_sql =
    [Sql_insert ''login_logs'' [''user_id'', ''username'', ''ip_hash'', ''success''] [] [],
     Sql_select ''login_logs'' (select_list logCols) [''user_id'', ''created_at''],
     Sql_select ''login_logs'' (select_list logCols) [''created_at'']]"

definition maintenance_sql :: "sql list" where
  "maintenance_sql =
    [Sql_select ''maintenance_state'' [''active'', ''reason'', ''started_at'', ''eta_secs''] [''id''],
     Sql_insert ''maintenance_state'' [''id'', ''active'', ''reason'', ''started_at'', ''eta_secs''] [''id'']
       [''active'', ''reason'', ''started_at'', ''eta_secs'']]"

definition notify_sql :: "sql list" where
  "notify_sql =
    [Sql_insert ''notifications'' [''user_id'', ''kind'', ''title'', ''body'', ''link'', ''actor_name''] [] [],
     Sql_select ''notifications''
       [''id'', ''kind'', ''title'', ''body'', ''link'', ''actor_name'', ''read_at'', ''created_at'']
       [''user_id'', ''created_at''],
     Sql_select ''notifications'' [] [''user_id'', ''read_at''],
     Sql_update ''notifications'' [''read_at''] [''user_id'', ''read_at'']]"

fun pkg_sql :: "store_pkg \<Rightarrow> sql list" where
  "pkg_sql Pkg_users = users_sql"
| "pkg_sql Pkg_authtoken = token_sql"
| "pkg_sql Pkg_apikey = apikey_sql"
| "pkg_sql Pkg_heartbeat = heartbeat_sql"
| "pkg_sql Pkg_jobsettings = jobsettings_sql"
| "pkg_sql Pkg_jobtrigger = jobtrigger_sql"
| "pkg_sql Pkg_loginlog = loginlog_sql"
| "pkg_sql Pkg_maintenance = maintenance_sql"
| "pkg_sql Pkg_notify = notify_sql"

text \<open>
  What such a statement needs of the schema for Postgres to run it, the types of its values aside: the table
  and the columns exist; an INSERT gives a value to every column that needs one; a target of \<open>ON CONFLICT\<close>
  is the key of the table, a unique column or the columns of a unique index on it.
\<close>

fun fills_in :: "column \<Rightarrow> bool" where
  "fills_in (n, ty, ks) \<longleftrightarrow>
     ty = Bigserial \<or> list_ex (\<lambda>k. case k of Default _ \<Rightarrow> True | _ \<Rightarrow> False) ks \<or> list_all (\<lambda>k. k \<noteq> Not_null \<and> k \<noteq> Primary_key) ks"

fun unique_column :: "string list \<Rightarrow> column \<Rightarrow> bool" where
  "unique_column cs (n, ty, ks) \<longleftrightarrow> cs = [n] \<and> list_ex (\<lambda>k. k = Primary_key \<or> k = Unique) ks"

definition unique_index :: "schema \<Rightarrow> string \<Rightarrow> string list \<Rightarrow> bool" where
  "unique_index s t cs \<longleftrightarrow>
     list_ex (\<lambda>n. case map_of s n of Some (Index u t' ks) \<Rightarrow> u \<and> t' = t \<and> map fst ks = cs | _ \<Rightarrow> False) (map fst s)"

definition over_table :: "schema \<Rightarrow> string \<Rightarrow> (column list \<Rightarrow> string list \<Rightarrow> bool) \<Rightarrow> bool" where
  "over_table s t P \<longleftrightarrow> (case map_of s t of Some (Table cols key) \<Rightarrow> P cols key | _ \<Rightarrow> False)"

definition names_columns :: "column list \<Rightarrow> string list \<Rightarrow> bool" where
  "names_columns cols cs \<longleftrightarrow> list_all (\<lambda>c. list_ex (\<lambda>col. fst col = c) cols) cs"

fun accepts :: "schema \<Rightarrow> sql \<Rightarrow> bool" where
  "accepts s (Sql_select t cs ws) \<longleftrightarrow> over_table s t (\<lambda>cols _. names_columns cols (cs @ ws))"
| "accepts s (Sql_insert t cs conflict rs) \<longleftrightarrow>
     over_table s t (\<lambda>cols key. names_columns cols (cs @ conflict @ rs)
       \<and> list_all (\<lambda>col. fst col \<in> set cs \<or> fills_in col) cols
       \<and> (conflict = [] \<or> conflict = key \<or> list_ex (unique_column conflict) cols \<or> unique_index s t conflict))"
| "accepts s (Sql_update t cs ws) \<longleftrightarrow> over_table s t (\<lambda>cols _. names_columns cols (cs @ ws))"
| "accepts s (Sql_delete t ws) \<longleftrightarrow> over_table s t (\<lambda>cols _. names_columns cols ws)"

lemma fresh_accepts: "list_all (\<lambda>p. list_all (accepts fresh_schema) (pkg_sql p)) all_pkgs"
  by code_simp

lemma up_to_date_table:
  assumes "up_to_date s" "map_of fresh_schema t = Some (Table cols key)"
  obtains cols' where "map_of s t = Some (Table cols' key)" "set cols' = set cols"
proof -
  obtain r where r: "map_of s t = Some r" "same_relation r (Table cols key)"
    using assms unfolding up_to_date_iff by (metis option.case_eq_if option.collapse)
  then obtain cols' where "r = Table cols' key" "mset cols' = mset cols" by (auto simp: same_table)
  with r(1) that show ?thesis using mset_eq_setD by blast
qed

lemma over_table_up_to_date:
  assumes "up_to_date s" "over_table fresh_schema t P"
    and "\<And>cols cols' key. set cols' = set cols \<Longrightarrow> P cols key \<Longrightarrow> Q cols' key"
  shows "over_table s t Q"
proof -
  obtain cols key where t: "map_of fresh_schema t = Some (Table cols key)" "P cols key"
    using assms(2) by (auto simp: over_table_def split: option.splits relation.splits)
  then obtain cols' where "map_of s t = Some (Table cols' key)" "set cols' = set cols"
    using up_to_date_table [OF assms(1)] by blast
  with t(2) assms(3) show ?thesis by (auto simp: over_table_def)
qed

lemma unique_index_up_to_date:
  assumes "up_to_date s" "unique_index fresh_schema t cs"
  shows "unique_index s t cs"
proof -
  obtain n ks where n: "map_of fresh_schema n = Some (Index True t ks)" "map fst ks = cs"
    using assms(2) unfolding unique_index_def list_ex_iff
    by (fastforce simp del: map_of_eq_None_iff split: option.split_asm relation.split_asm)
  then obtain r where "map_of s n = Some r" "same_relation r (Index True t ks)"
    using assms(1) unfolding up_to_date_iff by (metis option.case_eq_if option.collapse)
  then have "map_of s n = Some (Index True t ks)" by (cases r) auto
  moreover from this have "n \<in> set (map fst s)" by (metis domI dom_map_of_conv_image_fst set_map)
  ultimately show ?thesis using n(2) unfolding unique_index_def list_ex_iff by (intro bexI [of _ n]) auto
qed

lemma up_to_date_accepts:
  assumes "up_to_date s" "q \<in> set (pkg_sql p)"
  shows "accepts s q"
proof -
  have "accepts fresh_schema q"
    using fresh_accepts assms(2) set_all_pkgs [of p] unfolding list_all_iff by blast
  then show ?thesis
    by (cases q) (auto simp: names_columns_def list_all_iff list_ex_iff
      elim!: over_table_up_to_date [OF assms(1)] dest: unique_index_up_to_date [OF assms(1)])
qed

section \<open>Properties\<close>

text \<open>
  C14. Migrations converge. Starting from a database in which each name of the library is free, or
  its relation, or the users table from before e-mail verification, any sequence of Migrate calls,
  in any order and with any failures and lost replies, keeps that so and leaves the host's own
  relations alone; once each store has reported success, every relation is the one a fresh
  deployment gets (up to the order of a table's columns: a column added later stands at the end) and
  each statement the stores send finds what it needs: its table and columns exist, an INSERT leaves
  out no column that needs a value, and a target of \<open>ON CONFLICT\<close> is unique (types are not compared).
\<close>

theorem migrations_converge:
  assumes "deployed (pg_rows db)" and "migrate_seq ps db = (rs, db')"
  shows "deployed (pg_rows db')
    \<and> (\<forall>n. map_of fresh_schema n = None \<longrightarrow> map_of (pg_rows db') n = map_of (pg_rows db) n)
    \<and> (list_all (\<lambda>p. (p, Inr ()) \<in> set rs) all_pkgs \<longrightarrow> up_to_date (pg_rows db')
        \<and> (\<forall>p. list_all (accepts (pg_rows db')) (pkg_sql p)))"
proof (intro conjI impI)
  note adv = migrate_seq_advances [OF assms(2,1)]
  show "deployed (pg_rows db')" "\<forall>n. map_of fresh_schema n = None \<longrightarrow> map_of (pg_rows db') n = map_of (pg_rows db) n"
    using adv by (simp_all add: advances_def)
  assume all: "list_all (\<lambda>p. (p, Inr ()) \<in> set rs) all_pkgs"
  have "(p, Inr ()) \<in> set rs" for p using all set_all_pkgs [of p] unfolding list_all_iff by blast
  then show up: "up_to_date (pg_rows db')" using adv by (intro established_all) (auto simp: advances_def)
  show "\<forall>p. list_all (accepts (pg_rows db')) (pkg_sql p)"
    unfolding list_all_iff using up_to_date_accepts [OF up] by blast
qed

definition example_catalogue :: catalogue where
  "example_catalogue = (pg_table [(''users'', old_users), (''posts'', Table [(''id'', Bigserial, [Primary_key])] [])] 0 0)
     \<lparr>pg_script := [Done, Lost ''connection reset'', Failed ''timeout'']\<rparr>"

theorem migrations_converge_witness:
  "(\<lambda>(rs, db). length rs = 11 \<and> fst (hd rs) = Pkg_users \<and> snd (hd rs) \<noteq> Inr () \<and> up_to_date (pg_rows db) \<and>
     list_all (accepts (pg_rows db)) heartbeat_sql \<and>
     map_of (pg_rows db) ''posts'' = Some (Table [(''id'', Bigserial, [Primary_key])] []))
   (migrate_seq (Pkg_users # Pkg_notify # all_pkgs) example_catalogue)"
proof -
  let ?res = "migrate_seq (Pkg_users # Pkg_notify # all_pkgs) example_catalogue"
  have dep: "deployed (pg_rows example_catalogue)" by code_simp
  have run: "?res = (fst ?res, snd ?res)" by (rule prod.collapse [symmetric])
  have all: "list_all (\<lambda>p. (p, Inr ()) \<in> set (fst ?res)) all_pkgs" by code_simp
  note converged = migrations_converge [OF dep run]
  have "map_of fresh_schema ''posts'' = None" by code_simp
  then have "map_of (pg_rows (snd ?res)) ''posts'' = map_of (pg_rows example_catalogue) ''posts''"
    using converged by blast
  moreover have "map_of (pg_rows example_catalogue) ''posts'' = Some (Table [(''id'', Bigserial, [Primary_key])] [])"
    by code_simp
  moreover have "up_to_date (pg_rows (snd ?res))" "list_all (accepts (pg_rows (snd ?res))) (pkg_sql Pkg_heartbeat)"
    using converged all by blast+
  moreover have "pkg_sql Pkg_heartbeat = heartbeat_sql" by simp
  moreover have "length (fst ?res) = 11 \<and> fst (hd (fst ?res)) = Pkg_users \<and> snd (hd (fst ?res)) \<noteq> Inr ()"
    by code_simp
  ultimately show ?thesis by (simp only: case_prod_beta) blast
qed

text \<open>
  C15. In a database that answers, the Migrate functions need no particular order: from every such
  schema each one succeeds, and once all have run, running any of them again, whatever their
  statements then do, changes nothing.
\<close>

theorem migrations_settle:
  assumes "deployed (pg_rows db)" "healthy db" "list_all (\<lambda>p. p \<in> set ps) all_pkgs"
    and "migrate_seq ps db = (rs, db')"
  shows "rs = map (\<lambda>p. (p, Inr ())) ps \<and> up_to_date (pg_rows db')
    \<and> pg_rows (snd (migrate_seq qs (db'\<lparr>pg_script := os\<rparr>))) = pg_rows db'"
proof (intro conjI)
  show rs: "rs = map (\<lambda>p. (p, Inr ())) ps" using migrate_seq_succeeds [OF assms(2,1), of ps] assms(4) by auto
  have adv: "advances (pg_rows db) (pg_rows db') \<and>
      (\<forall>p. (p, Inr ()) \<in> set rs \<longrightarrow> (\<forall>d\<in>set (pkg_ddl p). established d (pg_rows db')))"
    using assms(4,1) by (rule migrate_seq_advances)
  have "(p, Inr ()) \<in> set rs" for p
    using assms(3) set_all_pkgs [of p] unfolding list_all_iff rs by fastforce
  then show up: "up_to_date (pg_rows db')" using adv by (intro established_all) (auto simp: advances_def)
  show "pg_rows (snd (migrate_seq qs (db'\<lparr>pg_script := os\<rparr>))) = pg_rows db'"
    using migrate_seq_idle [of "db'\<lparr>pg_script := os\<rparr>" qs] up by simp
qed

theorem migrations_settle_witness:
  "(\<lambda>(rs, db). length rs = 9 \<and> up_to_date (pg_rows db) \<and>
      pg_rows (snd (migrate_seq [Pkg_users] (db\<lparr>pg_script := [Lost ''timeout'']\<rparr>))) = pg_rows db)
   (migrate_seq (rev all_pkgs) (pg_table [(''users'', old_users)] 0 0))"
proof -
  let ?db = "pg_table [(''users'', old_users)] 0 0 :: catalogue"
  let ?res = "migrate_seq (rev all_pkgs) ?db"
  have dep: "deployed (pg_rows ?db)" by code_simp
  have all: "list_all (\<lambda>p. p \<in> set (rev all_pkgs)) all_pkgs" by code_simp
  have run: "?res = (fst ?res, snd ?res)" by (rule prod.collapse [symmetric])
  have "length (fst ?res) = 9"
    using migrations_settle [OF dep healthy_table all run] by (simp add: all_pkgs_def)
  then show ?thesis
    using migrations_settle [OF dep healthy_table all run, of "[Pkg_users]" "[Lost ''timeout'']"]
    by (simp only: case_prod_beta)
qed

text \<open>
  A plugin that reads \<open>user_display\<close> sees of an account its id, its name and the name the
  account page shows for its role, in lower case, an empty avatar and reputation zero: nothing of
  its e-mail address, password hash or verification.
\<close>

theorem user_display_discloses:
  "map_of fresh_schema ''user_display'' = Some (View
      [(''id'', Bigint), (''username'', Text), (''role'', Text), (''avatar_path'', Text), (''reputation_tier'', Smallint)]
      user_display ''users'') \<and>
   eval_view (users_column u) user_display =
     [(''id'', Some (V_int (u_ID u))), (''username'', Some (V_text (u_Username u))),
      (''role'', Some (V_text (map ascii_lower (account_roleName (u_Role u))))),
      (''avatar_path'', Some (V_text [])), (''reputation_tier'', Some (V_int 0))]"
proof
  show "map_of fresh_schema ''user_display'' = Some (View
      [(''id'', Bigint), (''username'', Text), (''role'', Text), (''avatar_path'', Text), (''reputation_tier'', Smallint)]
      user_display ''users'')"
    by code_simp
  have names: "map ascii_lower ''Banned'' = ''banned''" "map ascii_lower ''Disabled'' = ''disabled''"
    "map ascii_lower ''Contributor'' = ''contributor''" "map ascii_lower ''Mod'' = ''mod''"
    "map ascii_lower ''Admin'' = ''admin''" "map ascii_lower ''User'' = ''user''"
    by code_simp+
  have role: "map ascii_lower (account_roleName r) =
      (if r = -2 then ''banned'' else if r = -1 then ''disabled'' else if r = 1 then ''contributor''
       else if r = 2 then ''mod'' else if r = 3 then ''admin'' else ''user'')" for r
    unfolding account_roleName_def by (simp only: names split: if_split) simp
  show "eval_view (users_column u) user_display =
     [(''id'', Some (V_int (u_ID u))), (''username'', Some (V_text (u_Username u))),
      (''role'', Some (V_text (map ascii_lower (account_roleName (u_Role u))))),
      (''avatar_path'', Some (V_text [])), (''reputation_tier'', Some (V_int 0))]"
    unfolding role by (simp add: eval_view_def user_display_def)
qed

end
