(* ===== verification/Pages.thy ===== *)
theory Pages
  imports Account Adminusers Apikey Loginlog Notify Profile
begin

text \<open>
  The template files of the account, adminusers, apikey, loginlog, notify and profile packages, as
  functions from the data the handlers pass to the text that html/template writes: literal text is
  copied, template comments vanish, a string goes through the HTML escaper, an integer through its
  decimal text, and the inbox link through the URL filter and normaliser first. The theorems show
  that no value a user controls adds markup to a page or a script to a link.
\<close>

section \<open>What html/template does to values\<close>

primrec join_lines :: "string list \<Rightarrow> string" where
  "join_lines [] = []"
| "join_lines (l # ls) = (if ls = [] then l else l @ [CHR 0x0A] @ join_lines ls)"

definition emdash :: string where
  "emdash = [CHR 0xE2, CHR 0x80, CHR 0x94]"

text \<open>
  \<open>strings.EqualFold\<close> against a word in lower-case ASCII. The long s (C5 BF in UTF-8) folds to s.
\<close>

fun EqualFold :: "string \<Rightarrow> string \<Rightarrow> bool" where
  "EqualFold s [] \<longleftrightarrow> s = []"
| "EqualFold [] (t # ts) \<longleftrightarrow> False"
| "EqualFold (c # s) (t # ts) \<longleftrightarrow>
     ascii_lower c = t \<and> EqualFold s ts
     \<or> t = CHR ''s'' \<and> c = CHR 0xC5 \<and> s \<noteq> [] \<and> hd s = CHR 0xBF \<and> EqualFold (tl s) ts"

definition safe_schemes :: "string list" where
  "safe_schemes = [''http'', ''https'', ''mailto'']"

text \<open>\<open>isSafeURL\<close>, \<open>urlFilter\<close> and \<open>urlNormalizer\<close> of html/template.\<close>

definition isSafeURL :: "string \<Rightarrow> bool" where
  "isSafeURL s =
     (let protocol = takeWhile (\<lambda>c. c \<noteq> CHR '':'') s
      in if CHR '':'' \<in> set s \<and> CHR ''/'' \<notin> set protocol then list_ex (EqualFold protocol) safe_schemes else True)"

definition url_filter :: "string \<Rightarrow> string" where
  "url_filter s = (if isSafeURL s then s else ''#ZgotmplZ'')"

definition is_alnum :: "char \<Rightarrow> bool" where
  "is_alnum c = (let n = (of_char c :: nat) in
     48 \<le> n \<and> n \<le> 57 \<or> 65 \<le> n \<and> n \<le> 90 \<or> 97 \<le> n \<and> n \<le> 122)"

definition isHex :: "char \<Rightarrow> bool" where
  "isHex c = (let n = (of_char c :: nat) in
     48 \<le> n \<and> n \<le> 57 \<or> 65 \<le> n \<and> n \<le> 70 \<or> 97 \<le> n \<and> n \<le> 102)"

definition url_kept :: "char \<Rightarrow> bool" where
  "url_kept c \<longleftrightarrow> is_alnum c \<or> c \<in> set ''!#$&*+,/:;=?@[]-._~''"

definition hex_escape :: "char \<Rightarrow> string" where
  "hex_escape c = CHR ''%'' # hex_byte c"

fun url_normalize :: "string \<Rightarrow> string" where
  "url_normalize [] = []"
| "url_normalize (c # s) =
     (if url_kept c \<or> c = CHR ''%'' \<and> 2 \<le> length s \<and> isHex (s ! 0) \<and> isHex (s ! 1) then [c] else hex_escape c)
     @ url_normalize s"

section \<open>The account page\<close>

definition account_html :: "account_page \<Rightarrow> string" where
  \<open>account_html p =
     join_lines
      [[],
       ''<style>'',
       ''  .acct-cols{display:flex;gap:1rem;flex-wrap:wrap;align-items:flex-start}'',
       ''  .acct-cols>.acct-col{flex:1 1 15rem;min-width:14rem}'',
       ''  .acct-cols>.acct-col.wide{flex:2 1 18rem;min-width:16rem}'',
       ''  .acct-dl{display:grid;grid-template-columns:auto 1fr;gap:.4rem .9rem;margin:0;font-size:.9rem}'',
       ''  .acct-dl dt{opacity:.6;font-weight:400}'',
       ''  .acct-dl dd{margin:0}'',
       ''  .acct-field{margin-bottom:.6rem}'',
       ''  .acct-field label{display:block;font-size:.82rem;opacity:.7;margin-bottom:.2rem}'',
       ''</style>'',
       (if ap_Msg p \<noteq> [] then ''<div class="alert" style="border-color:var(--success,#3ba55d);color:var(--success,#3ba55d);padding:.4rem .6rem;margin-bottom:1rem">'' @ html_escape (ap_Msg p) @ ''</div>'' else []),
       (if ap_Err p \<noteq> [] then ''<div class="alert" style="border-color:var(--danger,#e5534b);color:var(--danger,#e5534b);padding:.4rem .6rem;margin-bottom:1rem">'' @ html_escape (ap_Err p) @ ''</div>'' else []),
       ''<div class="acct-cols">'',
       ''  <div class="acct-col">'',
       ''    <div class="card">'',
       ''      <div class="card-body">'',
       ''        <h2 class="card-title" style="margin:0 0 .75rem">Profile</h2>'',
       ''        <dl class="acct-dl">'',
       ''          <dt>Username</dt><dd>'' @ html_escape (cu_Username (ap_User p)) @ ''</dd>'',
       ''          <dt>Email</dt><dd>'' @ (if cu_Email (ap_User p) \<noteq> [] then html_escape (cu_Email (ap_User p)) else ''<span style="opacity:.6">not set</span>'') @ ''</dd>'',
       ''          <dt>Role</dt><dd>'' @ html_escape (ap_RoleName p) @ ''</dd>'',
       ''          <dt>Joined</dt><dd>'' @ html_escape (ap_Joined p) @ ''</dd>'',
       ''        </dl>'',
       ''      </div>'',
       ''    </div>'',
       ''  </div>'',
       ''  <div class="acct-col wide">'',
       ''    <div class="card">'',
       ''      <div class="card-body">'',
       ''        <h2 class="card-title" style="margin:0 0 .75rem">Change password</h2>'',
       ''        <form method="post" action="/p/account/change-password">'',
       ''          <input type="hidden" name="_csrf" value="'' @ html_escape (ap_CSRFToken p) @ ''">'',
       ''          <div class="acct-field">'',
       ''            <label for="acct-current-password">Current password</label>'',
       ''            <input type="password" id="acct-current-password" name="current_password" class="form-control form-control-sm" required autocomplete="current-password">'',
       ''          </div>'',
       ''          <div class="acct-field">'',
       ''            <label for="acct-new-password">New password</label>'',
       ''            <input type="password" id="acct-new-password" name="new_password" class="form-control form-control-sm" required autocomplete="new-password" minlength="8">'',
       ''          </div>'',
       ''          <div class="acct-field" style="margin-bottom:.9rem">'',
       ''            <label for="acct-confirm-password">Confirm new password</label>'',
       ''            <input type="password" id="acct-confirm-password" name="confirm_password" class="form-control form-control-sm" required autocomplete="new-password" minlength="8">'',
       ''          </div>'',
       ''          <button type="submit" class="btn btn-primary btn-sm">Update password</button>'',
       ''        </form>'',
       ''      </div>'',
       ''    </div>'',
       ''  </div>'',
       ''</div>'',
       []]\<close>

section \<open>The user administration\<close>

definition role_option :: "admin_row \<Rightarrow> int \<times> string \<Rightarrow> string" where
  \<open>role_option u r =
     join_lines
      [''<option value="'' @ Itoa (fst r) @ ''"'' @ (if fst r = ur_Role u then '' selected'' else []) @ ''>'' @ html_escape (snd r) @ ''</option>'']\<close>

definition user_html :: "users_page \<Rightarrow> admin_row \<Rightarrow> string" where
  \<open>user_html p u =
     join_lines
      [[],
       ''        '',
       ''        <tr>'',
       ''          <td>'' @ html_escape (ur_Username u) @ '' <span class="text-muted small">#'' @ Itoa (ur_ID u) @ ''</span></td>'',
       ''          <td class="text-muted small">'' @ (if ur_Email u \<noteq> [] then html_escape (ur_Email u) else ''&mdash;'') @ ''</td>'',
       ''          <td>'',
       ''            <form method="post" action="/admin/p/users/set-role" class="d-inline-flex gap-1">'',
       ''            <input type="hidden" name="_csrf" value="'' @ html_escape (up_CSRFToken p) @ ''">'',
       ''              <input type="hidden" name="user_id" value="'' @ Itoa (ur_ID u) @ ''">'',
       ''              <select aria-label="Role" name="role" class="form-select form-select-sm" style="width:auto">'',
       ''                '' @ concat (map (role_option u) (up_Roles p)),
       ''              </select>'',
       ''              <button class="btn btn-sm btn-outline-secondary" type="submit">Set</button>'',
       ''            </form>'',
       ''          </td>'',
       ''          <td class="small text-muted">'' @ html_escape (ur_Joined u) @ ''</td>'',
       ''          <td>'',
       ''            <form method="post" action="/admin/p/users/reset-password" class="d-inline-flex gap-1">'',
       ''            <input type="hidden" name="_csrf" value="'' @ html_escape (up_CSRFToken p) @ ''">'',
       ''              <input type="hidden" name="user_id" value="'' @ Itoa (ur_ID u) @ ''">'',
       ''              <input aria-label="New password" type="text" name="password" class="form-control form-control-sm" placeholder="new password" style="width:9rem" autocomplete="off">'',
       ''              <button class="btn btn-sm btn-outline-secondary" type="submit">Reset</button>'',
       ''            </form>'',
       ''          </td>'',
       ''        </tr>'',
       ''        '']\<close>

definition users_html :: "users_page \<Rightarrow> string" where
  \<open>users_html p =
     join_lines
      [(if up_Msg p \<noteq> [] then ''<div class="alert alert-success py-1 px-2 mb-2">'' @ html_escape (up_Msg p) @ ''</div>'' else []),
       (if up_Err p \<noteq> [] then ''<div class="alert alert-danger py-1 px-2 mb-2">'' @ html_escape (up_Err p) @ ''</div>'' else []),
       ''<div class="card">'',
       ''  <div class="table-responsive">'',
       ''    <table class="table table-sm mb-0 align-middle">'',
       ''            <caption class="visually-hidden">Site members</caption>'',
       ''      <thead>'',
       ''        <tr><th>User</th><th>Email</th><th>Role</th><th>Joined</th><th>Reset password</th></tr>'',
       ''      </thead>'',
       ''      <tbody>'',
       ''        '' @ concat (map (user_html p) (up_Users p)),
       ''      </tbody>'',
       ''    </table>'',
       ''  </div>'',
       ''</div>'',
       ''<p class="text-muted small mt-2 mb-0">'' @ Itoa (up_Total p) @ '' user'' @ (if up_Total p \<noteq> 1 then ''s'' else []) @ ''</p>'',
       []]\<close>

section \<open>The API key\<close>

definition day_html :: "usage_day \<Rightarrow> string" where
  \<open>day_html d =
     join_lines
      [[],
       ''      <div class="d-flex flex-column align-items-center" style="flex:1;min-width:0;height:100%">'',
       ''        <div class="w-100 d-flex align-items-end" style="flex:1;background:var(--bs-border-color, rgba(128,128,128,.15));border-radius:2px">'',
       ''          <div class="w-100" style="height:'' @ Itoa (ud_Pct d) @ ''%;border-radius:2px;background:'' @ (if ud_Over d then ''var(--bs-danger, #d9534f)'' else ''var(--bs-primary, #4a7dcf)'') @ ''"'',
       ''               title="'' @ html_escape (ud_Label d) @ '': '' @ Itoa (ud_Count d) @ '' requests"></div>'',
       ''        </div>'',
       ''        <span class="text-muted" style="font-size:0.6rem;white-space:nowrap;overflow:hidden;max-width:100%">'' @ html_escape (ud_Label d) @ ''</span>'',
       ''      </div>'',
       ''      '']\<close>

definition usage_html :: "usage \<Rightarrow> string" where
  \<open>usage_html u =
     join_lines
      [[],
       ''<div class="card mt-3">'',
       ''  <div class="card-body">'',
       ''    <h2 class="card-title mb-1">API usage</h2>'',
       ''    <p class="text-muted small mb-3">'',
       ''      Requests per day'' @ (if ug_Limit u \<noteq> 0 then '', against your daily limit of '' @ Itoa (ug_Limit u) else []) @ ''.'',
       ''    </p>'',
       ''    '',
       ''    <div class="d-flex align-items-end gap-1" style="height:96px" role="img"'',
       ''         aria-label="Daily API requests'' @ (if ug_Limit u \<noteq> 0 then '', limit '' @ Itoa (ug_Limit u) @ '' per day'' else []) @ ''">'',
       ''      '' @ concat (map day_html (ug_Days u)),
       ''    </div>'',
       ''    <p class="text-muted small mb-0 mt-2">'',
       ''      Today: <strong>'' @ Itoa (ug_Today u) @ ''</strong>'' @ (if ug_Limit u \<noteq> 0 then '' / '' @ Itoa (ug_Limit u) else []),
       ''      &middot; last 7 days: <strong>'' @ Itoa (ug_Week u) @ ''</strong>'',
       ''    </p>'',
       ''  </div>'',
       ''</div>'',
       []]\<close>

definition apikey_html :: "key_page \<Rightarrow> string" where
  \<open>apikey_html p =
     join_lines
      [(if kp_Msg p \<noteq> [] then ''<div class="alert alert-success py-1 px-2 mb-3">'' @ html_escape (kp_Msg p) @ ''</div>'' else []),
       ''<div class="card">'',
       ''  <div class="card-body">'',
       ''    <h2 class="card-title mb-1">Your API key</h2>'',
       ''    <p class="text-muted small mb-3">'',
       ''      Use this in Newznab/Torznab clients (Sonarr, Radarr, Prowlarr). Treat it'',
       ''      like a password '' @ emdash @ '' it grants access to your account's API.'',
       ''      '' @ (if kp_Rotated p \<noteq> [] then ''<br>Last regenerated: '' @ html_escape (kp_Rotated p) @ ''.'' else []),
       ''    </p>'',
       ''    <div class="input-group input-group-sm mb-3">'',
       ''      <input type="text" class="form-control font-monospace" value="'' @ html_escape (kp_Key p) @ ''" readonly'',
       ''             onclick="this.select()" aria-label="API key">'',
       ''    </div>'',
       ''    <form method="post" action="/p/api-key/regenerate"'',
       ''          onsubmit="return confirm('Regenerate your API key?'' @ [CHR 0x5C] @ ''n'' @ [CHR 0x5C] @ ''nThe current key stops working immediately. Update the API key in your connected apps (Sonarr, Radarr, Prowlarr) with the new value.');">'',
       ''          <input type="hidden" name="_csrf" value="'' @ html_escape (kp_CSRFToken p) @ ''">'',
       ''      <button type="submit" class="btn btn-outline-danger btn-sm">Regenerate key</button>'',
       ''      <span class="text-muted small ms-2">Invalidates the current key immediately '' @ emdash @ '' update the new key in your connected apps.</span>'',
       ''    </form>'',
       ''  </div>'',
       ''</div>'',
       [],
       (case kp_Usage p of None \<Rightarrow> [] | Some u \<Rightarrow> usage_html u),
       []]\<close>

section \<open>Login logs\<close>

definition admin_log_row :: "log_row \<Rightarrow> string" where
  \<open>admin_log_row r =
     join_lines
      [[],
       ''        <tr>'',
       ''          <td class="small text-muted">'' @ html_escape (lr_When r) @ ''</td>'',
       ''          <td>'' @ (if lr_User r \<noteq> [] then html_escape (lr_User r) else ''<span class="text-muted">&mdash;</span>'') @ (if lr_UserID r \<noteq> 0 then '' <span class="text-muted small">#'' @ Itoa (lr_UserID r) @ ''</span>'' else []) @ ''</td>'',
       ''          <td class="small"><code>'' @ (if lr_IPShort r \<noteq> [] then html_escape (lr_IPShort r) @ ''&hellip;'' else ''&mdash;'') @ ''</code></td>'',
       ''          <td>'' @ (if lr_Success r then ''<span class="badge bg-success">success</span>'' else ''<span class="badge bg-danger">failed</span>'') @ ''</td>'',
       ''        </tr>'',
       ''        '']\<close>

definition admin_log_rows_none :: "string" where
  \<open>admin_log_rows_none =
     join_lines
      [[],
       ''        <tr><td colspan="4" class="text-muted small">No login attempts recorded yet.</td></tr>'',
       ''        '']\<close>

definition admin_log_html :: "log_row list \<Rightarrow> string" where
  \<open>admin_log_html rows =
     join_lines
      [''<div class="card">'',
       ''  <div class="table-responsive">'',
       ''    <table class="table table-sm mb-0 align-middle">'',
       ''            <caption class="visually-hidden">Sign-ins across the site</caption>'',
       ''      <thead>'',
       ''        <tr><th>When</th><th>User</th><th>IP (hashed)</th><th>Result</th></tr>'',
       ''      </thead>'',
       ''      <tbody>'',
       ''        '' @ (if rows = [] then admin_log_rows_none else concat (map admin_log_row rows)),
       ''      </tbody>'',
       ''    </table>'',
       ''  </div>'',
       ''</div>'',
       ''<p class="text-muted small mt-2 mb-0">Most recent '' @ Itoa (int (length rows)) @ '' attempts. IPs are stored hashed, never in the clear.</p>'',
       []]\<close>

definition user_log_row :: "log_row \<Rightarrow> string" where
  \<open>user_log_row r =
     join_lines
      [[],
       ''          <tr>'',
       ''            <td class="small text-muted">'' @ html_escape (lr_When r) @ ''</td>'',
       ''            <td class="small"><code>'' @ (if lr_IPShort r \<noteq> [] then html_escape (lr_IPShort r) @ ''&hellip;'' else ''&mdash;'') @ ''</code></td>'',
       ''            <td>'' @ (if lr_Success r then ''<span class="badge bg-success">success</span>'' else ''<span class="badge bg-danger">failed</span>'') @ ''</td>'',
       ''          </tr>'',
       ''          '']\<close>

definition user_log_rows_none :: "string" where
  \<open>user_log_rows_none =
     join_lines
      [[],
       ''          <tr><td colspan="3" class="text-muted small">No sign-ins recorded yet.</td></tr>'',
       ''          '']\<close>

definition user_log_html :: "log_row list \<Rightarrow> string" where
  \<open>user_log_html rows =
     join_lines
      [''<div class="card">'',
       ''  <div class="card-body">'',
       ''    <h5 class="card-title mb-1">Recent sign-ins</h5>'',
       ''    <p class="text-muted small mb-3">Sign-in attempts on your account. If you see one you don't recognise, change your password on the <a href="/p/account">account page</a>.</p>'',
       ''    <div class="table-responsive">'',
       ''      <table class="table table-sm mb-0 align-middle">'',
       ''            <caption class="visually-hidden">Your recent sign-ins</caption>'',
       ''        <thead>'',
       ''          <tr><th>When</th><th>IP fingerprint</th><th>Result</th></tr>'',
       ''        </thead>'',
       ''        <tbody>'',
       ''          '' @ (if rows = [] then user_log_rows_none else concat (map user_log_row rows)),
       ''        </tbody>'',
       ''      </table>'',
       ''    </div>'',
       ''  </div>'',
       ''</div>'',
       []]\<close>

section \<open>The inbox\<close>

definition item_html :: "(time \<Rightarrow> int) \<Rightarrow> item \<Rightarrow> string" where
  \<open>item_html zone i =
     join_lines
      [[],
       ''  <div class="list-group-item '' @ (if \<not> it_Read i then ''list-group-item-primary'' else []) @ ''">'',
       ''    <div class="d-flex justify-content-between align-items-start">'',
       ''      <strong>'' @ (if \<not> it_Read i then ''&bull; '' else []) @ html_escape (it_Title i) @ ''</strong>'',
       ''      <span class="small text-muted ms-2">'' @ html_escape (format_minute zone (it_CreatedAt i)) @ ''</span>'',
       ''    </div>'',
       ''    '' @ (if it_Body i \<noteq> [] then ''<div class="small text-muted">'' @ html_escape (it_Body i) @ ''</div>'' else []),
       ''    '' @ (if it_Link i \<noteq> [] then ''<a class="small" href="'' @ html_escape (url_normalize (url_filter (it_Link i))) @ ''">View</a>'' else []),
       ''  </div>'',
       ''  '']\<close>

definition inbox_items :: "(time \<Rightarrow> int) \<Rightarrow> item list \<Rightarrow> string \<Rightarrow> string" where
  \<open>inbox_items zone items csrf =
     join_lines
      [[],
       ''<div class="list-group mb-3">'',
       ''  '' @ concat (map (item_html zone) items),
       ''</div>'',
       ''<form method="post" action="/p/inbox/read-all">'',
       ''          <input type="hidden" name="_csrf" value="'' @ html_escape csrf @ ''">'',
       ''  <button class="btn btn-sm btn-outline-secondary" type="submit">Mark all read</button>'',
       ''</form>'',
       []]\<close>

definition inbox_none :: "string" where
  \<open>inbox_none =
     join_lines
      [[],
       ''<div class="empty">No notifications yet.</div>'',
       []]\<close>

definition inbox_html :: "(time \<Rightarrow> int) \<Rightarrow> item list \<Rightarrow> string \<Rightarrow> string" where
  \<open>inbox_html zone items csrf =
     join_lines
      [(if items \<noteq> [] then inbox_items zone items csrf else inbox_none),
       []]\<close>

section \<open>The profile card\<close>

definition summary_html :: "string \<Rightarrow> string \<Rightarrow> string" where
  \<open>summary_html role joined =
     join_lines
      [''<div class="card-body">'',
       ''  '',
       ''  <h3 class="card-title h6" style="margin:0 0 .5rem">Profile</h3>'',
       ''  '',
       ''  <dl style="display:grid;grid-template-columns:auto 1fr;gap:.3rem .75rem;margin:0;font-size:.85rem">'',
       ''    <dt style="opacity:.6;font-weight:400">Role</dt><dd style="margin:0">'' @ html_escape role @ ''</dd>'',
       ''    <dt style="opacity:.6;font-weight:400">Joined</dt><dd style="margin:0">'' @ html_escape joined @ ''</dd>'',
       ''  </dl>'',
       ''</div>'',
       []]\<close>

section \<open>The markup of a page\<close>

text \<open>
  The markup characters of a text: what opens and closes tags and attribute values. A value is
  blanked by reducing it to one letter, keeping whether it is empty (the templates test that).
\<close>

definition markup :: "string \<Rightarrow> string" where
  "markup s = filter (\<lambda>c. c \<in> {CHR ''<'', CHR ''>'', CHR 0x22, CHR 0x27}) s"

definition blank :: "string \<Rightarrow> string" where
  "blank s = (if s = [] then [] else ''x'')"

lemma markup_append: "markup (s @ t) = markup s @ markup t"
  by (simp add: markup_def)

lemma markup_Nil: "markup [] = []"
  by (simp add: markup_def)

lemma markup_escape: "markup (html_escape s) = []"
  unfolding markup_def using html_escape_safe by (auto simp: filter_empty_conv)

lemma markup_utoa: "markup (utoa n) = []"
  by (auto simp: markup_def filter_empty_conv is_digit_def dest: utoa_digits)

lemma markup_Itoa: "markup (Itoa i) = []"
proof -
  have "markup (CHR ''-'' # s) = markup s" for s by (simp add: markup_def)
  then show ?thesis by (simp add: Itoa_def markup_utoa)
qed

lemma markup_join: "markup (join_lines ls) = concat (map markup ls)"
proof (induction ls)
  case (Cons l ls)
  have "markup [CHR 0x0A] = []" by (simp add: markup_def)
  then have "markup (CHR 0x0A # t) = markup t" for t using markup_append [of "[CHR 0x0A]" t] by simp
  then show ?case using Cons by (simp add: markup_append)
qed (simp add: markup_Nil)

lemma markup_concat: "markup (concat ss) = concat (map markup ss)"
  by (induction ss) (simp_all add: markup_append markup_Nil)

lemma markup_map: "(\<And>x. markup (f' (h x)) = markup (f x)) \<Longrightarrow>
   markup (concat (map f' (map h xs))) = markup (concat (map f xs))"
  by (simp add: markup_concat comp_def)

lemma markup_if: "markup (if b then s else t) = (if b then markup s else markup t)"
  by simp

lemma blank_iff: "blank s = [] \<longleftrightarrow> s = []"
  by (simp add: blank_def)

lemmas markup_simps = markup_append markup_Nil markup_escape markup_Itoa markup_join markup_if
  blank_iff list.map concat.simps append.simps(1) append_Nil2

definition blank_user :: "core_user \<Rightarrow> core_user" where
  "blank_user u = u\<lparr>cu_Username := blank (cu_Username u), cu_Email := blank (cu_Email u)\<rparr>"

definition blank_account :: "account_page \<Rightarrow> account_page" where
  "blank_account p = \<lparr>ap_User = blank_user (ap_User p), ap_RoleName = blank (ap_RoleName p), ap_Joined = blank (ap_Joined p),
     ap_Msg = blank (ap_Msg p), ap_Err = blank (ap_Err p), ap_CSRFToken = blank (ap_CSRFToken p)\<rparr>"

lemma blank_account_sel:
  "ap_User (blank_account p) = blank_user (ap_User p)" "ap_RoleName (blank_account p) = blank (ap_RoleName p)"
  "ap_Joined (blank_account p) = blank (ap_Joined p)" "ap_Msg (blank_account p) = blank (ap_Msg p)"
  "ap_Err (blank_account p) = blank (ap_Err p)" "ap_CSRFToken (blank_account p) = blank (ap_CSRFToken p)"
  "cu_Username (blank_user u) = blank (cu_Username u)" "cu_Email (blank_user u) = blank (cu_Email u)"
  by (simp_all add: blank_account_def blank_user_def)

lemma account_markup: "markup (account_html (blank_account p)) = markup (account_html p)"
  by (simp only: account_html_def markup_simps blank_account_sel)


definition blank_row :: "admin_row \<Rightarrow> admin_row" where
  "blank_row u = u\<lparr>ur_Username := blank (ur_Username u), ur_Email := blank (ur_Email u), ur_Joined := blank (ur_Joined u)\<rparr>"

definition blank_users :: "users_page \<Rightarrow> users_page" where
  "blank_users p = \<lparr>up_Users = map blank_row (up_Users p), up_Roles = map (\<lambda>(v, l). (v, blank l)) (up_Roles p),
     up_Total = up_Total p, up_Msg = blank (up_Msg p), up_Err = blank (up_Err p), up_CSRFToken = blank (up_CSRFToken p)\<rparr>"

lemma blank_users_sel:
  "up_Users (blank_users p) = map blank_row (up_Users p)"
  "up_Roles (blank_users p) = map (\<lambda>(v, l). (v, blank l)) (up_Roles p)"
  "up_Total (blank_users p) = up_Total p" "up_Msg (blank_users p) = blank (up_Msg p)"
  "up_Err (blank_users p) = blank (up_Err p)" "up_CSRFToken (blank_users p) = blank (up_CSRFToken p)"
  "ur_ID (blank_row u) = ur_ID u" "ur_Username (blank_row u) = blank (ur_Username u)"
  "ur_Email (blank_row u) = blank (ur_Email u)" "ur_Role (blank_row u) = ur_Role u" "ur_Joined (blank_row u) = blank (ur_Joined u)"
  by (simp_all add: blank_users_def blank_row_def)

lemma role_option_markup: "markup (role_option (blank_row u) (case r of (v, l) \<Rightarrow> (v, blank l))) = markup (role_option u r)"
  by (cases r) (simp only: role_option_def markup_simps blank_users_sel prod.case fst_conv snd_conv)

lemma user_html_markup: "markup (user_html (blank_users p) (blank_row u)) = markup (user_html p u)"
  by (simp only: user_html_def markup_simps blank_users_sel markup_map [of "role_option (blank_row u)" "\<lambda>(v, l). (v, blank l)" "role_option u", OF role_option_markup])

lemma users_markup: "markup (users_html (blank_users p)) = markup (users_html p)"
  by (simp only: users_html_def markup_simps blank_users_sel markup_map [of "user_html (blank_users p)" blank_row "user_html p", OF user_html_markup])

definition blank_day :: "usage_day \<Rightarrow> usage_day" where
  "blank_day d = d\<lparr>ud_Label := blank (ud_Label d)\<rparr>"

definition blank_usage :: "usage \<Rightarrow> usage" where
  "blank_usage u = u\<lparr>ug_Days := map blank_day (ug_Days u)\<rparr>"

definition blank_key :: "key_page \<Rightarrow> key_page" where
  "blank_key p = \<lparr>kp_Key = blank (kp_Key p), kp_Rotated = blank (kp_Rotated p), kp_Msg = blank (kp_Msg p),
     kp_Usage = map_option blank_usage (kp_Usage p), kp_CSRFToken = blank (kp_CSRFToken p)\<rparr>"

lemma blank_key_sel:
  "kp_Key (blank_key p) = blank (kp_Key p)" "kp_Rotated (blank_key p) = blank (kp_Rotated p)"
  "kp_Msg (blank_key p) = blank (kp_Msg p)" "kp_Usage (blank_key p) = map_option blank_usage (kp_Usage p)"
  "kp_CSRFToken (blank_key p) = blank (kp_CSRFToken p)"
  "ug_Days (blank_usage u) = map blank_day (ug_Days u)" "ug_Limit (blank_usage u) = ug_Limit u"
  "ug_Today (blank_usage u) = ug_Today u" "ug_Week (blank_usage u) = ug_Week u"
  "ud_Label (blank_day d) = blank (ud_Label d)" "ud_Count (blank_day d) = ud_Count d"
  "ud_Pct (blank_day d) = ud_Pct d" "ud_Over (blank_day d) = ud_Over d"
  by (simp_all add: blank_key_def blank_usage_def blank_day_def)

lemma day_markup: "markup (day_html (blank_day d)) = markup (day_html d)"
  by (simp only: day_html_def markup_simps blank_key_sel)

lemma usage_markup: "markup (usage_html (blank_usage u)) = markup (usage_html u)"
  by (simp only: usage_html_def markup_simps blank_key_sel markup_map [of day_html blank_day day_html, OF day_markup])

lemma usage_opt_markup:
  "markup (case map_option blank_usage z of None \<Rightarrow> [] | Some u \<Rightarrow> usage_html u) =
   markup (case z of None \<Rightarrow> [] | Some u \<Rightarrow> usage_html u)"
  by (cases z) (simp_all add: usage_markup)

lemma key_markup: "markup (apikey_html (blank_key p)) = markup (apikey_html p)"
  by (simp only: apikey_html_def markup_simps blank_key_sel usage_opt_markup)

definition blank_log :: "log_row \<Rightarrow> log_row" where
  "blank_log r = r\<lparr>lr_When := blank (lr_When r), lr_User := blank (lr_User r), lr_IPShort := blank (lr_IPShort r)\<rparr>"

lemma blank_log_sel:
  "lr_When (blank_log r) = blank (lr_When r)" "lr_User (blank_log r) = blank (lr_User r)"
  "lr_UserID (blank_log r) = lr_UserID r" "lr_IPShort (blank_log r) = blank (lr_IPShort r)"
  "lr_Success (blank_log r) = lr_Success r"
  by (simp_all add: blank_log_def)

lemma log_row_markup:
  "markup (admin_log_row (blank_log r)) = markup (admin_log_row r)"
  "markup (user_log_row (blank_log r)) = markup (user_log_row r)"
  by (simp_all only: admin_log_row_def user_log_row_def markup_simps blank_log_sel)

lemma log_markup:
  "markup (admin_log_html (map blank_log rows)) = markup (admin_log_html rows)"
  "markup (user_log_html (map blank_log rows)) = markup (user_log_html rows)"
  by (simp_all only: admin_log_html_def user_log_html_def markup_simps map_is_Nil_conv length_map
      markup_map [of admin_log_row blank_log admin_log_row, OF log_row_markup(1)]
      markup_map [of user_log_row blank_log user_log_row, OF log_row_markup(2)])

definition blank_item :: "item \<Rightarrow> item" where
  "blank_item i = i\<lparr>it_Title := blank (it_Title i), it_Body := blank (it_Body i), it_Link := blank (it_Link i)\<rparr>"

lemma blank_item_sel:
  "it_Title (blank_item i) = blank (it_Title i)" "it_Body (blank_item i) = blank (it_Body i)"
  "it_Link (blank_item i) = blank (it_Link i)" "it_Read (blank_item i) = it_Read i" "it_CreatedAt (blank_item i) = it_CreatedAt i"
  by (simp_all add: blank_item_def)

lemma item_markup: "markup (item_html zone (blank_item i)) = markup (item_html zone i)"
  by (simp only: item_html_def markup_simps blank_item_sel)

lemma inbox_items_markup: "markup (inbox_items zone (map blank_item items) (blank csrf)) = markup (inbox_items zone items csrf)"
  by (simp only: inbox_items_def markup_simps markup_map [of "item_html zone" blank_item "item_html zone", OF item_markup])

lemma inbox_markup: "markup (inbox_html zone (map blank_item items) (blank csrf)) = markup (inbox_html zone items csrf)"
  by (simp only: inbox_html_def markup_simps map_is_Nil_conv inbox_items_markup)

lemma summary_markup: "markup (summary_html (blank role) (blank joined)) = markup (summary_html role joined)"
  by (simp only: summary_html_def markup_simps)

section \<open>Links\<close>

text \<open>What a browser takes for the scheme of a URL.\<close>

definition scheme_char :: "char \<Rightarrow> bool" where
  "scheme_char c \<longleftrightarrow> is_alnum c \<or> c \<in> set ''+-.''"

definition url_scheme :: "string \<Rightarrow> string option" where
  "url_scheme s =
     (let p = takeWhile (\<lambda>c. c \<noteq> CHR '':'') s
      in if CHR '':'' \<in> set s \<and> p \<noteq> [] \<and> \<not> is_digit (hd p) \<and> list_all scheme_char p then Some p else None)"

lemma scheme_char_not: "\<not> scheme_char (CHR ''%'')" "\<not> scheme_char (CHR ''/'')" "\<not> scheme_char (CHR 0xC5)"
  by code_simp+

lemma EqualFold_ascii: "EqualFold s t \<Longrightarrow> list_all scheme_char s \<Longrightarrow> map ascii_lower s = t"
  by (induction s t rule: EqualFold.induct) (auto simp: scheme_char_not)

text \<open>A scheme survives the normaliser only as it is in the link.\<close>

lemma normalize_scheme:
  "list_all scheme_char (takeWhile (\<lambda>c. c \<noteq> CHR '':'') (url_normalize w)) \<Longrightarrow>
   takeWhile (\<lambda>c. c \<noteq> CHR '':'') (url_normalize w) = takeWhile (\<lambda>c. c \<noteq> CHR '':'') w \<and>
   (CHR '':'' \<in> set (url_normalize w) \<longleftrightarrow> CHR '':'' \<in> set w)"
proof (induction w)
  case (Cons c w)
  have colon: "url_kept (CHR '':'')" by code_simp
  show ?case
  proof (cases "url_kept c \<and> c \<noteq> CHR ''%''")
    case True
    then show ?thesis using Cons by auto
  next
    case False
    then have "c \<noteq> CHR '':''" using colon by auto
    moreover have "url_kept (CHR ''%'') \<longleftrightarrow> False" by code_simp
    ultimately have "CHR ''%'' \<in> set (takeWhile (\<lambda>c. c \<noteq> CHR '':'') (url_normalize (c # w)))"
      using False by (auto simp: hex_escape_def)
    then have "scheme_char (CHR ''%'')" using Cons.prems by (auto simp: list_all_iff)
    then show ?thesis by (simp add: scheme_char_not)
  qed
qed simp

lemma link_scheme:
  "case url_scheme (url_normalize (url_filter l)) of None \<Rightarrow> True | Some p \<Rightarrow> map ascii_lower p \<in> set safe_schemes"
proof (cases "url_scheme (url_normalize (url_filter l))")
  case (Some p)
  let ?u = "url_filter l"
  have p: "p = takeWhile (\<lambda>c. c \<noteq> CHR '':'') (url_normalize ?u)" "CHR '':'' \<in> set (url_normalize ?u)" "list_all scheme_char p"
    using Some by (auto simp: url_scheme_def Let_def split: if_splits)
  then have pu: "p = takeWhile (\<lambda>c. c \<noteq> CHR '':'') ?u" "CHR '':'' \<in> set ?u"
    using normalize_scheme [of ?u] by auto
  have "isSafeURL l"
  proof (rule ccontr)
    assume "\<not> isSafeURL l"
    then show False using pu(2) by (simp add: url_filter_def)
  qed
  then have safe: "isSafeURL ?u" "?u = l" by (simp_all add: url_filter_def)
  have "CHR ''/'' \<notin> set p" using p(3) scheme_char_not(2) by (auto simp: list_all_iff)
  then have "list_ex (EqualFold p) safe_schemes"
    using safe(1) pu by (simp add: isSafeURL_def Let_def)
  then obtain t where "t \<in> set safe_schemes" "EqualFold p t" by (auto simp: list_ex_iff)
  then show ?thesis using Some EqualFold_ascii [OF _ p(3)] by simp
qed simp

text \<open>The inbox writes a link only through the filter, the normaliser and the escaper.\<close>

definition anchor :: "string \<Rightarrow> string" where
  \<open>anchor u = ''<a class="small" href="'' @ html_escape u @ ''">View</a>''\<close>

lemma join_lines_part: "l \<in> set ls \<Longrightarrow> \<exists>pre post. join_lines ls = pre @ l @ post"
proof (induction ls)
  case (Cons x ls)
  show ?case
  proof (cases "l = x")
    case True
    then have "join_lines (x # ls) = [] @ l @ (if ls = [] then [] else [CHR 0x0A] @ join_lines ls)" by simp
    then show ?thesis by blast
  next
    case False
    then have "l \<in> set ls" "ls \<noteq> []" using Cons.prems by auto
    then obtain pre post where "join_lines ls = pre @ l @ post" using Cons.IH by blast
    then have "join_lines (x # ls) = (x @ [CHR 0x0A] @ pre) @ l @ post" using \<open>ls \<noteq> []\<close> by simp
    then show ?thesis by blast
  qed
qed simp

lemma item_link:
  assumes "it_Link i \<noteq> []"
  shows "\<exists>pre post. item_html zone i = pre @ anchor (url_normalize (url_filter (it_Link i))) @ post"
proof -
  let ?a = "anchor (url_normalize (url_filter (it_Link i)))"
  have "\<exists>pre post. item_html zone i = pre @ (''    '' @ ?a) @ post"
    unfolding item_html_def anchor_def by (rule join_lines_part) (simp only: assms list.set if_True insert_iff simp_thms)
  then obtain pre post where "item_html zone i = (pre @ ''    '') @ ?a @ post" by auto
  then show ?thesis by blast
qed

section \<open>Property\<close>

text \<open>
  C16. No page lets a value inject markup: with every text it shows (names, e-mail addresses, notices from the
  query string, notification texts, keys, log entries, CSRF tokens) replaced by one letter the page
  has exactly the same angle brackets and quotes in the same order, so the same tags and attributes;
  and a browser that follows a link of the inbox finds no scheme in it but http, https or mailto.
\<close>

theorem pages_admit_no_injection:
  "markup (account_html (blank_account account)) = markup (account_html account)
   \<and> markup (users_html (blank_users users)) = markup (users_html users)
   \<and> markup (apikey_html (blank_key key)) = markup (apikey_html key)
   \<and> markup (admin_log_html (map blank_log rows)) = markup (admin_log_html rows)
   \<and> markup (user_log_html (map blank_log rows)) = markup (user_log_html rows)
   \<and> markup (inbox_html zone (map blank_item items) (blank csrf)) = markup (inbox_html zone items csrf)
   \<and> markup (summary_html (blank role) (blank joined)) = markup (summary_html role joined)
   \<and> (case it_Link i of [] \<Rightarrow> True | _ \<Rightarrow>
        (\<exists>pre u post. item_html zone i = pre @ anchor u @ post \<and>
           (case url_scheme u of None \<Rightarrow> True | Some p \<Rightarrow> map ascii_lower p \<in> set safe_schemes)))"
proof (intro conjI account_markup users_markup key_markup log_markup inbox_markup summary_markup)
  show "case it_Link i of [] \<Rightarrow> True | _ \<Rightarrow>
      (\<exists>pre u post. item_html zone i = pre @ anchor u @ post \<and>
         (case url_scheme u of None \<Rightarrow> True | Some p \<Rightarrow> map ascii_lower p \<in> set safe_schemes))"
  proof (cases "it_Link i")
    case (Cons c l)
    then have "it_Link i \<noteq> []" by simp
    then obtain pre post where "item_html zone i = pre @ anchor (url_normalize (url_filter (it_Link i))) @ post"
      using item_link by blast
    then show ?thesis using link_scheme [of "it_Link i"] Cons by auto
  qed simp
qed

end
