(* ===== verification/Shown.thy ===== *)
theory Shown
  imports Pages
begin

text \<open>
  What a user sees: the pages of the login log and of the inbox with their template files, composed
  with the stores behind them. The theorems follow a failed sign-in and a notification from the call
  that causes them to the text of the page of the user they concern. The last section is about the role
  form of the users page: it reads the tags, attributes and options of the page's text as a browser does
  (\<open>untouched_field\<close>) and follows what the form sends into \<open>setRole\<close>.
\<close>

section \<open>The handlers' templates\<close>

text \<open>\<open>ExecuteTemplate\<close> of the parsed files, by name.\<close>

definition log_tmpl :: "string \<Rightarrow> log_row list \<Rightarrow> gerr + string" where
  "log_tmpl name rows =
     (if name = ''admin.html'' then Inr (admin_log_html rows)
      else if name = ''user.html'' then Inr (user_log_html rows)
      else Inl (Foreign ''html/template: no such template''))"

definition inbox_tmpl :: "(time \<Rightarrow> int) \<Rightarrow> item list \<Rightarrow> string \<Rightarrow> gerr + string" where
  "inbox_tmpl zone items csrf = Inr (inbox_html zone items csrf)"

section \<open>Parts of a page\<close>

definition part_of :: "string \<Rightarrow> string \<Rightarrow> bool" where
  "part_of t page \<longleftrightarrow> (\<exists>pre post. page = pre @ t @ post)"

lemma part_refl: "part_of t t"
  unfolding part_of_def by (rule exI [of _ "[]"], rule exI [of _ "[]"]) simp

lemma part_trans: "part_of s t \<Longrightarrow> part_of t u \<Longrightarrow> part_of s u"
proof -
  assume "part_of s t" "part_of t u"
  then obtain a b c d where "t = a @ s @ b" "u = c @ t @ d" unfolding part_of_def by blast
  then have "u = (c @ a) @ s @ (b @ d)" by simp
  then show ?thesis unfolding part_of_def by blast
qed

lemma part_append: "part_of s t \<Longrightarrow> part_of s (u @ t)" "part_of s t \<Longrightarrow> part_of s (t @ u)"
proof -
  have "part_of t (u @ t)" unfolding part_of_def by (rule exI [of _ u], rule exI [of _ "[]"]) simp
  then show "part_of s t \<Longrightarrow> part_of s (u @ t)" using part_trans by blast
  have "part_of t (t @ u)" unfolding part_of_def by (rule exI [of _ "[]"], rule exI [of _ u]) simp
  then show "part_of s t \<Longrightarrow> part_of s (t @ u)" using part_trans by blast
qed

lemma part_map: "x \<in> set xs \<Longrightarrow> part_of (f x) (concat (map f xs))"
  by (induction xs) (auto intro: part_append part_refl)

lemma part_join: "l \<in> set ls \<Longrightarrow> part_of l (join_lines ls)"
  unfolding part_of_def by (rule join_lines_part)

lemma user_log_part:
  assumes "x \<in> set rows"
  shows "part_of (user_log_row x) (user_log_html rows)"
proof -
  let ?line = "''          '' @ (if rows = [] then user_log_rows_none else concat (map user_log_row rows))"
  have "rows \<noteq> []" using assms by auto
  then have "part_of (user_log_row x) ?line" using part_map [OF assms] by (simp only: if_False part_append)
  moreover have "part_of ?line (user_log_html rows)"
    unfolding user_log_html_def by (rule part_join) (simp only: list.set insert_iff simp_thms)
  ultimately show ?thesis by (rule part_trans)
qed

lemma inbox_part:
  assumes "x \<in> set items"
  shows "part_of (item_html zone x) (inbox_html zone items csrf)"
proof -
  let ?line = "''  '' @ concat (map (item_html zone) items)"
  have "items \<noteq> []" using assms by auto
  have "part_of (item_html zone x) ?line" using part_map [OF assms] by (rule part_append)
  moreover have "part_of ?line (inbox_items zone items csrf)"
    unfolding inbox_items_def by (rule part_join) (simp only: list.set insert_iff simp_thms)
  moreover have "part_of (inbox_items zone items csrf) (inbox_html zone items csrf)"
    unfolding inbox_html_def by (rule part_join) (simp only: list.set insert_iff simp_thms \<open>items \<noteq> []\<close> if_True)
  ultimately show ?thesis using part_trans by blast
qed

section \<open>The inbox page\<close>

text \<open>A user's newest fifty notifications are on the inbox page.\<close>

lemma inbox_shows:
  assumes "healthy s" "row \<in> set (pg_rows s)" "ir_user_id row = cu_ID me"
    and "length (filter (\<lambda>r. ir_user_id r = cu_ID me \<and> ir_created_at row \<le> ir_created_at r) (pg_rows s)) \<le> 50"
    and "ih_store h = PGInbox" "ih_tmpl h = inbox_tmpl zone" "ih_current h c = (Some me, True, c1)"
  shows "\<exists>page s'. inbox_render h c s = (Inr page, c1, s') \<and> part_of (item_html zone (row_item row)) page"
proof -
  let ?mine = "filter (\<lambda>r. ir_user_id r = cu_ID me) (pg_scan s)"
  let ?items = "map row_item (take 50 (sort_key (\<lambda>r. - ir_created_at r) ?mine))"
  have "filter (\<lambda>r. - ir_created_at r \<le> - ir_created_at row) ?mine
      = sort_key (pg_pos s) (filter (\<lambda>r. ir_user_id r = cu_ID me \<and> ir_created_at row \<le> ir_created_at r) (pg_rows s))"
    by (simp add: pg_scan_def filter_sort conj_commute)
  then have "row \<in> set (take 50 (sort_key (\<lambda>r. - ir_created_at r) ?mine))"
    using assms(2,3,4) by (intro take_sort_key) simp_all
  then have "part_of (item_html zone (row_item row)) (inbox_html zone ?items (ih_csrf h c1))"
    by (intro inbox_part) simp
  moreover have "inbox_render h c s = (Inr (inbox_html zone ?items (ih_csrf h c1)), c1, next_stmt s)"
    using assms(1,5,6,7)
    by (simp add: inbox_render_def with_user_def PGInbox_def inbox_List_def stmt_healthy inbox_tmpl_def Let_def)
  ultimately show ?thesis by blast
qed

text \<open>A channel that touches neither the inbox table nor the database's state.\<close>

definition spares_inbox :: "inbox_db sink \<Rightarrow> bool" where
  "spares_inbox k \<longleftrightarrow> (\<forall>u n w. pg_rows (snd (k u n w)) = pg_rows w \<and> pg_now (snd (k u n w)) = pg_now w
     \<and> (healthy w \<longrightarrow> healthy (snd (k u n w))))"

lemma sinks_spare:
  "list_all spares_inbox ks \<Longrightarrow> pg_rows (foldl (\<lambda>w k. snd (k u n w)) w ks) = pg_rows w
     \<and> pg_now (foldl (\<lambda>w k. snd (k u n w)) w ks) = pg_now w
     \<and> (healthy w \<longrightarrow> healthy (foldl (\<lambda>w k. snd (k u n w)) w ks))"
  by (induction ks arbitrary: w) (simp_all add: spares_inbox_def)

text \<open>The row a notification becomes.\<close>

definition notified :: "int \<Rightarrow> notification \<Rightarrow> time \<Rightarrow> inbox_row \<Rightarrow> bool" where
  "notified u n t r \<longleftrightarrow> ir_user_id r = u \<and> ir_kind r = n_Kind n \<and> ir_title r = n_Title n \<and> ir_body r = n_Body n
     \<and> ir_link r = n_Link n \<and> ir_actor_name r = n_ActorName n \<and> ir_read_at r = None \<and> ir_created_at r = t"

lemma delivered_row:
  assumes "list_all spares_inbox (before @ after)" "healthy db" "\<not> (n_ActorID n \<noteq> 0 \<and> n_ActorID n = u)"
    and "Deliver (NewFanout (before @ [InboxSink PGInbox] @ after)) u n db = (r, db')"
  shows "\<exists>row. notified u n (pg_now db) row \<and> pg_rows db' = pg_rows db @ [row] \<and> healthy db'"
proof -
  define go :: "inbox_db \<Rightarrow> inbox_db sink list \<Rightarrow> inbox_db" where "go = foldl (\<lambda>w k. snd (k u n w))"
  have spare: "pg_rows (go db before) = pg_rows db" "pg_now (go db before) = pg_now db" "healthy (go db before)"
    "\<And>w. pg_rows (go w after) = pg_rows w" "\<And>w. healthy w \<Longrightarrow> healthy (go w after)"
    using assms(1,2) sinks_spare [of before u n db] sinks_spare [of after u n] by (simp_all add: go_def)
  let ?w = "next_stmt (go db before)"
  let ?row = "\<lparr>ir_id = pg_next ?w, ir_user_id = u, ir_kind = n_Kind n, ir_title = n_Title n, ir_body = n_Body n,
     ir_link = n_Link n, ir_actor_name = n_ActorName n, ir_read_at = None, ir_created_at = pg_now ?w\<rparr>"
  have "db' = go (snd (in_Add PGInbox u n (go db before))) after"
    using assms(3,4) by (simp add: Deliver_def NewFanout_def InboxSink_def go_def del: de_Morgan_conj)
  also have "in_Add PGInbox u n (go db before) = (Inr (), ?w\<lparr>pg_rows := pg_rows ?w @ [?row], pg_next := pg_next ?w + 1\<rparr>)"
    using spare(3) by (simp add: PGInbox_def inbox_Add_def stmt_healthy Let_def)
  finally have "pg_rows db' = pg_rows db @ [?row]" "healthy db'"
    using spare by simp_all
  moreover have "notified u n (pg_now db) ?row" using spare(2) by (simp add: notified_def)
  ultimately show ?thesis by blast
qed

section \<open>Properties\<close>

text \<open>
  C36. A notification is shown, once read it stays shown. When the database answers, the other channels of
  the fan-out leave the inbox table alone and at most 49 notifications of the recipient bear a time
  as late as the database's clock: after delivery the recipient's inbox page contains the
  notification, escaped, marked unread, with its link filtered; after "mark all read" the
  recipient's unread count is zero, nobody else's count has changed, and the page contains the
  notification as read.
\<close>

theorem notification_is_shown_until_read:
  assumes "list_all spares_inbox (before @ after)" "healthy db" "\<not> (n_ActorID n \<noteq> 0 \<and> n_ActorID n = cu_ID me)"
    and "Deliver (NewFanout (before @ [InboxSink PGInbox] @ after)) (cu_ID me) n db = (r, db')"
    and "length (filter (\<lambda>r. ir_user_id r = cu_ID me \<and> pg_now db \<le> ir_created_at r) (pg_rows db)) < 50"
    and "ih_store h = PGInbox" "ih_tmpl h = inbox_tmpl zone" "ih_current h c = (Some me, True, c1)"
    and "readAll h c db' = (r2, c2, db2)"
  shows "\<exists>row page page2 s s2. notified (cu_ID me) n (pg_now db) row
    \<and> inbox_render h c db' = (Inr page, c1, s) \<and> part_of (item_html zone (row_item row)) page
    \<and> unread_rows db2 = (unread_rows db')(cu_ID me := 0)
    \<and> inbox_render h c db2 = (Inr page2, c1, s2) \<and> part_of (item_html zone ((row_item row)\<lparr>it_Read := True\<rparr>)) page2"
proof -
  let ?u = "cu_ID me"
  obtain row where row: "notified ?u n (pg_now db) row" "pg_rows db' = pg_rows db @ [row]" "healthy db'"
    using delivered_row [OF assms(1-4)] by blast
  have few: "length (filter (\<lambda>r. ir_user_id r = ?u \<and> ir_created_at row \<le> ir_created_at r) (pg_rows db')) \<le> 50"
    using assms(5) row by (simp add: notified_def)
  obtain page s where p: "inbox_render h c db' = (Inr page, c1, s)" "part_of (item_html zone (row_item row)) page"
    using inbox_shows [OF row(3) _ _ few assms(6-8)] row by (auto simp: notified_def)
  let ?t = "pg_now db'"
  have db2: "db2 = (next_stmt db')\<lparr>pg_rows := map (mark_row ?t ?u) (pg_rows db')\<rparr>"
    using assms(6,8,9) row(3)
    by (auto simp: readAll_def with_user_def PGInbox_def inbox_MarkAllRead_def stmt_healthy Let_def mark_row_def [abs_def])
  have keep: "ir_user_id (mark_row ?t ?u r) = ir_user_id r" "ir_created_at (mark_row ?t ?u r) = ir_created_at r" for r
    by (simp_all add: mark_row_def)
  have few2: "length (filter (\<lambda>r. ir_user_id r = ?u \<and> ir_created_at (mark_row ?t ?u row) \<le> ir_created_at r) (pg_rows db2)) \<le> 50"
    using few by (simp add: db2 filter_map comp_def keep)
  have "mark_row ?t ?u row \<in> set (pg_rows db2)" "ir_user_id (mark_row ?t ?u row) = ?u" "healthy db2"
    using row by (simp_all add: db2 keep notified_def)
  from inbox_shows [OF this(3,1,2) few2 assms(6-8)]
  obtain page2 s2 where p2: "inbox_render h c db2 = (Inr page2, c1, s2)"
      "part_of (item_html zone (row_item (mark_row ?t ?u row))) page2" by blast
  have read: "row_item (mark_row ?t ?u row) = (row_item row)\<lparr>it_Read := True\<rparr>"
    using row(1) by (simp add: row_item_def mark_row_def notified_def unread_row_def)
  have "unread_rows db2 = (unread_rows db')(?u := 0)"
    using unread_rows_marked [where db = "next_stmt db'" and t = ?t and u = ?u]
    by (simp add: db2) (simp add: unread_rows_def fun_eq_iff)
  with row(1) p p2 [unfolded read] show ?thesis by blast
qed


definition inbox_page :: "inbox_db inbox_handler" where
  "inbox_page = \<lparr>ih_store = PGInbox, ih_current = (\<lambda>c. (Some \<lparr>cu_ID = 7, cu_Username = ''bob'', cu_Email = [], cu_Role = 0, cu_CreatedAt = 5\<rparr>, True, c)),
     ih_tmpl = inbox_tmpl (\<lambda>_. 0), ih_csrf = (\<lambda>_. ''t'')\<rparr>"

theorem notification_is_shown_until_read_witness:
  "case Deliver (NewFanout ([no_mail] @ [InboxSink PGInbox] @ [LogSink (\<lambda>u n w. w)])) 7 mention (pg_table [] 1 0) of
     (r, db') \<Rightarrow> (case readAll inbox_page ex_request db' of (r2, c2, db2) \<Rightarrow>
        unread_rows db2 7 = 0 \<and>
        (\<exists>page page2 s s2. inbox_render inbox_page ex_request db' = (Inr page, ex_request, s)
          \<and> inbox_render inbox_page ex_request db2 = (Inr page2, ex_request, s2)))"
proof -
  let ?me = "\<lparr>cu_ID = 7, cu_Username = ''bob'', cu_Email = [], cu_Role = 0, cu_CreatedAt = 5\<rparr> :: core_user"
  let ?sinks = "[no_mail] @ [LogSink (\<lambda>u n w. w)] :: inbox_db sink list"
  obtain r db' where run: "Deliver (NewFanout ([no_mail] @ [InboxSink PGInbox] @ [LogSink (\<lambda>u n w. w)])) (cu_ID ?me) mention
      (pg_table [] 1 0) = (r, db')" by (rule prod.exhaust)
  obtain r2 c2 db2 where read: "readAll inbox_page ex_request db' = (r2, c2, db2)" by (rule prod_cases3)
  have spare: "list_all spares_inbox ?sinks" by (simp add: spares_inbox_def no_mail_def LogSink_def)
  have h: "ih_store inbox_page = PGInbox" "ih_tmpl inbox_page = inbox_tmpl (\<lambda>_. 0)"
    "ih_current inbox_page ex_request = (Some ?me, True, ex_request)" by (simp_all add: inbox_page_def)
  have own: "\<not> (n_ActorID mention \<noteq> 0 \<and> n_ActorID mention = cu_ID ?me)" by (simp add: mention_def)
  have "length (filter (\<lambda>r. ir_user_id r = cu_ID ?me \<and> pg_now (pg_table [] 1 0 :: inbox_db) \<le> ir_created_at r) (pg_rows (pg_table [] 1 0))) < 50"
    by (simp add: pg_table_def)
  from notification_is_shown_until_read [OF spare healthy_table own run this h read]
  have "unread_rows db2 7 = 0 \<and> (\<exists>page page2 s s2. inbox_render inbox_page ex_request db' = (Inr page, ex_request, s)
      \<and> inbox_render inbox_page ex_request db2 = (Inr page2, ex_request, s2))" by auto
  moreover have "Deliver (NewFanout ([no_mail] @ [InboxSink PGInbox] @ [LogSink (\<lambda>u n w. w)])) 7 mention (pg_table [] 1 0) = (r, db')"
    using run by simp
  ultimately show ?thesis using read by (simp only: prod.case)
qed

text \<open>
  C35. A failed sign-in under the name of an account is shown to its owner: when the databases answer, at
  most 49 entries of the owner bear a time as late as the database's clock, and no other account's
  name is the same up to case, the owner's sign-ins page then contains the row of a failed attempt
  with the first twelve digits of the salted hash of the address.
\<close>

theorem failed_login_is_shown_to_its_owner:
  assumes "healthy udb" "healthy ldb"
    and "v \<in> set (pg_rows udb)" "lower (u_Username v) = lower username"
    and "\<forall>v'\<in>set (pg_rows udb). lower (u_Username v') = lower username \<longrightarrow> v' = v"
    and "length (filter (\<lambda>x. le_UserID x = u_ID v \<and> pg_now ldb \<le> le_CreatedAt x) (pg_rows ldb)) < 50"
    and "Attempt (second_log PGLog) (Some (by_name lower)) salt ip username 0 False (udb, ldb) = (r, w')"
    and "lh_store h = PGLog" "lh_tmpl h = log_tmpl" "lh_current h c = (Some me, True, c')" "cu_ID me = u_ID v"
  shows "r = Inr () \<and> (\<exists>page s' x. log_renderUser h c (snd w') = (Inr page, c', s') \<and> part_of (user_log_row x) page
    \<and> lr_User x = username \<and> lr_UserID x = u_ID v \<and> \<not> lr_Success x \<and> lr_IPShort x = take 12 (HashIP salt ip))"
proof -
  from failed_login_reaches_owner [OF assms(1-8,10,11)]
  obtain rows s' x where r: "r = Inr ()" "log_renderUser h c (snd w') = (lh_tmpl h ''user.html'' rows, c', s')"
    and x: "x \<in> set rows" "lr_User x = username" "lr_UserID x = u_ID v" "\<not> lr_Success x" "lr_IPShort x = take 12 (HashIP salt ip)"
    by blast
  have "log_renderUser h c (snd w') = (Inr (user_log_html rows), c', s')"
    using r(2) by (simp add: assms(9) log_tmpl_def)
  with r(1) x user_log_part [OF x(1)] show ?thesis by blast
qed

theorem failed_login_is_shown_to_its_owner_witness:
  "case Attempt (second_log PGLog) (Some (by_name (\<lambda>x. x))) ''salt'' ''10.0.0.1'' ''bob'' 0 False ex_world of
     (r, w') \<Rightarrow> r = Inr () \<and> (\<exists>page s' x. log_renderUser (bob_page\<lparr>lh_tmpl := log_tmpl\<rparr>) ex_request (snd w') = (Inr page, ex_request, s')
       \<and> part_of (user_log_row x) page \<and> \<not> lr_Success x \<and> lr_IPShort x = take 12 (HashIP ''salt'' ''10.0.0.1''))"
proof -
  obtain r w' where run: "Attempt (second_log PGLog) (Some (by_name (\<lambda>x. x))) ''salt'' ''10.0.0.1'' ''bob'' 0 False ex_world = (r, w')"
    by (rule prod.exhaust)
  let ?v = "\<lparr>u_ID = 7, u_Username = ''bob'', u_Email = [], u_PasswordHash = [], u_Role = 0, u_EmailVerified = False, u_CreatedAt = 5\<rparr>"
  let ?h = "bob_page\<lparr>lh_tmpl := log_tmpl\<rparr>"
  have w: "ex_world = (pg_table [?v] 8 9, pg_table [] 1 9)" by (simp add: ex_world_def)
  have v: "?v \<in> set (pg_rows (pg_table [?v] 8 9))"
    "\<forall>v'\<in>set (pg_rows (pg_table [?v] 8 9)). u_Username v' = u_Username ?v \<longrightarrow> v' = ?v"
    "length (filter (\<lambda>x. le_UserID x = u_ID ?v \<and> pg_now (pg_table [] 1 9 :: log_db) \<le> le_CreatedAt x) (pg_rows (pg_table [] 1 9))) < 50"
    by (simp_all add: pg_table_def)
  have h: "lh_store ?h = PGLog" "lh_tmpl ?h = log_tmpl"
    "lh_current ?h ex_request = (Some \<lparr>cu_ID = 7, cu_Username = ''bob'', cu_Email = [], cu_Role = 0, cu_CreatedAt = 5\<rparr>, True, ex_request)"
    by (simp_all add: bob_page_def)
  have run': "Attempt (second_log PGLog) (Some (by_name (\<lambda>x. x))) ''salt'' ''10.0.0.1'' (u_Username ?v) 0 False
      (pg_table [?v] 8 9, pg_table [] 1 9) = (r, w')" using run w by simp
  note shown = failed_login_is_shown_to_its_owner [OF healthy_table healthy_table v(1) refl v(2,3) run' h]
  have "cu_ID \<lparr>cu_ID = 7, cu_Username = ''bob'', cu_Email = [], cu_Role = 0, cu_CreatedAt = 5\<rparr> = u_ID ?v" by simp
  from shown [OF this] show ?thesis unfolding run prod.case by blast
qed

section \<open>The role form\<close>

text \<open>
  What a browser makes of the form: the tags of a text (what stands between \<open><\<close> and \<open>>\<close>), an attribute
  of a tag, and the value it sends for a field of a form that nobody touched - that of the input
  with that name, or of the select with that name: its last option marked \<open>selected\<close>, or its first one
  when none is. (The values read here are numbers, so there are no character references to decode.)
\<close>

fun scan :: "string \<Rightarrow> string option \<Rightarrow> string list \<times> string option" where
  "scan [] cur = ([], cur)"
| "scan (c # s) None = scan s (if c = CHR ''<'' then Some [] else None)"
| "scan (c # s) (Some t) =
     (if c = CHR ''>'' then (case scan s None of (ts, cur) \<Rightarrow> (t # ts, cur)) else scan s (Some (t @ [c])))"

definition tags_of :: "string \<Rightarrow> string list" where
  "tags_of s = fst (scan s None)"

fun after :: "string \<Rightarrow> string \<Rightarrow> string option" where
  "after pat [] = None"
| "after pat (c # s) = (if HasPrefix (c # s) pat then Some (drop (length pat) (c # s)) else after pat s)"

definition attribute :: "string \<Rightarrow> string \<Rightarrow> string option" where
  \<open>attribute n tag = map_option (takeWhile (\<lambda>c. c \<noteq> CHR 0x22)) (after ('' '' @ n @ ''="'') tag)\<close>

definition form_tags :: "string \<Rightarrow> string list \<Rightarrow> string list" where
  "form_tags action ts =
     takeWhile (\<lambda>t. t \<noteq> ''/form'') (dropWhile (\<lambda>t. \<not> (HasPrefix t ''form '' \<and> attribute ''action'' t = Some action)) ts)"

definition option_value :: "string list \<Rightarrow> string option" where
  "option_value os =
     (case find (\<lambda>t. after '' selected'' t \<noteq> None) (rev os) of
        Some t \<Rightarrow> attribute ''value'' t
      | None \<Rightarrow> (case os of [] \<Rightarrow> None | t # _ \<Rightarrow> attribute ''value'' t))"

definition untouched_field :: "string \<Rightarrow> string \<Rightarrow> string \<Rightarrow> string option" where
  "untouched_field page action n =
     (let ts = form_tags action (tags_of page)
      in case find (\<lambda>t. HasPrefix t ''input '' \<and> attribute ''name'' t = Some n) ts of
           Some t \<Rightarrow> attribute ''value'' t
         | None \<Rightarrow>
             option_value (filter (\<lambda>t. HasPrefix t ''option '') (takeWhile (\<lambda>t. t \<noteq> ''/select'')
               (dropWhile (\<lambda>t. \<not> (HasPrefix t ''select '' \<and> attribute ''name'' t = Some n)) ts))))"

lemma scan_append:
  "scan (s @ t) cur = (case scan s cur of (a, c1) \<Rightarrow> case scan t c1 of (b, c2) \<Rightarrow> (a @ b, c2))"
  by (induction s cur rule: scan.induct) (auto split: prod.splits)

lemma scan_value_text: "CHR ''<'' \<notin> set s \<Longrightarrow> scan s None = ([], None)"
  by (induction s) auto

lemma scan_value_tag: "CHR ''>'' \<notin> set s \<Longrightarrow> scan s (Some t) = ([], Some (t @ s))"
  by (induction s arbitrary: t) auto

lemma escaped_plain:
  "CHR ''<'' \<notin> set (html_escape s)" "CHR ''>'' \<notin> set (html_escape s)" "CHR 0x22 \<notin> set (html_escape s)"
  by (simp_all add: html_escape_safe)

lemma digits_plain:
  "CHR ''<'' \<notin> set (Itoa i)" "CHR ''>'' \<notin> set (Itoa i)" "CHR 0x22 \<notin> set (Itoa i)" "CHR '' '' \<notin> set (Itoa i)"
proof -
  have *: "c \<in> set (Itoa i) \<Longrightarrow> c = CHR ''-'' \<or> is_digit c" for c
    by (auto simp: Itoa_def dest: utoa_digits split: if_splits)
  then show "CHR ''<'' \<notin> set (Itoa i)" "CHR ''>'' \<notin> set (Itoa i)" "CHR 0x22 \<notin> set (Itoa i)" "CHR '' '' \<notin> set (Itoa i)"
    using * [of "CHR ''<''"] * [of "CHR ''>''"] * [of "CHR 0x22"] * [of "CHR '' ''"] by (auto simp: is_digit_def)
qed

lemmas scan_values =
  scan_value_text [OF escaped_plain(1)] scan_value_tag [OF escaped_plain(2)]
  scan_value_text [OF digits_plain(1)] scan_value_tag [OF digits_plain(2)]

lemma scan_lines:
  "list_all (\<lambda>l. snd (scan l None) = None) ls \<Longrightarrow>
   scan (join_lines ls) None = (concat (map (\<lambda>l. fst (scan l None)) ls), None)"
proof (induction ls)
  case (Cons l ls)
  then show ?case by (cases "scan l None") (auto simp: scan_append)
qed simp

lemma scan_concat:
  "(\<And>x. snd (scan (f x) None) = None) \<Longrightarrow> scan (concat (map f xs)) None = (concat (map (\<lambda>x. fst (scan (f x) None)) xs), None)"
proof (induction xs)
  case (Cons x xs)
  then show ?case by (cases "scan (f x) None") (auto simp: scan_append dest: meta_spec [of _ x])
qed simp



definition option_tag :: "admin_row \<Rightarrow> int \<Rightarrow> string" where
  \<open>option_tag u v = ''option value="'' @ Itoa v @ ''"'' @ (if v = ur_Role u then '' selected'' else [])\<close>

lemma scan_option: "scan (role_option u r) None = ([option_tag u (fst r), ''/option''], None)"
  by (simp add: role_option_def option_tag_def scan_append scan_values)

definition role_form :: "users_page \<Rightarrow> admin_row \<Rightarrow> string list" where
  \<open>role_form p u =
     [''form method="post" action="/admin/p/users/set-role" class="d-inline-flex gap-1"'',
      ''input type="hidden" name="_csrf" value="'' @ html_escape (up_CSRFToken p) @ ''"'',
      ''input type="hidden" name="user_id" value="'' @ Itoa (ur_ID u) @ ''"'',
      ''select aria-label="Role" name="role" class="form-select form-select-sm" style="width:auto"'']
     @ concat (map (\<lambda>r. [option_tag u (fst r), ''/option'']) (up_Roles p))
     @ [''/select'', ''button class="btn btn-sm btn-outline-secondary" type="submit"'', ''/button'']\<close>

lemma row_tags:
  \<open>tags_of (user_html p u) =
     [''tr'', ''td'', ''span class="text-muted small"'', ''/span'', ''/td'', ''td class="text-muted small"'', ''/td'', ''td'']
     @ role_form p u
     @ [''/form'', ''/td'', ''td class="small text-muted"'', ''/td'', ''td'',
        ''form method="post" action="/admin/p/users/reset-password" class="d-inline-flex gap-1"'',
        ''input type="hidden" name="_csrf" value="'' @ html_escape (up_CSRFToken p) @ ''"'',
        ''input type="hidden" name="user_id" value="'' @ Itoa (ur_ID u) @ ''"'',
        ''input aria-label="New password" type="text" name="password" class="form-control form-control-sm" placeholder="new password" style="width:9rem" autocomplete="off"'',
        ''button class="btn btn-sm btn-outline-secondary" type="submit"'', ''/button'', ''/form'', ''/td'', ''/tr'']\<close>
proof -
  show ?thesis
    unfolding user_html_def tags_of_def
    apply (subst scan_lines)
     apply (simp add: scan_append scan_values scan_option scan_concat)
    apply (simp add: scan_append scan_values scan_option scan_concat role_form_def)
    done
qed

lemma dropWhile_to: "list_all P xs \<Longrightarrow> \<not> P y \<Longrightarrow> dropWhile P (xs @ y # r) = y # r"
  by (induction xs) auto

lemma takeWhile_to: "list_all P xs \<Longrightarrow> \<not> P y \<Longrightarrow> takeWhile P (xs @ y # r) = xs"
  by (induction xs) auto

lemma find_none: "list_all (\<lambda>x. \<not> P x) xs \<Longrightarrow> find P xs = None"
  by (induction xs) auto

lemma dropWhile_from: "list_all P xs \<Longrightarrow> z = y # r \<Longrightarrow> \<not> P y \<Longrightarrow> dropWhile P (xs @ z @ w) = z @ w"
  by (induction xs) auto

lemma takeWhile_upto: "list_all P xs \<Longrightarrow> z = y # r \<Longrightarrow> \<not> P y \<Longrightarrow> takeWhile P (xs @ z) = xs"
  by (induction xs) auto

definition other_form :: "string \<Rightarrow> bool" where
  "other_form t \<longleftrightarrow> \<not> (HasPrefix t ''form '' \<and> attribute ''action'' t = Some ''/admin/p/users/set-role'')"

lemma not_other_form: \<open>\<not> other_form ''form method="post" action="/admin/p/users/set-role" class="d-inline-flex gap-1"''\<close>
  by code_simp

lemma front_other_form: \<open>list_all other_form
  [''tr'', ''td'', ''span class="text-muted small"'', ''/span'', ''/td'', ''td class="text-muted small"'', ''/td'', ''td'']\<close>
  by code_simp

lemma role_form_open: "list_all (\<lambda>t. t \<noteq> ''/form'') (role_form p u)"
  by (auto simp: role_form_def option_tag_def list_all_iff)

lemma form_of_row: "form_tags ''/admin/p/users/set-role'' (tags_of (user_html p u)) = role_form p u"
proof -
  obtain rest where hd: \<open>role_form p u = ''form method="post" action="/admin/p/users/set-role" class="d-inline-flex gap-1"'' # rest\<close>
    by (simp add: role_form_def)
  note skip = dropWhile_from [of other_form, OF front_other_form hd not_other_form]
  show ?thesis
    unfolding row_tags form_tags_def other_form_def [symmetric] skip
    by (rule takeWhile_upto [OF role_form_open refl]) simp
qed

lemma values_plain: "takeWhile (\<lambda>c. c \<noteq> CHR 0x22) (Itoa i @ CHR 0x22 # r) = Itoa i"
  using digits_plain(3) by (subst takeWhile_append2) auto

lemma option_tag_facts:
  "HasPrefix (option_tag u v) ''option ''" "\<not> HasPrefix (option_tag u v) ''input ''" "\<not> HasPrefix (option_tag u v) ''select ''"
  "option_tag u v \<noteq> ''/select''" "attribute ''value'' (option_tag u v) = Some (Itoa v)"
proof -
  show "HasPrefix (option_tag u v) ''option ''" "\<not> HasPrefix (option_tag u v) ''input ''"
    "\<not> HasPrefix (option_tag u v) ''select ''" "option_tag u v \<noteq> ''/select''"
    by (simp_all add: option_tag_def HasPrefix_def)
  show "attribute ''value'' (option_tag u v) = Some (Itoa v)"
    by (simp add: option_tag_def attribute_def HasPrefix_def values_plain)
qed

definition option_tags :: "admin_row \<Rightarrow> int list \<Rightarrow> string list" where
  "option_tags u vs = concat (map (\<lambda>v. [option_tag u v, ''/option'']) vs)"

lemma option_tags_facts:
  "list_all (\<lambda>t. t \<noteq> ''/select'' \<and> \<not> HasPrefix t ''input '' \<and> \<not> HasPrefix t ''select '') (option_tags u vs)"
  "filter (\<lambda>t. HasPrefix t ''option '') (option_tags u vs) = map (option_tag u) vs"
proof -
  have "\<not> HasPrefix ''/option'' ''option ''" "\<not> HasPrefix ''/option'' ''input ''" "\<not> HasPrefix ''/option'' ''select ''"
    "''/option'' \<noteq> ''/select''" by code_simp+
  then show "list_all (\<lambda>t. t \<noteq> ''/select'' \<and> \<not> HasPrefix t ''input '' \<and> \<not> HasPrefix t ''select '') (option_tags u vs)"
    "filter (\<lambda>t. HasPrefix t ''option '') (option_tags u vs) = map (option_tag u) vs"
    unfolding option_tags_def by (induction vs) (simp_all only: list.map concat.simps append_Cons append_Nil list.pred_inject
      filter.simps option_tag_facts simp_thms if_True if_False)
qed

definition role_input :: "string \<Rightarrow> bool" where
  "role_input t \<longleftrightarrow> HasPrefix t ''input '' \<and> attribute ''name'' t = Some ''role''"

definition no_role_select :: "string \<Rightarrow> bool" where
  "no_role_select t \<longleftrightarrow> \<not> (HasPrefix t ''select '' \<and> attribute ''name'' t = Some ''role'')"

definition role_head :: "users_page \<Rightarrow> admin_row \<Rightarrow> string list" where
  \<open>role_head p u =
     [''form method="post" action="/admin/p/users/set-role" class="d-inline-flex gap-1"'',
      ''input type="hidden" name="_csrf" value="'' @ html_escape (up_CSRFToken p) @ ''"'',
      ''input type="hidden" name="user_id" value="'' @ Itoa (ur_ID u) @ ''"'']\<close>

definition role_select :: string where
  \<open>role_select = ''select aria-label="Role" name="role" class="form-select form-select-sm" style="width:auto"''\<close>

definition role_tail :: "string list" where
  \<open>role_tail = [''/select'', ''button class="btn btn-sm btn-outline-secondary" type="submit"'', ''/button'']\<close>

lemma role_form_parts:
  "role_form p u = role_head p u @ (role_select # (option_tags u (map fst (up_Roles p)) @ role_tail))"
  by (simp add: role_form_def role_head_def role_select_def role_tail_def option_tags_def comp_def)

lemma role_head_facts: "list_all (\<lambda>t. \<not> role_input t) (role_head p u)" "list_all no_role_select (role_head p u)"
  by (simp_all add: role_head_def role_input_def no_role_select_def HasPrefix_def attribute_def)

lemma role_select_facts: "\<not> role_input role_select" "\<not> no_role_select role_select" "\<not> HasPrefix role_select ''option ''"
  "role_select \<noteq> ''/select''"
  by code_simp+

lemma role_tail_facts: "list_all (\<lambda>t. \<not> role_input t) role_tail"
  by code_simp

lemma untouched_role:
  "untouched_field (user_html p u) ''/admin/p/users/set-role'' ''role'' = option_value (map (option_tag u) (map fst (up_Roles p)))"
proof -
  let ?os = "option_tags u (map fst (up_Roles p))"
  have os: "list_all (\<lambda>t. \<not> role_input t) ?os" "list_all (\<lambda>t. t \<noteq> ''/select'') (role_select # ?os)"
    using option_tags_facts(1) [of u "map fst (up_Roles p)"] role_select_facts(4) by (auto simp: list_all_iff role_input_def)
  have none: "find role_input (role_form p u) = None"
    using role_head_facts(1) role_select_facts(1) os(1) role_tail_facts
    by (intro find_none) (simp add: role_form_parts)
  have drop: "dropWhile no_role_select (role_form p u) = role_select # (?os @ role_tail)"
    unfolding role_form_parts using role_head_facts(2) role_select_facts(2) by (rule dropWhile_to)
  obtain t r where tl: "role_tail = t # r" "t = ''/select''" by (simp add: role_tail_def)
  have "takeWhile (\<lambda>t. t \<noteq> ''/select'') ((role_select # ?os) @ role_tail) = role_select # ?os"
    by (rule takeWhile_upto [OF os(2) tl(1)]) (simp add: tl(2))
  then show ?thesis
    unfolding untouched_field_def form_of_row Let_def role_input_def [symmetric] no_role_select_def [symmetric] none drop
    by (simp only: append_Cons option.case filter.simps role_select_facts(3) if_False option_tags_facts(2))
qed

lemma after_absent: "CHR '' '' \<notin> set s \<Longrightarrow> after (CHR '' '' # pat) s = None"
  by (induction s) (auto simp: HasPrefix_def)

lemma after_suffix: "pat \<noteq> [] \<Longrightarrow> after pat (s @ pat) \<noteq> None"
proof (induction s)
  case Nil
  then show ?case by (cases pat) (auto simp: HasPrefix_def)
qed simp

lemma option_selected: "after '' selected'' (option_tag u v) \<noteq> None \<longleftrightarrow> v = ur_Role u"
proof (cases "v = ur_Role u")
  case True
  then show ?thesis
    using after_suffix [of "'' selected''" "''option value='' @ [CHR 0x22] @ Itoa v @ [CHR 0x22]"] by (simp add: option_tag_def)
next
  case False
  have "after '' selected'' (''value='' @ [CHR 0x22] @ Itoa v @ [CHR 0x22]) = None"
    using digits_plain(4) by (intro after_absent) auto
  with False show ?thesis by (simp add: option_tag_def HasPrefix_def)
qed

lemma untouched_role_value:
  assumes "up_Roles p = roleOpts"
  shows "untouched_field (user_html p u) ''/admin/p/users/set-role'' ''role'' =
    Some (Itoa (if ur_Role u \<in> fst ` set roleOpts then ur_Role u else RoleBanned))"
proof -
  let ?vs = "map fst roleOpts"
  have "find (\<lambda>t. after '' selected'' t \<noteq> None) (rev (map (option_tag u) ?vs))
      = map_option (option_tag u) (find (\<lambda>v. v = ur_Role u) (rev ?vs))"
  proof -
    have "find (\<lambda>t. after '' selected'' t \<noteq> None) (map (option_tag u) vs) = map_option (option_tag u) (find (\<lambda>v. v = ur_Role u) vs)" for vs
      by (induction vs) (simp_all add: option_selected del: not_None_eq)
    from this [of "rev ?vs"] show ?thesis by (simp add: rev_map)
  qed
  moreover have "find (\<lambda>v. v = ur_Role u) (rev ?vs) = (if ur_Role u \<in> fst ` set roleOpts then Some (ur_Role u) else None)"
    by (auto simp: roleOpts_def)
  moreover have "(case map (option_tag u) ?vs of [] \<Rightarrow> None | t # _ \<Rightarrow> attribute ''value'' t) = Some (Itoa RoleBanned)"
    by (simp add: roleOpts_def option_tag_facts)
  ultimately show ?thesis
    unfolding untouched_role assms option_value_def
    by (cases "ur_Role u \<in> fst ` set roleOpts") (simp_all only: if_True if_False option.map option.case option_tag_facts(5))
qed

lemma untouched_id:
  "untouched_field (user_html p u) ''/admin/p/users/set-role'' ''user_id'' = Some (Itoa (ur_ID u))"
  unfolding untouched_field_def form_of_row
  by (simp add: role_form_def HasPrefix_def attribute_def values_plain)

lemma listed_roles: "r \<in> fst ` set roleOpts \<Longrightarrow> i32_ok r \<and> i64_ok r"
  by (auto simp: roleOpts_def i32_ok_def i64_ok_def)

text \<open>
  C37. Pressing "Set" on the users page without choosing a role leaves an account as it is when its role
  is one of the options, and bans it when it is not: a disabled account becomes a banned one. The id and the
  role of the request are those a browser reads from the form in the row that the page has for the account.
\<close>

theorem untouched_role_form_bans_unlisted:
  assumes "users_inv db" "healthy db" "u \<in> set (pg_rows db)" "0 < u_ID u" "i64_ok (u_ID u)" "uh_store h = PGStore lower"
    and "up_Roles p = roleOpts" and page: "row = user_html p (userRow zone u)"
    and "untouched_field row ''/admin/p/users/set-role'' ''user_id'' = Some (g_form c ''user_id'')"
    and "untouched_field row ''/admin/p/users/set-role'' ''role'' = Some (g_form c ''role'')"
    and "setRole h c db = (r, c', db')"
  shows "pg_rows db' = map (\<lambda>v. if u_ID v = u_ID u \<and> u_Role u \<notin> {RoleBanned, RoleUser, RoleContributor, RoleMod, RoleAdmin}
      then v\<lparr>u_Role := RoleBanned\<rparr> else v) (pg_rows db)"
proof -
  let ?role = "if u_Role u \<in> fst ` set roleOpts then u_Role u else RoleBanned"
  have listed: "fst ` set roleOpts = {RoleBanned, RoleUser, RoleContributor, RoleMod, RoleAdmin}"
    by (auto simp: roleOpts_def)
  have ok: "i32_ok ?role" "i64_ok ?role" using listed_roles [of ?role] by (auto simp: listed i32_ok_def i64_ok_def)
  have sent: "g_form c ''user_id'' = Itoa (u_ID u)" "g_form c ''role'' = Itoa ?role"
    using assms(9,10) unfolding page untouched_id untouched_role_value [OF assms(7)] by (auto simp: userRow_def split: if_splits)
  have form: "ParseInt (g_form c ''user_id'') = (u_ID u, None)" "Atoi (g_form c ''role'') = (?role, None)"
    using assms(5) ok(2) unfolding sent Atoi_def by (simp_all add: ParseInt_Itoa)
  have set: "us_SetRole (uh_store h) (u_ID u) ?role db
      = (Inr (), (next_stmt db)\<lparr>pg_rows := map (\<lambda>v. if u_ID v = u_ID u then v\<lparr>u_Role := ?role\<rparr> else v) (pg_rows db)\<rparr>)"
    using assms(2,6) ok(1) by (simp only: PGStore_def users_ops.simps SetRole_def if_True exec_update_healthy)
  have "snd (snd (setRole h c db)) = snd (us_SetRole (uh_store h) (u_ID u) ?role db)"
    using assms(4) unfolding setRole_def form Let_def fst_conv
    by (simp add: users_redirect_parts set)
  then have rows: "pg_rows db' = map (\<lambda>v. if u_ID v = u_ID u then v\<lparr>u_Role := ?role\<rparr> else v) (pg_rows db)"
    using assms(11) set by simp
  have self: "v = u" if "v \<in> set (pg_rows db)" "u_ID v = u_ID u" for v
    using assms(1,3) that by (auto simp: users_inv_def distinct_map dest: inj_onD)
  have same: "v\<lparr>u_Role := u_Role u\<rparr> = v" if "v \<in> set (pg_rows db)" "u_ID v = u_ID u" for v
    using self [OF that] by simp
  show ?thesis
  proof (cases "u_Role u \<in> {RoleBanned, RoleUser, RoleContributor, RoleMod, RoleAdmin}")
    case True
    then show ?thesis unfolding rows listed by (intro map_cong) (use same in \<open>auto simp only: if_True simp_thms split: if_split\<close>)
  next
    case False
    then show ?thesis unfolding rows listed by (simp only: if_False simp_thms)
  qed
qed

definition ex_disabled :: users_db where
  "ex_disabled = pg_table [(ex_row 1 ''bob'' ''b@x'' ''secret12'')\<lparr>u_Role := RoleDisabled\<rparr>, ex_row 2 ''eve'' ''e@x'' ''secret12''] 3 7"

definition ex_set_role :: gctx where
  "ex_set_role = ex_request\<lparr>g_form := (\<lambda>_. [])(''user_id'' := ''1'', ''role'' := ''-2'')\<rparr>"

theorem untouched_role_form_bans_unlisted_witness:
  "case setRole ex_admin ex_set_role ex_disabled of (r, c', db') \<Rightarrow> map u_Role (pg_rows db') = [RoleBanned, RoleUser]"
proof -
  let ?u = "(ex_row 1 ''bob'' ''b@x'' ''secret12'')\<lparr>u_Role := RoleDisabled\<rparr>"
  obtain r c' db' where run: "setRole ex_admin ex_set_role ex_disabled = (r, c', db')" by (rule prod_cases3)
  have db: "users_inv ex_disabled" "healthy ex_disabled" "?u \<in> set (pg_rows ex_disabled)"
    by (simp_all add: ex_disabled_def users_inv_def) (simp_all add: pg_table_def ex_row_def)
  have u: "0 < u_ID ?u" "i64_ok (u_ID ?u)" by (simp_all add: ex_row_def i64_ok_def)
  have st: "uh_store ex_admin = PGStore (\<lambda>x. x)" by (simp add: ex_admin_def)
  let ?p = "\<lparr>up_Users = [userRow (\<lambda>_. 0) ?u], up_Roles = roleOpts, up_Total = 1, up_Msg = [], up_Err = [], up_CSRFToken = ''t''\<rparr>"
  have texts: "Itoa 1 = ''1''" "Itoa (-2) = ''-2''" by code_simp+
  have roles: "up_Roles ?p = roleOpts" by simp
  have form: "untouched_field (user_html ?p (userRow (\<lambda>_. 0) ?u)) ''/admin/p/users/set-role'' ''user_id'' = Some (g_form ex_set_role ''user_id'')"
    "untouched_field (user_html ?p (userRow (\<lambda>_. 0) ?u)) ''/admin/p/users/set-role'' ''role'' = Some (g_form ex_set_role ''role'')"
    unfolding untouched_id untouched_role_value [OF roles]
    by (simp_all add: ex_set_role_def userRow_def ex_row_def roleOpts_def texts)
  from untouched_role_form_bans_unlisted [OF db u st roles refl form run]
  have "map u_Role (pg_rows db') = [RoleBanned, RoleUser]"
    by (simp add: ex_disabled_def pg_table_def ex_row_def)
  then show ?thesis using run by simp
qed

end
