(* ===== verification/Site.thy ===== *)
theory Site
  imports Webauth Authtoken Account Adminusers
begin

text \<open>
  A running site: a host that wires the sign-in packages together as their documentation says, with
  many requests on one users table and one token table. A request arrives with some session map that
  the site has signed before, whoever it was signed for and however old it is (a cookie can be kept
  and sent again), or with none; a handler is one step. The events of a run record who did what, in
  which state of the site. The properties say what every such run has in common: who a request is
  admitted as, why an account has changed, and how accounts join.
\<close>

section \<open>The host and its state\<close>

text \<open>
  The host's resolver looks the id up in the users table at every request; it may refuse a stored
  account (a banned one), it does not make one up. The administrators' pages are behind the gate for
  \<open>h_admin_role\<close>.
\<close>

record host =
  h_bcrypt :: bcrypt
  h_flow :: "users_db flow"
  h_tflow :: "(tokens_db, users_db) tflow"
  h_auth :: auth
  h_resolve :: "users_db \<Rightarrow> int \<Rightarrow> core_user option \<times> int \<times> bool"
  h_account :: "users_db account_handler"
  h_admin :: "users_db users_handler"
  h_admin_role :: role

definition wired :: "host \<Rightarrow> (string \<Rightarrow> string) \<Rightarrow> bool" where
  "wired H lower \<longleftrightarrow>
     f_Users (h_flow H) = PGStore lower \<and> tf_Users (h_tflow H) = PGStore lower \<and> tf_Tokens (h_tflow H) = TokenPG
     \<and> ah_flow (h_account H) = h_flow H \<and> uh_store (h_admin H) = PGStore lower
     \<and> (\<forall>db i u changed. h_resolve H db i = (Some u, changed, True) \<longrightarrow> ToCore (users_tbl db i) = Some u)"

record site =
  si_world :: "(tokens_db, users_db) tworld"
  si_signed :: "(string \<Rightarrow> sval option) set"
  si_clock :: time

definition site_users :: "site \<Rightarrow> users_db" where
  "site_users s = w_users (si_world s)"

definition site_tokens :: "site \<Rightarrow> tokens_db" where
  "site_tokens s = w_tokens (si_world s)"

definition with_users :: "users_db \<Rightarrow> site \<Rightarrow> site" where
  "with_users db s = s\<lparr>si_world := (si_world s)\<lparr>w_users := db\<rparr>\<rparr>"

definition with_tokens :: "tokens_db \<Rightarrow> site \<Rightarrow> site" where
  "with_tokens db s = s\<lparr>si_world := (si_world s)\<lparr>w_tokens := db\<rparr>\<rparr>"

definition signs :: "sess \<Rightarrow> site \<Rightarrow> site" where
  "signs se s = s\<lparr>si_signed := insert (s_saved se) (si_signed s)\<rparr>"

definition site_auth :: "host \<Rightarrow> site \<Rightarrow> auth" where
  "site_auth H s = (h_auth H)\<lparr>a_Resolve := h_resolve H (site_users s)\<rparr>"

definition site_now :: "site \<Rightarrow> int" where
  "site_now s = Unix (si_clock s)"

text \<open>A request: the session is one the site has signed, or a fresh one; the rest is anything.\<close>

definition request :: "site \<Rightarrow> gctx \<Rightarrow> bool" where
  "request s c \<longleftrightarrow> s_vals (g_sess c) = s_saved (g_sess c) \<and> s_saved (g_sess c) \<in> insert Map.empty (si_signed s)
     \<and> g_keys c = Map.empty \<and> g_log c = []"

section \<open>Steps\<close>

datatype gate = SoftGate | MinRole role | ExactRole role

fun run_gate :: "gate \<Rightarrow> int \<Rightarrow> auth \<Rightarrow> gctx \<Rightarrow> gctx" where
  "run_gate SoftGate now a = Soft now a"
| "run_gate (MinRole r) now a = Require now a r"
| "run_gate (ExactRole r) now a = RequireExact now a r"

datatype site_event =
    SignIn int string string time
  | SignInDenied string string
  | SignOut
  | Visit gate
  | SignUp string string string
  | ChangesPassword int string string
  | SetsRole int int
  | ResetsPassword int int string
  | Forgot string "gerr + bytes"
  | Resets string string
  | SendsVerify int string "gerr + bytes"
  | Confirms string
  | Passing

text \<open>A page behind a gate: the gate lets the request on to it, and it runs on the context the gate leaves.\<close>

definition behind :: "host \<Rightarrow> site \<Rightarrow> role \<Rightarrow> gctx \<Rightarrow> core_user \<Rightarrow> gctx \<Rightarrow> bool" where
  "behind H s r c me c1 \<longleftrightarrow>
     request s c \<and> passes (Require (site_now s) (site_auth H s) r) c
     \<and> c1 = Require (site_now s) (site_auth H s) r c
     \<and> Current (site_now s) (site_auth H s) c1 = (Some me, True, c1)"

definition site_account :: "host \<Rightarrow> site \<Rightarrow> users_db account_handler" where
  "site_account H s = (h_account H)\<lparr>ah_current := Current (site_now s) (site_auth H s)\<rparr>"

definition login_keys :: "string set" where
  "login_keys = {''user_id'', ''login_at'', ''login_ip'', ''password_changed_at''}"

inductive site_step :: "host \<Rightarrow> site \<Rightarrow> site_event \<Rightarrow> site \<Rightarrow> bool" for H where
  sign_in: "request s c \<Longrightarrow>
     Authenticate (h_bcrypt H) salt (h_flow H) ident pw (site_users s) = (Inr u, db) \<Longrightarrow>
     flow_Issue (si_clock s) u (g_sess c) = (err, se) \<Longrightarrow>
     site_step H s (SignIn (u_ID u) ident pw (si_clock s)) (signs se (with_users db s))"
| denied: "Authenticate (h_bcrypt H) salt (h_flow H) ident pw (site_users s) = (Inl e, db) \<Longrightarrow>
     site_step H s (SignInDenied ident pw) (with_users db s)"
| sign_out: "request s c \<Longrightarrow> Clear (g_sess c) = (err, se) \<Longrightarrow> site_step H s SignOut (signs se s)"
| visit: "request s c \<Longrightarrow>
     site_step H s (Visit g) (signs (g_sess (run_gate g (site_now s) (site_auth H s) c)) s)"
| sign_up: "Register (h_bcrypt H) salt (h_flow H) username email pw (site_users s) = (r, db) \<Longrightarrow>
     site_step H s (SignUp username email pw) (with_users db s)"
| account: "behind H s RoleUser c me c1 \<Longrightarrow>
     changePassword (h_bcrypt H) salt (site_account H s) c1 (site_users s) = (r, c2, db) \<Longrightarrow>
     site_step H s (ChangesPassword (cu_ID me) (g_form c1 ''current_password'') (g_form c1 ''new_password''))
       (signs (g_sess c2) (with_users db s))"
| set_role: "behind H s (h_admin_role H) c me c1 \<Longrightarrow>
     setRole (h_admin H) c1 (site_users s) = (r, c2, db) \<Longrightarrow>
     site_step H s (SetsRole (cu_ID me) (fst (ParseInt (g_form c1 ''user_id'')))) (signs (g_sess c2) (with_users db s))"
| admin_reset: "behind H s (h_admin_role H) c me c1 \<Longrightarrow>
     resetPassword (h_bcrypt H) salt (h_admin H) c1 (site_users s) = (r, c2, db) \<Longrightarrow>
     site_step H s (ResetsPassword (cu_ID me) (fst (ParseInt (g_form c1 ''user_id''))) (g_form c1 ''password''))
       (signs (g_sess c2) (with_users db s))"
| forgot: "RequestReset rnd (si_clock s) (h_tflow H) email (si_world s) = (r, w) \<Longrightarrow>
     site_step H s (Forgot email rnd) (s\<lparr>si_world := w\<rparr>)"
| reset: "PerformReset (h_bcrypt H) salt (h_tflow H) tok pw (si_world s) = (r, w) \<Longrightarrow>
     site_step H s (Resets tok pw) (s\<lparr>si_world := w\<rparr>)"
| send_verify: "SendVerify rnd (si_clock s) (h_tflow H) uid email (si_world s) = (r, w) \<Longrightarrow>
     site_step H s (SendsVerify uid email rnd) (s\<lparr>si_world := w\<rparr>)"
| confirm: "ConfirmVerify (h_tflow H) tok (si_world s) = (r, w) \<Longrightarrow>
     site_step H s (Confirms tok) (s\<lparr>si_world := w\<rparr>)"
| host_key: "m \<in> insert Map.empty (si_signed s) \<Longrightarrow> k \<notin> login_keys \<Longrightarrow>
     site_step H s Passing (s\<lparr>si_signed := insert (m(k := v)) (si_signed s)\<rparr>)"
| time: "si_clock s \<le> t \<Longrightarrow> Unix t < 2 ^ 63 \<Longrightarrow> site_step H s Passing (s\<lparr>si_clock := t\<rparr>)"
| users_weather: "site_step H s Passing
     (with_users ((site_users s)\<lparr>pg_script := os, pg_pos := pos, pg_now := t\<rparr>) s)"
| tokens_weather: "site_step H s Passing
     (with_tokens ((site_tokens s)\<lparr>pg_script := os', pg_pos := pos', pg_now := t'\<rparr>) s)"

text \<open>The history of a run: each event with the state it happened in, the latest last.\<close>

type_synonym history = "(site \<times> site_event) list"

inductive site_run :: "host \<Rightarrow> site \<Rightarrow> history \<Rightarrow> site \<Rightarrow> bool" for H where
  start: "site_run H s [] s"
| step: "site_run H s0 tr s \<Longrightarrow> site_step H s ev s' \<Longrightarrow> site_run H s0 (tr @ [(s, ev)]) s'"

inductive_cases site_stepE: "site_step H s ev s'"
inductive_simps site_run_Nil [simp]: "site_run H s [] s'"

text \<open>A site that has just been deployed over an existing users table.\<close>

definition deployed_site :: "site \<Rightarrow> bool" where
  "deployed_site s \<longleftrightarrow> users_inv (site_users s) \<and> si_signed s = {} \<and> unused_tokens (site_tokens s) = {#}
     \<and> Unix (si_clock s) < 2 ^ 63 \<and> 0 < Unix (si_clock s)"

lemma site_simps [simp]:
  "site_users (with_users db s) = db" "site_tokens (with_users db s) = site_tokens s"
  "si_signed (with_users db s) = si_signed s" "si_clock (with_users db s) = si_clock s"
  "site_users (with_tokens tb s) = site_users s" "site_tokens (with_tokens tb s) = tb"
  "si_signed (with_tokens tb s) = si_signed s" "si_clock (with_tokens tb s) = si_clock s"
  "site_users (signs se s) = site_users s" "site_tokens (signs se s) = site_tokens s"
  "si_signed (signs se s) = insert (s_saved se) (si_signed s)" "si_clock (signs se s) = si_clock s"
  "site_users (s\<lparr>si_world := w\<rparr>) = w_users w" "site_tokens (s\<lparr>si_world := w\<rparr>) = w_tokens w"
  "site_users (s\<lparr>si_signed := m\<rparr>) = site_users s" "site_tokens (s\<lparr>si_signed := m\<rparr>) = site_tokens s"
  "site_users (s\<lparr>si_clock := t\<rparr>) = site_users s" "site_tokens (s\<lparr>si_clock := t\<rparr>) = site_tokens s"
  by (simp_all add: site_users_def site_tokens_def with_users_def with_tokens_def signs_def)

section \<open>Sessions\<close>

definition claims_of :: "(string \<Rightarrow> sval option) \<Rightarrow> Claims option" where
  "claims_of m = Read \<lparr>s_vals = m, s_saved = m, s_fault = None\<rparr>"

lemma claims_of_empty [simp]: "claims_of Map.empty = None"
  by (simp add: claims_of_def)

lemma Read_claims_of: "Read se = claims_of (s_vals se)"
  unfolding claims_of_def by (rule Read_vals) simp

lemma claims_of_other_key: "k \<notin> login_keys \<Longrightarrow> claims_of (m(k := v)) = claims_of m"
  by (auto simp: claims_of_def Read_def Let_def login_keys_def)

lemma request_claims:
  assumes "request s c" "Read (g_sess c) = Some cl"
  shows "\<exists>m\<in>si_signed s. claims_of m = Some cl"
  using assms by (auto simp: request_def Read_claims_of)

text \<open>A gate leaves the session of a request as it was saved, or wipes it.\<close>

lemma resolve_saved: "s_saved (g_sess (snd (snd (resolve now a c)))) \<in> {s_saved (g_sess c), Map.empty}"
proof (cases rule: resolve_cases [of now a c])
  case (rejected fail cl)
  then show ?thesis using clear_session_saved [of c]
    by (cases "s_fault (g_sess c)") (simp_all add: clear_session_def Clear_def session_ops)
qed simp_all

lemma run_gate_sess: "g_sess (run_gate g now a c) = g_sess (snd (snd (resolve now a c)))"
  by (cases g; cases rule: resolve_cases [of now a c])
    (auto simp: Soft_def gate_eqs split: option.split authFail.split)

lemma gate_passed:
  assumes "passes (Require now a r) c"
  obtains cl u where "Read (g_sess c) = Some cl" "valid_claims now a c cl u" "r \<le> cu_Role u"
    "g_sess (Require now a r c) = g_sess c"
    "Current now a (Require now a r c) = (Some u, True, Require now a r c)"
proof -
  from assms obtain cl u where cl: "Read (g_sess c) = Some cl" "valid_claims now a c cl u" "r \<le> cu_Role u"
    unfolding Require_passes_iff by blast
  then have "Require now a r c = call CNext (enrich a u (set_user u c))"
    using Require_granted [OF resolve_granted [OF cl(1,2)]] by simp
  with cl show ?thesis by (intro that) (simp_all add: Current_def)
qed

lemma behindD:
  assumes "behind H s r c me c1"
  shows "request s c" and "Current (site_now s) (site_auth H s) c1 = (Some me, True, c1)" and "g_sess c1 = g_sess c"
proof -
  from assms have b: "request s c" "passes (Require (site_now s) (site_auth H s) r) c"
    "c1 = Require (site_now s) (site_auth H s) r c" "Current (site_now s) (site_auth H s) c1 = (Some me, True, c1)"
    unfolding behind_def by blast+
  then show "request s c" "Current (site_now s) (site_auth H s) c1 = (Some me, True, c1)" by blast+
  show "g_sess c1 = g_sess c" unfolding b(3) by (rule gate_passed [OF b(2)])
qed

lemma behind_actor:
  assumes "behind H s r c me c1"
  obtains cl where "Read (g_sess c) = Some cl" "valid_claims (site_now s) (site_auth H s) c cl me"
    "r \<le> cu_Role me"
proof -
  from assms obtain cl u where "Read (g_sess c) = Some cl" "valid_claims (site_now s) (site_auth H s) c cl u"
    "r \<le> cu_Role u" "Current (site_now s) (site_auth H s) c1 = (Some u, True, c1)"
    unfolding behind_def by (auto elim: gate_passed)
  with behindD(2) [OF assms] that show ?thesis by simp
qed

lemma behind_current: "behind H s r c me c1 \<Longrightarrow> ah_current (site_account H s) c1 = (Some me, True, c1)"
  using behindD(2) by (simp add: site_account_def)

text \<open>The pages do not touch the session.\<close>

lemma users_redirect_sess [simp]: "g_sess (fst (snd (users_redirect key val c s))) = g_sess c"
  by (simp add: users_redirect_def redirect_to_def)

lemma admin_pages_sess:
  "g_sess (fst (snd (setRole h c s))) = g_sess c" "g_sess (fst (snd (resetPassword B salt h c s))) = g_sess c"
  by (simp_all add: setRole_def resetPassword_def Let_def split: sum.split prod.split)

lemma account_page_sess:
  assumes "changePassword B salt h c s = (r, c2, s')" "ah_current h c = (Some me, True, c1)"
  shows "g_sess c2 = g_sess c1"
  by (rule changePassword_runs [OF assms]) simp

text \<open>Every login that a signed session carries was stamped by an earlier or by this sign-in.\<close>

lemma site_step_signed:
  assumes "site_step H s ev s'" "m \<in> si_signed s'" "claims_of m = Some cl"
  shows "(\<exists>m\<in>si_signed s. claims_of m = Some cl)
    \<or> (\<exists>uid ident pw. ev = SignIn uid ident pw (si_clock s) \<and> UserID cl = uid \<and> LoginAt cl = site_now s)"
proof -
  have kept: "\<exists>m\<in>si_signed s. claims_of m = Some cl" if "request s c" "m \<in> insert (s_saved se) (si_signed s)"
    "s_saved se \<in> {s_saved (g_sess c), Map.empty}" for c se
    using that assms(3) by (auto simp: request_def)
  show ?thesis
    using assms(1)
  proof cases
    case (sign_in c salt ident pw u db err se)
    show ?thesis
    proof (cases "s_fault (g_sess c)")
      case None
      have se: "se = snd (Issue (si_clock s) (u_ID u) [] 0 (g_sess c))" using sign_in(5) by (simp add: flow_Issue_def)
      have "claims_of (s_saved se) = Read se"
        using Issue_saved [OF None, of "si_clock s" "u_ID u" "[]" 0] by (simp add: se Read_claims_of)
      with sign_in assms(2,3) show ?thesis by (auto simp: se Read_Issue site_now_def split: if_splits)
    next
      case (Some e)
      with sign_in(5) Issue_fault [OF Some, of "si_clock s" "u_ID u" "[]" 0] have "s_saved se = s_saved (g_sess c)"
        by (auto simp: flow_Issue_def)
      with sign_in(2,3) assms(2) kept [OF sign_in(3), of se] show ?thesis by simp
    qed
  next
    case (sign_out c err se)
    have "s_saved se \<in> {s_saved (g_sess c), Map.empty}"
      using sign_out(4) by (auto simp: Clear_def session_ops split: option.splits)
    with sign_out assms(2) kept [OF sign_out(3), of se] show ?thesis by simp
  next
    case (visit c g)
    with assms(2) kept [OF visit(3), of "g_sess (run_gate g (site_now s) (site_auth H s) c)"]
      resolve_saved [of "site_now s" "site_auth H s" c]
    show ?thesis by (simp add: run_gate_sess)
  next
    case (account c me c1 salt r c2 db)
    have "g_sess c2 = g_sess c1"
      by (rule account_page_sess [OF account(4) behind_current [OF account(3)]])
    with account(2) assms(2) kept [OF behindD(1) [OF account(3)], of "g_sess c2"] behindD(3) [OF account(3)] show ?thesis by simp
  next
    case (set_role c me c1 r c2 db)
    have "g_sess c2 = g_sess c1" using admin_pages_sess(1) [of "h_admin H" c1 "site_users s"] set_role(4) by simp
    with set_role(2) assms(2) kept [OF behindD(1) [OF set_role(3)], of "g_sess c2"] behindD(3) [OF set_role(3)] show ?thesis by simp
  next
    case (admin_reset c me c1 salt r c2 db)
    have "g_sess c2 = g_sess c1"
      using admin_pages_sess(2) [of "h_bcrypt H" salt "h_admin H" c1 "site_users s"] admin_reset(4) by simp
    with admin_reset(2) assms(2) kept [OF behindD(1) [OF admin_reset(3)], of "g_sess c2"] behindD(3) [OF admin_reset(3)] show ?thesis by simp
  next
    case (host_key m' k v)
    with assms(2,3) show ?thesis by (auto simp: claims_of_other_key)
  qed (use assms(2,3) in auto)
qed

section \<open>Accounts\<close>

text \<open>The identifier stands for the account, and its stored hash accepts the password.\<close>

definition knows :: "host \<Rightarrow> (string \<Rightarrow> string) \<Rightarrow> site \<Rightarrow> int \<Rightarrow> string \<Rightarrow> string \<Rightarrow> bool" where
  "knows H lower s uid ident pw \<longleftrightarrow>
     (\<exists>u. users_tbl (site_users s) uid = Some u \<and> (named lower (TrimSpace ident) u \<or> mailed lower (TrimSpace ident) u)
        \<and> fst (Verify (h_bcrypt H) (f_Hasher (h_flow H)) (u_PasswordHash u) pw))"

definition accepts :: "host \<Rightarrow> site \<Rightarrow> int \<Rightarrow> string \<Rightarrow> bool" where
  "accepts H s uid pw \<longleftrightarrow>
     (\<exists>u. users_tbl (site_users s) uid = Some u \<and> fst (Verify (h_bcrypt H) (f_Hasher (h_flow H)) (u_PasswordHash u) pw))"

definition holds_token :: "site \<Rightarrow> purpose \<Rightarrow> string \<Rightarrow> int \<Rightarrow> bool" where
  "holds_token s p tok uid \<longleftrightarrow>
     (\<exists>e. (p, hashToken tok, uid, e) \<in># unused_tokens (site_tokens s) \<and> pg_now (site_tokens s) < e)"

text \<open>What an event must bring to write the password hash, the role and the verified mark of an account.\<close>

fun sets_hash :: "host \<Rightarrow> (string \<Rightarrow> string) \<Rightarrow> site \<Rightarrow> site_event \<Rightarrow> int \<Rightarrow> bool" where
  "sets_hash H lower s (SignIn i ident pw t) uid \<longleftrightarrow> i = uid \<and> knows H lower s uid ident pw"
| "sets_hash H lower s (ChangesPassword i cur nw) uid \<longleftrightarrow>
     i = uid \<and> accepts H s uid cur \<and> minLen (h_flow H) \<le> int (length nw)"
| "sets_hash H lower s (ResetsPassword actor i pw) uid \<longleftrightarrow> i = uid \<and> 8 \<le> length pw"
| "sets_hash H lower s (Resets tok pw) uid \<longleftrightarrow>
     holds_token s PasswordReset tok uid \<and> token_minLen (h_tflow H) \<le> int (length pw)"
| "sets_hash H lower s _ uid \<longleftrightarrow> False"

fun sets_role :: "site_event \<Rightarrow> int \<Rightarrow> bool" where
  "sets_role (SetsRole actor i) uid \<longleftrightarrow> i = uid"
| "sets_role _ uid \<longleftrightarrow> False"

fun sets_verified :: "site \<Rightarrow> site_event \<Rightarrow> int \<Rightarrow> bool" where
  "sets_verified s (Confirms tok) uid \<longleftrightarrow> holds_token s EmailVerify tok uid"
| "sets_verified s _ uid \<longleftrightarrow> False"

text \<open>How the row of an account may move in one step.\<close>

definition moves :: "host \<Rightarrow> (string \<Rightarrow> string) \<Rightarrow> site \<Rightarrow> site_event \<Rightarrow> user \<Rightarrow> user \<Rightarrow> bool" where
  "moves H lower s ev u v \<longleftrightarrow>
     u_ID v = u_ID u \<and> u_Username v = u_Username u \<and> u_Email v = u_Email u \<and> u_CreatedAt v = u_CreatedAt u
     \<and> (u_PasswordHash v = u_PasswordHash u \<or> sets_hash H lower s ev (u_ID u))
     \<and> (u_Role v = u_Role u \<or> sets_role ev (u_ID u))
     \<and> (u_EmailVerified v = u_EmailVerified u \<or> sets_verified s ev (u_ID u))"

lemma moves_refl [simp]: "moves H lower s ev u u"
  by (simp add: moves_def)

text \<open>An account that a registration adds has a name that no account bore.\<close>

fun joins :: "host \<Rightarrow> (string \<Rightarrow> string) \<Rightarrow> site \<Rightarrow> site_event \<Rightarrow> user \<Rightarrow> bool" where
  "joins H lower s (SignUp username email pw) v \<longleftrightarrow>
     (\<exists>salt. newcomer (h_bcrypt H) salt (h_flow H) username email pw v)
     \<and> (\<forall>j w. users_tbl (site_users s) j = Some w \<longrightarrow> \<not> named lower (u_Username v) w)"
| "joins H lower s _ v \<longleftrightarrow> False"

definition rows_move :: "host \<Rightarrow> (string \<Rightarrow> string) \<Rightarrow> site \<Rightarrow> site_event \<Rightarrow> users_db \<Rightarrow> users_db \<Rightarrow> bool" where
  "rows_move H lower s ev db db' \<longleftrightarrow>
     (\<forall>i u. users_tbl db i = Some u \<longrightarrow> (\<exists>v. users_tbl db' i = Some v \<and> moves H lower s ev u v))
     \<and> (\<forall>i v. users_tbl db i = None \<and> users_tbl db' i = Some v \<longrightarrow>
          joins H lower s ev v \<and> (\<forall>j. j \<noteq> i \<longrightarrow> users_tbl db' j = users_tbl db j))"

lemma rows_moveD:
  assumes "rows_move H lower s ev db db'"
  shows "users_tbl db i = Some u \<Longrightarrow> \<exists>v. users_tbl db' i = Some v \<and> moves H lower s ev u v"
    and "users_tbl db i = None \<Longrightarrow> users_tbl db' i = Some v \<Longrightarrow> joins H lower s ev v"
    and "users_tbl db i = None \<Longrightarrow> users_tbl db' i = Some v \<Longrightarrow> j \<noteq> i \<Longrightarrow> users_tbl db' j = users_tbl db j"
  using assms unfolding rows_move_def by blast+

lemma joins_free: "joins H lower s ev v \<Longrightarrow> users_tbl (site_users s) j = Some w \<Longrightarrow> \<not> named lower (u_Username v) w"
  by (cases ev) auto

lemma rows_move_same: "users_tbl db' = users_tbl db \<Longrightarrow> rows_move H lower s ev db db'"
  by (auto simp: rows_move_def)

lemma rows_move_one:
  assumes "users_inv db" "users_tbl db' = users_tbl db \<or> users_tbl db' = (users_tbl db)(i := map_option g (users_tbl db i))"
    and "\<And>u. users_tbl db i = Some u \<Longrightarrow> u_ID u = i \<Longrightarrow> moves H lower s ev u (g u)"
  shows "rows_move H lower s ev db db'"
  unfolding rows_move_def
proof (intro conjI allI impI)
  fix j u
  assume u: "users_tbl db j = Some u"
  then have "u_ID u = j" using users_tbl_iff [OF assms(1)] by blast
  with u assms(2,3) show "\<exists>v. users_tbl db' j = Some v \<and> moves H lower s ev u v" by (cases "j = i") auto
qed (use assms(2) in \<open>auto split: if_splits\<close>)

lemma rows_move_new:
  assumes "users_tbl db' = users_tbl db \<or> (\<exists>i v. users_tbl db i = None \<and> users_tbl db' = (users_tbl db)(i \<mapsto> v) \<and> joins H lower s ev v)"
  shows "rows_move H lower s ev db db'"
  using assms by (auto simp: rows_move_def split: if_splits)

section \<open>One step\<close>

text \<open>The handlers of one step, one after the other.\<close>

lemma sign_in_moves:
  assumes "wired H lower" "users_inv (site_users s)"
    and "Authenticate (h_bcrypt H) salt (h_flow H) ident pw (site_users s) = (Inr u, db)"
  shows "users_inv db \<and> knows H lower s (u_ID u) ident pw
    \<and> rows_move H lower s (SignIn (u_ID u) ident pw t) (site_users s) db"
proof -
  from assms(1) have S: "f_Users (h_flow H) = PGStore lower" by (simp add: wired_def)
  note A = pg_users.Authenticate_granted [OF assms(2) S assms(3)]
  then have k: "knows H lower s (u_ID u) ident pw" unfolding knows_def by blast
  from A have "users_tbl db = users_tbl (site_users s) \<or> (\<exists>h. users_tbl db =
      (users_tbl (site_users s))(u_ID u := map_option (u_PasswordHash_update (\<lambda>_. h)) (users_tbl (site_users s) (u_ID u))))"
    by auto
  then have "rows_move H lower s (SignIn (u_ID u) ident pw t) (site_users s) db"
  proof
    assume "\<exists>h. users_tbl db =
      (users_tbl (site_users s))(u_ID u := map_option (u_PasswordHash_update (\<lambda>_. h)) (users_tbl (site_users s) (u_ID u)))"
    then obtain h where upd: "users_tbl db =
      (users_tbl (site_users s))(u_ID u := map_option (u_PasswordHash_update (\<lambda>_. h)) (users_tbl (site_users s) (u_ID u)))" ..
    show ?thesis by (rule rows_move_one [OF assms(2) disjI2 [OF upd]]) (use k in \<open>auto simp: moves_def\<close>)
  qed (rule rows_move_same)
  with A k show ?thesis by blast
qed

lemma denied_moves:
  assumes "wired H lower" "users_inv (site_users s)"
    and "Authenticate (h_bcrypt H) salt (h_flow H) ident pw (site_users s) = (Inl e, db)"
  shows "users_inv db \<and> rows_move H lower s ev (site_users s) db"
  using pg_users.Authenticate_refused(1) [OF assms(2) _ assms(3)] assms(1) by (auto simp: wired_def intro: rows_move_same)

lemma sign_up_moves:
  assumes "wired H lower" "users_inv (site_users s)"
    and "Register (h_bcrypt H) salt (h_flow H) username email pw (site_users s) = (r, db)"
  shows "users_inv db \<and> rows_move H lower s (SignUp username email pw) (site_users s) db"
proof -
  from assms(1) have S: "f_Users (h_flow H) = PGStore lower" by (simp add: wired_def)
  from pg_users.Register_adds [OF assms(2) S assms(3)] show ?thesis
    by (intro conjI rows_move_new) (auto intro: exI [of _ salt])
qed

lemma account_moves:
  assumes "wired H lower" "users_inv (site_users s)" "behind H s r c me c1"
    and run: "changePassword (h_bcrypt H) salt (site_account H s) c1 (site_users s) = (q, c2, db)"
  shows "users_inv db \<and> rows_move H lower s
    (ChangesPassword (cu_ID me) (g_form c1 ''current_password'') (g_form c1 ''new_password'')) (site_users s) db"
proof -
  let ?ev = "ChangesPassword (cu_ID me) (g_form c1 ''current_password'') (g_form c1 ''new_password'')"
  from assms(1) have S: "f_Users (h_flow H) = PGStore lower" and ah: "ah_flow (site_account H s) = h_flow H"
    by (simp_all add: wired_def site_account_def)
  obtain q' where "db = site_users s \<or> ChangePassword (h_bcrypt H) salt (h_flow H) (cu_ID me)
      (g_form c1 ''current_password'') (g_form c1 ''new_password'') (site_users s) = (q', db)"
    by (rule changePassword_runs [OF run behind_current [OF assms(3)]]) (auto simp: ah)
  then show ?thesis
  proof
    assume "db = site_users s"
    with assms(2) show ?thesis by (simp add: rows_move_same)
  next
    assume c: "ChangePassword (h_bcrypt H) salt (h_flow H) (cu_ID me)
      (g_form c1 ''current_password'') (g_form c1 ''new_password'') (site_users s) = (q', db)"
    note C = pg_users.ChangePassword_result [OF assms(2) S c]
    have "rows_move H lower s ?ev (site_users s) db"
    proof (cases "users_tbl db = users_tbl (site_users s)")
      case False
      with C(2,3) obtain u h where u: "users_tbl (site_users s) (cu_ID me) = Some u"
        "fst (Verify (h_bcrypt H) (f_Hasher (h_flow H)) (u_PasswordHash u) (g_form c1 ''current_password''))"
        "minLen (h_flow H) \<le> int (length (g_form c1 ''new_password''))"
        "users_tbl db = (users_tbl (site_users s))(cu_ID me \<mapsto> u\<lparr>u_PasswordHash := h\<rparr>)"
        by (cases q') fastforce+
      then have upd: "users_tbl db = (users_tbl (site_users s))
          (cu_ID me := map_option (u_PasswordHash_update (\<lambda>_. h)) (users_tbl (site_users s) (cu_ID me)))" by simp
      show ?thesis
        by (rule rows_move_one [OF assms(2) disjI2 [OF upd]]) (use u in \<open>auto simp: moves_def accepts_def\<close>)
    qed (rule rows_move_same)
    with C(1) show ?thesis by blast
  qed
qed

lemma set_role_moves:
  assumes "wired H lower" "users_inv (site_users s)" "setRole (h_admin H) c1 (site_users s) = (r, c2, db)"
  shows "users_inv db \<and> rows_move H lower s (SetsRole actor (fst (ParseInt (g_form c1 ''user_id'')))) (site_users s) db"
proof -
  let ?i = "fst (ParseInt (g_form c1 ''user_id''))" and ?role = "fst (Atoi (g_form c1 ''role''))"
  obtain q d where d: "us_SetRole (PGStore lower) ?i ?role (site_users s) = (q, d)" by (rule prod.exhaust)
  have d': "users_inv d \<and> (users_tbl d = users_tbl (site_users s)
      \<or> users_tbl d = (users_tbl (site_users s))(?i := map_option (u_Role_update (\<lambda>_. ?role)) (users_tbl (site_users s) ?i)))"
    using pg_users.SetRole_ok [OF assms(2), of lower ?i ?role d] pg_users.SetRole_err [OF assms(2), of lower ?i ?role _ d] d
    by (cases q) auto
  moreover have "rows_move H lower s (SetsRole actor ?i) (site_users s) d"
    by (rule rows_move_one [OF assms(2) conjunct2 [OF d']]) (simp add: moves_def)
  moreover have "db = site_users s \<or> db = d"
    using arg_cong [OF assms(3), of "\<lambda>x. snd (snd x)"] d assms(1)
    by (auto simp: setRole_state Let_def wired_def split: prod.splits if_splits)
  ultimately show ?thesis using assms(2) rows_move_same by metis
qed

lemma admin_reset_moves:
  assumes "wired H lower" "users_inv (site_users s)"
    and "resetPassword (h_bcrypt H) salt (h_admin H) c1 (site_users s) = (r, c2, db)"
  shows "users_inv db \<and> rows_move H lower s
    (ResetsPassword actor (fst (ParseInt (g_form c1 ''user_id''))) (g_form c1 ''password'')) (site_users s) db"
proof -
  let ?i = "fst (ParseInt (g_form c1 ''user_id''))" and ?pw = "g_form c1 ''password''"
  from arg_cong [OF assms(3), of "\<lambda>x. snd (snd x)"] assms(1)
  consider "db = site_users s"
    | hash where "8 \<le> length ?pw" "db = snd (us_UpdatePasswordHash (PGStore lower) ?i hash (site_users s))"
    by (auto simp: resetPassword_state Let_def wired_def not_less split: sum.splits if_splits)
  then show ?thesis
  proof cases
    case (2 hash)
    obtain q where q: "us_UpdatePasswordHash (PGStore lower) ?i hash (site_users s) = (q, db)"
      using 2(2) by (metis prod.collapse)
    have "users_inv db \<and> (users_tbl db = users_tbl (site_users s) \<or> users_tbl db = (users_tbl (site_users s))
        (?i := map_option (u_PasswordHash_update (\<lambda>_. hash)) (users_tbl (site_users s) ?i)))"
      using pg_users.UpdatePasswordHash_ok [OF assms(2), of lower ?i hash db]
        pg_users.UpdatePasswordHash_err [OF assms(2), of lower ?i hash _ db] q by (cases q) auto
    then show ?thesis using 2(1) by (auto intro!: rows_move_one [OF assms(2), of db ?i] simp: moves_def)
  qed (use assms(2) rows_move_same in auto)
qed

lemma reset_moves:
  assumes "wired H lower" "users_inv (site_users s)"
    and "PerformReset (h_bcrypt H) salt (h_tflow H) tok pw (si_world s) = (r, w)"
  shows "users_inv (w_users w) \<and> rows_move H lower s (Resets tok pw) (site_users s) (w_users w)
    \<and> unused_tokens (w_tokens w) \<subseteq># unused_tokens (site_tokens s)"
proof -
  from assms(1) have f: "tf_Tokens (h_tflow H) = TokenPG" "tf_Users (h_tflow H) = PGStore lower" by (simp_all add: wired_def)
  note E = pg_auth.PerformReset_effect [OF f assms(2) [unfolded site_users_def] assms(3)]
  have "rows_move H lower s (Resets tok pw) (site_users s) (w_users w)"
  proof (cases "users_tbl (w_users w) = users_tbl (site_users s)")
    case False
    with E obtain uid e h where u: "(PasswordReset, hashToken tok, uid, e) \<in># unused_tokens (site_tokens s)"
        "pg_now (site_tokens s) < e" "token_minLen (h_tflow H) \<le> int (length pw)"
        "users_tbl (w_users w) = (users_tbl (site_users s))
              (uid := map_option (u_PasswordHash_update (\<lambda>_. h)) (users_tbl (site_users s) uid))"
      unfolding site_users_def site_tokens_def by blast
    show ?thesis
      by (rule rows_move_one [OF assms(2) disjI2 [OF u(4)]]) (use u(1-3) in \<open>auto simp: moves_def holds_token_def\<close>)
  qed (rule rows_move_same)
  with E show ?thesis by (auto simp: site_tokens_def)
qed

lemma confirm_moves:
  assumes "wired H lower" "users_inv (site_users s)" "ConfirmVerify (h_tflow H) tok (si_world s) = (r, w)"
  shows "users_inv (w_users w) \<and> rows_move H lower s (Confirms tok) (site_users s) (w_users w)
    \<and> unused_tokens (w_tokens w) \<subseteq># unused_tokens (site_tokens s)"
proof -
  from assms(1) have f: "tf_Tokens (h_tflow H) = TokenPG" "tf_Users (h_tflow H) = PGStore lower" by (simp_all add: wired_def)
  note E = pg_auth.ConfirmVerify_effect [OF f assms(2) [unfolded site_users_def] assms(3)]
  have "rows_move H lower s (Confirms tok) (site_users s) (w_users w)"
  proof (cases "users_tbl (w_users w) = users_tbl (site_users s)")
    case False
    with E obtain uid e where u: "(EmailVerify, hashToken tok, uid, e) \<in># unused_tokens (site_tokens s)"
        "pg_now (site_tokens s) < e" "users_tbl (w_users w) = (users_tbl (site_users s))
              (uid := map_option (u_EmailVerified_update (\<lambda>_. True)) (users_tbl (site_users s) uid))"
      unfolding site_users_def site_tokens_def by blast
    show ?thesis
      by (rule rows_move_one [OF assms(2) disjI2 [OF u(3)]]) (use u(1,2) in \<open>auto simp: moves_def holds_token_def\<close>)
  qed (rule rows_move_same)
  with E pg_auth.ConfirmVerify_tokens [OF f(1) assms(3)] show ?thesis by (auto simp: site_tokens_def)
qed

text \<open>
  A step keeps the users table in order, moves every account as the event may, and stores at most the
  token that the event asks for.
\<close>

fun issues :: "host \<Rightarrow> (string \<Rightarrow> string) \<Rightarrow> site \<Rightarrow> site_event \<Rightarrow> unused \<Rightarrow> bool" where
  "issues H lower s (Forgot email rnd) x \<longleftrightarrow> (\<exists>buf u. rnd = Inr buf \<and> users_tbl (site_users s) (u_ID u) = Some u
     \<and> mailed lower email u
     \<and> x = (PasswordReset, hashToken (base64_rawurl buf), u_ID u, si_clock s + resetTTL (h_tflow H)))"
| "issues H lower s (SendsVerify uid email rnd) x \<longleftrightarrow> (\<exists>buf. rnd = Inr buf
     \<and> x = (EmailVerify, hashToken (base64_rawurl buf), uid, si_clock s + verifyTTL (h_tflow H)))"
| "issues H lower s _ x \<longleftrightarrow> False"

theorem site_step_effect:
  assumes "wired H lower" "users_inv (site_users s)" "site_step H s ev s'"
  shows "users_inv (site_users s') \<and> rows_move H lower s ev (site_users s) (site_users s')
    \<and> (\<forall>x. x \<in># unused_tokens (site_tokens s') \<longrightarrow> x \<in># unused_tokens (site_tokens s) \<or> issues H lower s ev x)
    \<and> (\<forall>uid ident pw t. ev = SignIn uid ident pw t \<longrightarrow> knows H lower s uid ident pw \<and> t = si_clock s)"
  using assms(3)
proof cases
  case (sign_in c salt ident pw u db err se)
  with sign_in_moves [OF assms(1,2) sign_in(4)] show ?thesis by simp
next
  case (denied salt ident pw e db)
  with denied_moves [OF assms(1,2) denied(3)] show ?thesis by simp
next
  case (sign_up salt username email pw r db)
  with sign_up_moves [OF assms(1,2) sign_up(3)] show ?thesis by simp
next
  case (account c me c1 salt r c2 db)
  with account_moves [OF assms(1,2) account(3,4)] show ?thesis by simp
next
  case (set_role c me c1 r c2 db)
  with set_role_moves [OF assms(1,2) set_role(4)] show ?thesis by simp
next
  case (admin_reset c me c1 salt r c2 db)
  with admin_reset_moves [OF assms(1,2) admin_reset(4)] show ?thesis by simp
next
  case (forgot rnd email r w)
  from assms(1) have f: "tf_Tokens (h_tflow H) = TokenPG" "tf_Users (h_tflow H) = PGStore lower" by (simp_all add: wired_def)
  note E = pg_auth.RequestReset_effect [OF f assms(2) [unfolded site_users_def] forgot(3)]
  then show ?thesis unfolding forgot(1,2) by (auto simp: site_users_def site_tokens_def intro: rows_move_same)
next
  case (send_verify rnd uid email r w)
  from assms(1) have f: "tf_Tokens (h_tflow H) = TokenPG" by (simp add: wired_def)
  note E = pg_auth.SendVerify_effect [OF f send_verify(3)]
  with assms(2) show ?thesis unfolding send_verify(1,2)
    by (auto simp: site_users_def site_tokens_def intro: rows_move_same)
next
  case (reset salt tok pw r w)
  with reset_moves [OF assms(1,2) reset(3)] show ?thesis by (auto dest: mset_subset_eqD)
next
  case (confirm tok r w)
  with confirm_moves [OF assms(1,2) confirm(3)] show ?thesis by (auto dest: mset_subset_eqD)
next
  case (users_weather os pos t)
  with assms(2) show ?thesis by (auto simp: users_inv_def intro!: rows_move_same users_tbl_cong)
next
  case (tokens_weather os pos t)
  with assms(2) show ?thesis by (auto simp: unused_tokens_def intro!: rows_move_same)
qed (use assms(2) in \<open>simp_all add: rows_move_same\<close>)

section \<open>Runs\<close>

text \<open>Something happened in a history, seen from its past and the state it happened in.\<close>

definition happened :: "history \<Rightarrow> (history \<Rightarrow> site \<Rightarrow> site_event \<Rightarrow> bool) \<Rightarrow> bool" where
  "happened tr P \<longleftrightarrow> (\<exists>past s ev rest. tr = past @ (s, ev) # rest \<and> P past s ev)"

lemma happened_Nil [simp]: "\<not> happened [] P"
  by (simp add: happened_def)

lemma happened_snoc [simp]: "happened (tr @ [(s, ev)]) P \<longleftrightarrow> happened tr P \<or> P tr s ev"
proof
  assume "happened (tr @ [(s, ev)]) P"
  then obtain past s1 ev1 rest where eq: "tr @ [(s, ev)] = past @ (s1, ev1) # rest" and P: "P past s1 ev1"
    by (auto simp: happened_def)
  show "happened tr P \<or> P tr s ev"
  proof (cases rest rule: rev_cases)
    case Nil
    with eq P show ?thesis by simp
  next
    case (snoc ys y)
    with eq have "tr = past @ (s1, ev1) # ys" by simp
    with P show ?thesis by (auto simp: happened_def)
  qed
next
  assume "happened tr P \<or> P tr s ev"
  then show "happened (tr @ [(s, ev)]) P"
  proof
    assume "happened tr P"
    then obtain past s1 ev1 rest where "tr = past @ (s1, ev1) # rest" "P past s1 ev1" by (auto simp: happened_def)
    then show ?thesis unfolding happened_def by (intro exI [of _ past] exI [of _ s1] exI [of _ ev1] exI [of _ "rest @ [(s, ev)]"]) simp
  next
    assume "P tr s ev"
    then show ?thesis by (auto simp: happened_def)
  qed
qed

lemma happened_mono: "happened tr P \<Longrightarrow> (\<And>past s ev. P past s ev \<Longrightarrow> Q past s ev) \<Longrightarrow> happened tr Q"
  unfolding happened_def by blast

text \<open>Someone has signed in as the account, with a password its hash accepted, no longer ago than a session lives.\<close>

definition signed_in :: "host \<Rightarrow> (string \<Rightarrow> string) \<Rightarrow> history \<Rightarrow> site \<Rightarrow> int \<Rightarrow> bool" where
  "signed_in H lower tr s uid \<longleftrightarrow> happened tr (\<lambda>past s1 ev. \<exists>ident pw t0. ev = SignIn uid ident pw t0
     \<and> knows H lower s1 uid ident pw \<and> t0 = si_clock s1 \<and> t0 \<le> si_clock s
     \<and> site_now s - Unix t0 \<le> dur_int Second (MaxAgeD (a_Session (h_auth H))))"

text \<open>What holds of every run of a deployed site.\<close>

definition stamped :: "host \<Rightarrow> (string \<Rightarrow> string) \<Rightarrow> site \<Rightarrow> history \<Rightarrow> site \<Rightarrow> Claims \<Rightarrow> bool" where
  "stamped H lower s0 tr s cl \<longleftrightarrow> happened tr (\<lambda>past s1 ev. \<exists>ident pw t0. ev = SignIn (UserID cl) ident pw t0
     \<and> knows H lower s1 (UserID cl) ident pw \<and> t0 = si_clock s1 \<and> LoginAt cl = Unix t0
     \<and> si_clock s0 \<le> t0 \<and> t0 \<le> si_clock s)"

definition site_inv :: "host \<Rightarrow> (string \<Rightarrow> string) \<Rightarrow> site \<Rightarrow> history \<Rightarrow> site \<Rightarrow> bool" where
  "site_inv H lower s0 tr s \<longleftrightarrow>
     users_inv (site_users s) \<and> si_clock s0 \<le> si_clock s \<and> site_now s < 2 ^ 63
     \<and> (\<forall>m\<in>si_signed s. \<forall>cl. claims_of m = Some cl \<longrightarrow> stamped H lower s0 tr s cl)
     \<and> (\<forall>x. x \<in># unused_tokens (site_tokens s) \<longrightarrow> happened tr (\<lambda>past s1 ev. issues H lower s1 ev x))"

lemma site_step_clock: "site_step H s ev s' \<Longrightarrow> si_clock s \<le> si_clock s' \<and> (site_now s < 2 ^ 63 \<longrightarrow> site_now s' < 2 ^ 63)"
  by (erule site_step.cases) (auto simp: site_now_def)

lemma site_inv_step:
  assumes "wired H lower" "site_inv H lower s0 tr s" "site_step H s ev s'"
  shows "site_inv H lower s0 (tr @ [(s, ev)]) s'"
proof -
  have inv: "users_inv (site_users s)" using assms(2) by (simp add: site_inv_def)
  note eff = site_step_effect [OF assms(1) inv assms(3)] and clock = site_step_clock [OF assms(3)]
  have "stamped H lower s0 (tr @ [(s, ev)]) s' cl" if m: "m \<in> si_signed s'" "claims_of m = Some cl" for m cl
    using site_step_signed [OF assms(3) m]
  proof
    assume "\<exists>m\<in>si_signed s. claims_of m = Some cl"
    with assms(2) have "stamped H lower s0 tr s cl" by (auto simp: site_inv_def)
    then show ?thesis using clock unfolding stamped_def
      by (simp) (rule disjI1, erule happened_mono, auto)
  next
    assume "\<exists>uid ident pw. ev = SignIn uid ident pw (si_clock s) \<and> UserID cl = uid \<and> LoginAt cl = site_now s"
    then show ?thesis using clock eff assms(2) by (auto simp: stamped_def site_inv_def site_now_def)
  qed
  moreover have "happened (tr @ [(s, ev)]) (\<lambda>past s1 ev. issues H lower s1 ev x)"
    if x: "x \<in># unused_tokens (site_tokens s')" for x
  proof -
    from x eff have "x \<in># unused_tokens (site_tokens s) \<or> issues H lower s ev x" by blast
    with assms(2) show ?thesis unfolding site_inv_def happened_snoc by blast
  qed
  moreover have "users_inv (site_users s')" "si_clock s0 \<le> si_clock s'" "site_now s' < 2 ^ 63"
    using eff clock assms(2) by (auto simp: site_inv_def)
  ultimately show ?thesis unfolding site_inv_def by blast
qed

lemma site_run_inv: "site_run H s0 tr s \<Longrightarrow> wired H lower \<Longrightarrow> deployed_site s0 \<Longrightarrow> site_inv H lower s0 tr s"
proof (induction rule: site_run.induct)
  case (start s)
  then show ?case by (simp add: site_inv_def deployed_site_def site_now_def)
next
  case (step s0 tr s ev s')
  then show ?case using site_inv_step by blast
qed

text \<open>Whoever is admitted has signed in.\<close>

lemma admitted_signed_in:
  assumes "wired H lower" "deployed_site s0" "site_inv H lower s0 tr s" "request s c"
    and "Read (g_sess c) = Some cl" "valid_claims (site_now s) (site_auth H s) c cl me"
  shows "\<exists>u. users_tbl (site_users s) (cu_ID me) = Some u \<and> ToCore (Some u) = Some me \<and> signed_in H lower tr s (cu_ID me)"
proof -
  from assms(6) obtain changed where r: "h_resolve H (site_users s) (UserID cl) = (Some me, changed, True)"
    and age: "i64 (site_now s - LoginAt cl) \<le> dur_int Second (MaxAgeD (a_Session (h_auth H)))"
    by (auto simp: valid_claims_def site_auth_def)
  from r assms(1) have "ToCore (users_tbl (site_users s) (UserID cl)) = Some me" by (simp add: wired_def)
  then obtain u where u: "users_tbl (site_users s) (UserID cl) = Some u" "ToCore (Some u) = Some me"
    by (cases "users_tbl (site_users s) (UserID cl)") auto
  with assms(3) have id: "cu_ID me = UserID cl" using users_tbl_iff by (fastforce simp: site_inv_def)
  from request_claims [OF assms(4,5)] assms(3) have st: "stamped H lower s0 tr s cl" by (auto simp: site_inv_def)
  have "signed_in H lower tr s (UserID cl)"
    unfolding signed_in_def using st [unfolded stamped_def]
  proof (rule happened_mono)
    fix past s1 ev
    assume "\<exists>ident pw t0. ev = SignIn (UserID cl) ident pw t0 \<and> knows H lower s1 (UserID cl) ident pw \<and> t0 = si_clock s1
      \<and> LoginAt cl = Unix t0 \<and> si_clock s0 \<le> t0 \<and> t0 \<le> si_clock s"
    then obtain ident pw t0 where t: "ev = SignIn (UserID cl) ident pw t0" "knows H lower s1 (UserID cl) ident pw"
      "t0 = si_clock s1" "LoginAt cl = Unix t0" "si_clock s0 \<le> t0" "t0 \<le> si_clock s" by blast
    have "0 < Unix t0" "Unix t0 \<le> site_now s" "site_now s < 2 ^ 63"
      using assms(2,3) Unix_mono [OF t(5)] Unix_mono [OF t(6)] by (auto simp: deployed_site_def site_inv_def site_now_def)
    then have "i64 (site_now s - Unix t0) = site_now s - Unix t0" by (simp add: i64_ok_def)
    with t age show "\<exists>ident pw t0. ev = SignIn (UserID cl) ident pw t0 \<and> knows H lower s1 (UserID cl) ident pw \<and> t0 = si_clock s1
      \<and> t0 \<le> si_clock s \<and> site_now s - Unix t0 \<le> dur_int Second (MaxAgeD (a_Session (h_auth H)))" by auto
  qed
  with u id show ?thesis by simp
qed

text \<open>
  What an event of a history must have behind it to write a password hash: it names the account and
  brings what \<open>sets_hash\<close> asks for, and a form was sent by someone signed in (as the account itself, or
  as one that the administrators' gate admits), a reset token was asked for earlier by an address of
  the account, and is younger than the lifetime of reset tokens.
\<close>

definition of_rank :: "site \<Rightarrow> role \<Rightarrow> int \<Rightarrow> bool" where
  "of_rank s r uid \<longleftrightarrow> (\<exists>u. users_tbl (site_users s) uid = Some u \<and> r \<le> u_Role u)"

definition mailed_token :: "host \<Rightarrow> (string \<Rightarrow> string) \<Rightarrow> history \<Rightarrow> site \<Rightarrow> int \<Rightarrow> string \<Rightarrow> bool" where
  "mailed_token H lower tr s uid tok \<longleftrightarrow> happened tr (\<lambda>past s1 ev. \<exists>email buf u. ev = Forgot email (Inr buf)
     \<and> hashToken tok = hashToken (base64_rawurl buf) \<and> users_tbl (site_users s1) uid = Some u \<and> mailed lower email u
     \<and> pg_now (site_tokens s) < si_clock s1 + resetTTL (h_tflow H))"

fun backed :: "host \<Rightarrow> (string \<Rightarrow> string) \<Rightarrow> history \<Rightarrow> site \<Rightarrow> site_event \<Rightarrow> int \<Rightarrow> bool" where
  "backed H lower tr s (ChangesPassword i cur nw) uid \<longleftrightarrow> signed_in H lower tr s uid"
| "backed H lower tr s (ResetsPassword actor i pw) uid \<longleftrightarrow> signed_in H lower tr s actor \<and> of_rank s (h_admin_role H) actor"
| "backed H lower tr s (SetsRole actor i) uid \<longleftrightarrow> signed_in H lower tr s actor \<and> of_rank s (h_admin_role H) actor"
| "backed H lower tr s (Resets tok pw) uid \<longleftrightarrow> mailed_token H lower tr s uid tok"
| "backed H lower tr s (Confirms tok) uid \<longleftrightarrow> happened tr (\<lambda>past s1 ev. \<exists>email buf. ev = SendsVerify uid email (Inr buf)
     \<and> hashToken tok = hashToken (base64_rawurl buf))"
| "backed H lower tr s _ uid \<longleftrightarrow> True"

lemma behind_signed_in:
  assumes "wired H lower" "deployed_site s0" "site_inv H lower s0 tr s" "behind H s r c me c1"
  shows "signed_in H lower tr s (cu_ID me) \<and> of_rank s r (cu_ID me)"
proof -
  obtain cl where "Read (g_sess c) = Some cl" "valid_claims (site_now s) (site_auth H s) c cl me" "r \<le> cu_Role me"
    by (rule behind_actor [OF assms(4)])
  with admitted_signed_in [OF assms(1-3) behindD(1) [OF assms(4)], of cl me] show ?thesis by (auto simp: of_rank_def)
qed

lemma site_step_backed:
  assumes "wired H lower" "deployed_site s0" "site_inv H lower s0 tr s" "site_step H s ev s'"
    and "sets_hash H lower s ev uid \<or> sets_role ev uid \<or> sets_verified s ev uid"
  shows "backed H lower tr s ev uid"
proof -
  have tok: "happened tr (\<lambda>past s1 ev. issues H lower s1 ev x)" if "x \<in># unused_tokens (site_tokens s)" for x
    using assms(3) that unfolding site_inv_def by blast
  show ?thesis
    using assms(4)
  proof cases
    case (account c me c1 salt r c2 db)
    with behind_signed_in [OF assms(1-3) account(3)] assms(5) show ?thesis by auto
  next
    case (set_role c me c1 r c2 db)
    with behind_signed_in [OF assms(1-3) set_role(3)] show ?thesis by simp
  next
    case (admin_reset c me c1 salt r c2 db)
    with behind_signed_in [OF assms(1-3) admin_reset(3)] show ?thesis by simp
  next
    case (reset salt tok pw r w)
    with assms(5) obtain e where e: "(PasswordReset, hashToken tok, uid, e) \<in># unused_tokens (site_tokens s)"
      "pg_now (site_tokens s) < e" by (auto simp: holds_token_def)
    have "mailed_token H lower tr s uid tok"
      unfolding mailed_token_def using tok [OF e(1)]
    proof (rule happened_mono)
      fix past s1 ev
      assume "issues H lower s1 ev (PasswordReset, hashToken tok, uid, e)"
      with e(2) show "\<exists>email buf u. ev = Forgot email (Inr buf) \<and> hashToken tok = hashToken (base64_rawurl buf)
          \<and> users_tbl (site_users s1) uid = Some u \<and> mailed lower email u
          \<and> pg_now (site_tokens s) < si_clock s1 + resetTTL (h_tflow H)"
        by (cases ev) auto
    qed
    with reset show ?thesis by simp
  next
    case (confirm tok r w)
    with assms(5) obtain e where e: "(EmailVerify, hashToken tok, uid, e) \<in># unused_tokens (site_tokens s)"
      by (auto simp: holds_token_def)
    have "happened tr (\<lambda>past s1 ev. \<exists>email buf. ev = SendsVerify uid email (Inr buf)
        \<and> hashToken tok = hashToken (base64_rawurl buf))"
      using tok [OF e]
    proof (rule happened_mono)
      fix past s1 ev
      assume "issues H lower s1 ev (EmailVerify, hashToken tok, uid, e)"
      then show "\<exists>email buf. ev = SendsVerify uid email (Inr buf) \<and> hashToken tok = hashToken (base64_rawurl buf)"
        by (cases ev) auto
    qed
    with confirm show ?thesis by simp
  qed simp_all
qed

section \<open>Properties\<close>

text \<open>
  C2. No admission without a sign-in. On a site that starts with no session signed and no token unused,
  take any run of requests, whoever sends them: sign-ins, forms, resets, old and copied cookies, outages,
  moving clocks. A request that \<open>Require\<close> then lets through is taken for a stored account with at least
  the required role, and somebody has signed in as that account before, by a name of it and a password
  that its hash accepted in that moment, no longer ago than a session lives.
\<close>

theorem admitted_request_has_a_sign_in:
  assumes "wired H lower" "deployed_site s0" "site_run H s0 tr s" "request s c"
    and "passes (Require (site_now s) (site_auth H s) r) c"
  shows "\<exists>u. Current (site_now s) (site_auth H s) (Require (site_now s) (site_auth H s) r c)
        = (ToCore (Some u), True, Require (site_now s) (site_auth H s) r c)
    \<and> users_tbl (site_users s) (u_ID u) = Some u \<and> r \<le> u_Role u
    \<and> happened tr (\<lambda>past s1 ev. \<exists>ident pw. ev = SignIn (u_ID u) ident pw (si_clock s1)
        \<and> knows H lower s1 (u_ID u) ident pw \<and> si_clock s1 \<le> si_clock s
        \<and> site_now s - site_now s1 \<le> dur_int Second (MaxAgeD (a_Session (h_auth H))))"
proof -
  note inv = site_run_inv [OF assms(3,1,2)]
  obtain cl me where g: "Read (g_sess c) = Some cl" "valid_claims (site_now s) (site_auth H s) c cl me" "r \<le> cu_Role me"
    "Current (site_now s) (site_auth H s) (Require (site_now s) (site_auth H s) r c) = (Some me, True, Require (site_now s) (site_auth H s) r c)"
    by (rule gate_passed [OF assms(5)])
  from admitted_signed_in [OF assms(1,2) inv assms(4) g(1,2)] obtain u where
    u: "users_tbl (site_users s) (cu_ID me) = Some u" "ToCore (Some u) = Some me" "signed_in H lower tr s (cu_ID me)" by blast
  then have "cu_ID me = u_ID u" "cu_Role me = u_Role u" by auto
  with u g(3,4) show ?thesis
    by (intro exI [of _ u]) (auto simp: signed_in_def site_now_def elim!: happened_mono)
qed

text \<open>
  C3. No account changes without a reason. In any such run every account that was there stays, with its
  name, its email address and its creation time. If its password hash differs, then in the history either
  somebody signed in to it with an accepted password (which may rewrite the hash), or someone
  signed in as it gave its current password and a long enough new one, or an administrator who was
  signed in reset it, or a reset token was used, before its expiry, that had been mailed on request for an address of
  this account. Its role changes only by an administrator's form, its verified mark only by a
  token that was issued to verify it.
\<close>

theorem account_changes_are_backed:
  assumes "wired H lower" "deployed_site s0" "site_run H s0 tr s" "users_tbl (site_users s0) uid = Some u0"
  shows "\<exists>u. users_tbl (site_users s) uid = Some u
    \<and> u_Username u = u_Username u0 \<and> u_Email u = u_Email u0 \<and> u_CreatedAt u = u_CreatedAt u0
    \<and> (u_PasswordHash u \<noteq> u_PasswordHash u0 \<longrightarrow>
        happened tr (\<lambda>past s1 ev. sets_hash H lower s1 ev uid \<and> backed H lower past s1 ev uid))
    \<and> (u_Role u \<noteq> u_Role u0 \<longrightarrow> happened tr (\<lambda>past s1 ev. sets_role ev uid \<and> backed H lower past s1 ev uid))
    \<and> (u_EmailVerified u \<noteq> u_EmailVerified u0 \<longrightarrow>
        happened tr (\<lambda>past s1 ev. sets_verified s1 ev uid \<and> backed H lower past s1 ev uid))"
  using assms(3,1,2,4)
proof (induction rule: site_run.induct)
  case (start s)
  then show ?case by simp
next
  case (step s0 tr s ev s')
  note inv = site_run_inv [OF step.hyps(1) step.prems(1,2)]
  then have ui: "users_inv (site_users s)" by (simp add: site_inv_def)
  from step.IH [OF step.prems] obtain u where u: "users_tbl (site_users s) uid = Some u"
    "u_Username u = u_Username u0" "u_Email u = u_Email u0" "u_CreatedAt u = u_CreatedAt u0"
    and past: "u_PasswordHash u \<noteq> u_PasswordHash u0 \<longrightarrow>
        happened tr (\<lambda>past s1 ev. sets_hash H lower s1 ev uid \<and> backed H lower past s1 ev uid)"
      "u_Role u \<noteq> u_Role u0 \<longrightarrow> happened tr (\<lambda>past s1 ev. sets_role ev uid \<and> backed H lower past s1 ev uid)"
      "u_EmailVerified u \<noteq> u_EmailVerified u0 \<longrightarrow>
        happened tr (\<lambda>past s1 ev. sets_verified s1 ev uid \<and> backed H lower past s1 ev uid)"
    by blast
  from site_step_effect [OF step.prems(1) ui step.hyps(2)] u(1) obtain v where v: "users_tbl (site_users s') uid = Some v"
    "moves H lower s ev u v" unfolding rows_move_def by blast
  have id: "u_ID u = uid" using users_tbl_iff [OF ui] u(1) by blast
  note backing = site_step_backed [OF step.prems(1,2) inv step.hyps(2), of uid]
  have hash: "happened tr (\<lambda>past s1 ev. sets_hash H lower s1 ev uid \<and> backed H lower past s1 ev uid)
      \<or> sets_hash H lower s ev uid \<and> backed H lower tr s ev uid" if "u_PasswordHash v \<noteq> u_PasswordHash u0"
    using that v(2) past(1) backing id by (auto simp: moves_def)
  have role: "happened tr (\<lambda>past s1 ev. sets_role ev uid \<and> backed H lower past s1 ev uid)
      \<or> sets_role ev uid \<and> backed H lower tr s ev uid" if "u_Role v \<noteq> u_Role u0"
    using that v(2) past(2) backing id by (auto simp: moves_def)
  have verified: "happened tr (\<lambda>past s1 ev. sets_verified s1 ev uid \<and> backed H lower past s1 ev uid)
      \<or> sets_verified s ev uid \<and> backed H lower tr s ev uid" if "u_EmailVerified v \<noteq> u_EmailVerified u0"
    using that v(2) past(3) backing id by (auto simp: moves_def)
  from v u(2-4) hash role verified show ?case unfolding happened_snoc
    by (intro exI [of _ v]) (simp add: moves_def)
qed

text \<open>
  An example of a host, for the witnesses: its resolver reads the table, keeps no password stamp and
  reports \<open>ok\<close> for the accounts that exist and are not disabled. No other fact rests on it.
\<close>

definition ex_resolver :: "users_db \<Rightarrow> int \<Rightarrow> core_user option \<times> int \<times> bool" where
  "ex_resolver db i =
     (ToCore (users_tbl db i), 0, case users_tbl db i of None \<Rightarrow> False | Some u \<Rightarrow> RoleUser \<le> u_Role u)"

definition ex_host :: host where
  "ex_host = \<lparr>h_bcrypt = plain_bcrypt, h_flow = ex_flow, h_tflow = ex_tflow, h_auth = ex_auth RoleUser 0,
     h_resolve = ex_resolver, h_account = ex_account, h_admin = ex_admin, h_admin_role = RoleAdmin\<rparr>"

definition ex_site :: site where
  "ex_site = \<lparr>si_world = \<lparr>w_tokens = pg_table [] 1 10, w_users = ex_users, w_sent = []\<rparr>, si_signed = {},
     si_clock = 63835596800000000000\<rparr>"

lemma ex_host_wired: "wired ex_host (\<lambda>x. x)"
  by (auto simp: wired_def ex_host_def ex_resolver_def ex_account_def ex_admin_def)

lemma ex_site_deployed: "deployed_site ex_site"
  by (simp add: deployed_site_def ex_site_def site_users_def site_tokens_def unused_tokens_def Unix_def unix_epoch_def)
    (simp add: pg_table_def)

lemma ex_sign_in:
  defines "s' \<equiv> snd (flow_Issue 63835596800000000000 (ex_row 1 ''bob'' ''b@x'' ''secret12'') empty_sess)"
  shows "site_run ex_host ex_site [(ex_site, SignIn 1 ''bob'' ''secret12'' 63835596800000000000)] (signs s' ex_site)"
    and "s_saved s' = s_vals s'" "Read s' = Some \<lparr>UserID = 1, LoginAt = 1700000000, LoginIP = [], PasswordChangedAt = 0\<rparr>"
proof -
  let ?u = "ex_row 1 ''bob'' ''b@x'' ''secret12''"
  have unix: "Unix 63835596800000000000 = 1700000000" by (simp add: Unix_def unix_epoch_def)
  have eq: "s' = snd (Issue 63835596800000000000 1 [] 0 empty_sess)" by (simp add: s'_def flow_Issue_def ex_row_def)
  have fault: "s_fault empty_sess = None" by (simp add: empty_sess_def)
  show saved: "s_saved s' = s_vals s'" using Issue_saved [OF fault] by (simp add: eq)
  show "Read s' = Some \<lparr>UserID = 1, LoginAt = 1700000000, LoginIP = [], PasswordChangedAt = 0\<rparr>"
    by (simp add: eq Read_Issue unix)
  have req: "request ex_site (fresh_ctx empty_sess)" by (simp add: request_def fresh_ctx_def empty_sess_def)
  have run: "Authenticate (h_bcrypt ex_host) [] (h_flow ex_host) ''bob'' ''secret12'' (site_users ex_site) = (Inr ?u, ex_users)"
    by (simp add: Authenticate_def pg_find_user [where lower = "\<lambda>x. x"] ex_host_def ex_site_def site_users_def)
      (simp add: ex_users_def pg_table_def pg_scan_def next_stmt_def ex_row_def named_def ex_flow_def
        Verify_def Check_def peppered_def plain_bcrypt_def)
  have iss: "flow_Issue (si_clock ex_site) ?u (g_sess (fresh_ctx empty_sess)) = (None, s')"
    using Issue_saved [OF fault, of 63835596800000000000 "u_ID ?u" "[]" 0]
    by (simp add: s'_def flow_Issue_def ex_site_def fresh_ctx_def prod_eq_iff)
  have u: "u_ID ?u = 1" "si_clock ex_site = 63835596800000000000" "with_users ex_users ex_site = ex_site"
    by (simp_all add: ex_row_def ex_site_def with_users_def)
  show "site_run ex_host ex_site [(ex_site, SignIn 1 ''bob'' ''secret12'' 63835596800000000000)] (signs s' ex_site)"
    using site_run.step [OF site_run.start site_step.sign_in [OF req run iss], unfolded u] by simp
qed

theorem admitted_request_has_a_sign_in_witness:
  "\<exists>s c. site_run ex_host ex_site [(ex_site, SignIn 1 ''bob'' ''secret12'' 63835596800000000000)] s
     \<and> request s c \<and> passes (Require (site_now s) (site_auth ex_host s) RoleUser) c
     \<and> (\<exists>u. Current (site_now s) (site_auth ex_host s) (Require (site_now s) (site_auth ex_host s) RoleUser c)
        = (ToCore (Some u), True, Require (site_now s) (site_auth ex_host s) RoleUser c))"
proof -
  define s' where "s' = snd (flow_Issue 63835596800000000000 (ex_row 1 ''bob'' ''b@x'' ''secret12'') empty_sess)"
  note ex = ex_sign_in [folded s'_def]
  let ?s = "signs s' ex_site" and ?c = "fresh_ctx s'"
  have req: "request ?s ?c" using ex(2) by (simp add: request_def fresh_ctx_def)
  have "site_now ?s = 1700000000" by (simp add: site_now_def ex_site_def Unix_def unix_epoch_def)
  moreover have "dur_int Second (MaxAgeD (a_Session (h_auth ex_host))) = 604800"
    by (rule MaxAgeD_default) (simp add: ex_host_def ex_auth_def)
  moreover have "users_tbl ex_users 1 = Some (ex_row 1 ''bob'' ''b@x'' ''secret12'')"
    by (simp add: users_tbl_def ex_users_def pg_table_def ex_row_def)
  moreover have "site_users ?s = ex_users" by (simp add: ex_site_def site_users_def signs_def)
  ultimately have "valid_claims (site_now ?s) (site_auth ex_host ?s) ?c
      \<lparr>UserID = 1, LoginAt = 1700000000, LoginIP = [], PasswordChangedAt = 0\<rparr> (ex_core)"
    if "ToCore (Some (ex_row 1 ''bob'' ''b@x'' ''secret12'')) = Some ex_core" for ex_core
    using that by (simp add: valid_claims_def site_auth_def ex_host_def ex_resolver_def ex_auth_def i64_ok_def ex_row_def)
  then have p: "passes (Require (site_now ?s) (site_auth ex_host ?s) RoleUser) ?c"
    unfolding Require_passes_iff using ex(3) by (auto simp: fresh_ctx_def ex_row_def)
  from admitted_request_has_a_sign_in [OF ex_host_wired ex_site_deployed ex(1) req p] ex(1) req p show ?thesis by blast
qed

text \<open>The witness for the accounts: bob forgets his password and resets it with the mailed token.\<close>

lemma ex_reset_run:
  defines "buf \<equiv> replicate 32 CHR ''a''"
  shows "\<exists>tr s u. site_run ex_host ex_site tr s \<and> users_tbl (site_users s) 1 = Some u \<and> u_PasswordHash u = ''better-one''
    \<and> map snd tr = [Forgot ''b@x'' (Inr buf), Resets (base64_rawurl buf) ''better-one'']"
proof -
  let ?tok = "base64_rawurl buf" and ?u = "ex_row 1 ''bob'' ''b@x'' ''secret12''"
  have ne: "buf \<noteq> []" by (simp add: buf_def)
  let ?w = "si_world ex_site"
  obtain r w1 where req: "RequestReset (Inr buf) (si_clock ex_site) (h_tflow ex_host) ''b@x'' ?w = (r, w1)" by (rule prod.exhaust)
  have tf: "h_tflow ex_host = ex_tflow" "h_bcrypt ex_host = plain_bcrypt" by (simp_all add: ex_host_def)
  have find: "find (\<lambda>u. u_Email u \<noteq> [] \<and> u_Email u = ''b@x'') (pg_scan (w_users ?w)) = Some ?u"
    by (simp add: ex_site_def ex_users_def pg_table_def pg_scan_def ex_row_def)
  have h: "healthy (w_users ?w)" "healthy (w_tokens ?w)" by (simp_all add: ex_site_def)
  have w1: "w_users w1 = next_stmt ex_users" "healthy (w_tokens w1)" "pg_now (w_tokens w1) = 10"
    "pg_rows (w_tokens w1) = [] @ [\<lparr>t_ID = 1, t_user_id = 1, t_purpose = PasswordReset, t_token_hash = hashToken ?tok,
       t_expires_at = 63835600400000000000, t_used_at = None, t_created_at = 10\<rparr>]"
    using req [unfolded tf RequestReset_healthy [OF h ex_tflow_fields(1,2,4)] find] 
    by (auto simp: ex_site_def pg_table_def ex_row_def next_stmt_def healthy_def)
  let ?row = "\<lparr>t_ID = 1, t_user_id = 1, t_purpose = PasswordReset, t_token_hash = hashToken ?tok,
       t_expires_at = 63835600400000000000, t_used_at = None, t_created_at = 10\<rparr>"
  have red: "redeem TokenPG ?tok PasswordReset (w_tokens w1) = (Inr 1, consumed_by (hashToken ?tok) PasswordReset (w_tokens w1))"
    using fresh_token_redeems(1) [OF w1(2,4), of ?tok PasswordReset] token_text [OF ne] w1(3) by simp
  obtain q w2 where reset: "PerformReset plain_bcrypt [] ex_tflow ?tok ''better-one'' w1 = (q, w2)" by (rule prod.exhaust)
  have "w_users w2 = snd (us_UpdatePasswordHash (PGStore (\<lambda>x. x)) 1 ''better-one'' (next_stmt ex_users))"
    using reset red w1(1) by (auto simp: PerformReset_def on_tokens_def on_users_def ex_flow_Hash split: prod.splits)
  then have "users_tbl (w_users w2) 1 = Some (ex_row 1 ''bob'' ''b@x'' ''better-one'')"
    by (simp add: PGStore_def UpdatePasswordHash_def exec_update_healthy users_tbl_def)
      (simp add: ex_users_def pg_table_def ex_row_def)
  moreover have "u_PasswordHash (ex_row 1 ''bob'' ''b@x'' ''better-one'') = ''better-one''" by (simp add: ex_row_def)
  moreover have "site_run ex_host ex_site ([] @ [(ex_site, Forgot ''b@x'' (Inr buf))] @
      [(ex_site\<lparr>si_world := w1\<rparr>, Resets ?tok ''better-one'')]) (ex_site\<lparr>si_world := w1\<rparr>\<lparr>si_world := w2\<rparr>)"
    using site_run.step [OF site_run.step [OF site_run.start site_step.forgot [OF req]]
        site_step.reset [of ex_host "[]" ?tok "''better-one''"]] reset tf by simp
  ultimately show ?thesis by (intro exI conjI) (assumption, simp_all)
qed

theorem account_changes_are_backed_witness:
  "\<exists>tr s. site_run ex_host ex_site tr s
     \<and> happened tr (\<lambda>past s1 ev. sets_hash ex_host (\<lambda>x. x) s1 ev 1 \<and> backed ex_host (\<lambda>x. x) past s1 ev 1)"
proof -
  obtain tr s u where run: "site_run ex_host ex_site tr s" "users_tbl (site_users s) 1 = Some u" "u_PasswordHash u = ''better-one''"
    using ex_reset_run by blast
  have u0: "users_tbl (site_users ex_site) 1 = Some (ex_row 1 ''bob'' ''b@x'' ''secret12'')"
    by (simp add: users_tbl_def ex_users_def pg_table_def ex_row_def ex_site_def site_users_def)
  from account_changes_are_backed [OF ex_host_wired ex_site_deployed run(1) u0] run show ?thesis by (auto simp: ex_row_def)
qed

text \<open>
  The flows' \<open>Issue\<close> stamps no password time: a host whose resolver does report one rejects every session
  that it stamps, from the first request on.
\<close>

lemma flow_session_refused_under_password_stamp:
  assumes "flow_Issue t0 u s = (None, s')" "g_sess c = next_request s'" "u_ID u \<noteq> 0"
    and "a_Resolve a (u_ID u) = (v, changed, ok)" "0 < changed"
  shows "\<not> passes (Require now a r) c"
proof
  assume "passes (Require now a r) c"
  then obtain cl w where cl: "Read (g_sess c) = Some cl" "valid_claims now a c cl w" by (rule gate_passed)
  have fault: "s_fault s = None"
    using assms(1) Issue_fault [of s _ t0 "u_ID u" "[]" 0] by (cases "s_fault s") (simp_all add: flow_Issue_def)
  have s': "s' = snd (Issue t0 (u_ID u) [] 0 s)" using assms(1) by (simp add: flow_Issue_def)
  have "Read (g_sess c) = Some \<lparr>UserID = u_ID u, LoginAt = Unix t0, LoginIP = [], PasswordChangedAt = 0\<rparr>"
    using Issue_saved [OF fault, of t0 "u_ID u" "[]" 0] assms(3) by (simp add: assms(2) s' Read_next_request Read_Issue)
  with cl assms(4,5) show False by (auto simp: valid_claims_def)
qed

text \<open>
  The table's unique constraint compares names as they are, the lookups fold their case. What keeps the
  folded names of the accounts apart is the lookup that a registration makes first.
\<close>

definition names_apart :: "(string \<Rightarrow> string) \<Rightarrow> users_db \<Rightarrow> bool" where
  "names_apart lower db \<longleftrightarrow> (\<forall>i j u v. users_tbl db i = Some u \<and> users_tbl db j = Some v
     \<and> lower (u_Username u) = lower (u_Username v) \<longrightarrow> i = j)"

lemma names_apart_step:
  assumes "names_apart lower db" "site_users s = db" "rows_move H lower s ev db db'"
  shows "names_apart lower db'"
proof -
  have old: "\<exists>u. users_tbl db i = Some u \<and> u_Username u = u_Username v"
    if v: "users_tbl db' i = Some v" and "users_tbl db i \<noteq> None" for i v
    using that rows_moveD(1) [OF assms(3), of i] by (auto simp: moves_def)
  have new: "\<not> named lower (u_Username v) w" if "users_tbl db' i = Some v" "users_tbl db i = None"
      "users_tbl db j = Some w" for i v j w
    using that assms(2) rows_moveD(2) [OF assms(3)] joins_free by blast
  have only: "users_tbl db j = users_tbl db' j" if "users_tbl db' i = Some v" "users_tbl db i = None" "j \<noteq> i" for i j v
    using that rows_moveD(3) [OF assms(3)] by metis
  show ?thesis
    unfolding names_apart_def
  proof (intro allI impI)
    fix i j u v
    assume uv: "users_tbl db' i = Some u \<and> users_tbl db' j = Some v \<and> lower (u_Username u) = lower (u_Username v)"
    show "i = j"
    proof (cases "users_tbl db i = None \<or> users_tbl db j = None")
      case False
      with uv old [of i u] old [of j v] assms(1) show ?thesis unfolding names_apart_def by fastforce
    next
      case True
      then show ?thesis
      proof
        assume "users_tbl db i = None"
        with uv only [of i u j] new [of i u j v] show ?thesis by (auto simp: named_def)
      next
        assume "users_tbl db j = None"
        with uv only [of j v i] new [of j v i u] show ?thesis by (auto simp: named_def)
      qed
    qed
  qed
qed

text \<open>Where requests overlap, two registrations can both find their name free and both be stored.\<close>

lemma overlapping_registrations_collide:
  assumes "healthy db" "users_inv db" "\<forall>u\<in>set (pg_rows db). \<not> named lower n1 u"
    and "n1 \<noteq> n2" "lower n1 = lower n2" "u_Username u1 = n1" "u_Username u2 = n2" "i32_ok (u_Role u1)" "i32_ok (u_Role u2)"
  shows "\<exists>db1 db2 db3 db4 i j. ByUsername lower n1 db = (Inl (Sentinel Users_ErrNotFound), db1)
    \<and> ByUsername lower n2 db1 = (Inl (Sentinel Users_ErrNotFound), db2)
    \<and> Create u1 db2 = (Inr i, db3) \<and> Create u2 db3 = (Inr j, db4) \<and> \<not> names_apart lower db4"
proof -
  let ?db1 = "next_stmt db" and ?db2 = "next_stmt (next_stmt db)"
  have free: "find (\<lambda>u. lower (u_Username u) = lower n) (pg_scan db) = None" if "lower n = lower n1" for n
    using assms(3) that by (auto simp: find_scan_None named_def)
  then have looks: "ByUsername lower n1 db = (Inl (Sentinel Users_ErrNotFound), ?db1)"
    "ByUsername lower n2 ?db1 = (Inl (Sentinel Users_ErrNotFound), ?db2)"
    using assms(1,5) free [of n1] free [of n2] by (simp_all add: ByUsername_def query_row_healthy)
  let ?row = "\<lambda>u i t. u\<lparr>u_ID := i, u_EmailVerified := False, u_CreatedAt := t\<rparr>"
  have names: "n1 \<notin> u_Username ` set (pg_rows db)" "n2 \<notin> u_Username ` set (pg_rows db)"
    using assms(3,5) by (auto simp: named_def)
  obtain r3 db3 where c3: "Create u1 ?db2 = (r3, db3)" by (rule prod.exhaust)
  have r3: "r3 = Inr (pg_next db)" "healthy db3" "pg_next db3 = pg_next db + 1"
    "pg_rows db3 = pg_rows db @ [?row u1 (pg_next db) (pg_now db)]"
    using c3 names assms(1,6,8) by (auto simp: Create_def stmt_healthy Let_def)
  obtain r4 db4 where c4: "Create u2 db3 = (r4, db4)" by (rule prod.exhaust)
  have r4: "r4 = Inr (pg_next db + 1)"
    "pg_rows db4 = pg_rows db3 @ [?row u2 (pg_next db + 1) (pg_now db3)]"
    using c4 names assms(4,6,7,9) r3 by (auto simp: Create_def stmt_healthy Let_def)
  have ids: "\<forall>u\<in>set (pg_rows db). u_ID u < pg_next db" using assms(2) by (simp add: users_inv_def)
  then have "users_tbl db4 (pg_next db) = Some (?row u1 (pg_next db) (pg_now db))"
    "users_tbl db4 (pg_next db + 1) = Some (?row u2 (pg_next db + 1) (pg_now db3))"
    by (auto simp: users_tbl_def r4 r3 find_append_list find_None_iff split: option.split dest!: find_Some_props)
  then have "\<not> names_apart lower db4" using assms(5-7) unfolding names_apart_def by fastforce
  with looks c3 c4 r3 r4 show ?thesis by blast
qed

text \<open>
  C5. Accounts join by registration, under free names. In any run of a site whose requests do not overlap,
  every account that was not there at the start was added by a registration with its (trimmed) name and
  address, when no account bore that name in any case; so if the names of the accounts differ
  other than by case at the start, they always do, although the table itself only keeps equal names apart.
\<close>

theorem accounts_join_under_free_names:
  assumes "wired H lower" "deployed_site s0" "site_run H s0 tr s" "names_apart lower (site_users s0)"
  shows "names_apart lower (site_users s)
    \<and> (\<forall>uid u. users_tbl (site_users s) uid = Some u \<and> users_tbl (site_users s0) uid = None \<longrightarrow>
        happened tr (\<lambda>past s1 ev. \<exists>v. joins H lower s1 ev v \<and> u_Username v = u_Username u \<and> u_Email v = u_Email u))"
  using assms(3,1,2,4)
proof (induction rule: site_run.induct)
  case (start s)
  then show ?case by auto
next
  case (step s0 tr s ev s')
  have "users_inv (site_users s)" using site_run_inv [OF step.hyps(1) step.prems(1,2)] by (simp add: site_inv_def)
  from site_step_effect [OF step.prems(1) this step.hyps(2)]
  have mv: "rows_move H lower s ev (site_users s) (site_users s')" by blast
  note IH = step.IH [OF step.prems]
  have "happened (tr @ [(s, ev)]) (\<lambda>past s1 ev. \<exists>v. joins H lower s1 ev v \<and> u_Username v = u_Username u \<and> u_Email v = u_Email u)"
    if u: "users_tbl (site_users s') uid = Some u" "users_tbl (site_users s0) uid = None" for uid u
  proof (cases "users_tbl (site_users s) uid")
    case None
    then have "joins H lower s ev u" using u(1) by (rule rows_moveD(2) [OF mv])
    then show ?thesis by auto
  next
    case (Some w)
    with rows_moveD(1) [OF mv Some] u(1) have "moves H lower s ev w u" by auto
    then have "u_Username u = u_Username w" "u_Email u = u_Email w" by (simp_all add: moves_def)
    with IH Some u(2) show ?thesis by auto
  qed
  with names_apart_step [OF conjunct1 [OF IH] refl mv] show ?case by blast
qed

lemma ex_sign_up:
  "\<exists>db. Register plain_bcrypt [] ex_flow ''ann'' ''a@x'' ''secret12'' ex_users
    = (Inr (ex_row 3 ''ann'' ''a@x'' ''secret12''\<lparr>u_CreatedAt := 0\<rparr>), db)
    \<and> users_tbl db 3 = Some (ex_row 3 ''ann'' ''a@x'' ''secret12''\<lparr>u_CreatedAt := 9\<rparr>)"
proof -
  have trim: "TrimSpace ''ann'' = ''ann''" "TrimSpace ''a@x'' = ''a@x''"
    by (rule TrimSpace_visible; simp add: visible_def)+
  have hash: "Hash plain_bcrypt [] (f_Hasher ex_flow) ''secret12'' = Inr ''secret12''" by (rule ex_flow_Hash) simp
  show ?thesis
    by (simp add: Register_def trim hash ex_flow_fields PGStore_def ByUsername_def query_row_healthy Let_def Create_def stmt_healthy i32_ok_def)
      (simp add: trim hash ex_flow_fields PGStore_def Create_def Let_def ex_users_def pg_table_def pg_scan_def ex_row_def users_tbl_def next_stmt_def stmt_def i32_ok_def)
qed

theorem accounts_join_under_free_names_witness:
  "\<exists>s. site_run ex_host ex_site [(ex_site, SignUp ''ann'' ''a@x'' ''secret12'')] s \<and> names_apart (\<lambda>x. x) (site_users s)
     \<and> (\<exists>v. joins ex_host (\<lambda>x. x) ex_site (SignUp ''ann'' ''a@x'' ''secret12'') v)"
proof -
  have "site_users ex_site = ex_users" "h_flow ex_host = ex_flow" "h_bcrypt ex_host = plain_bcrypt"
    by (simp_all add: ex_site_def site_users_def ex_host_def)
  moreover obtain r db where "Register plain_bcrypt [] ex_flow ''ann'' ''a@x'' ''secret12'' ex_users = (Inr r, db)"
    and u: "users_tbl db 3 = Some (ex_row 3 ''ann'' ''a@x'' ''secret12''\<lparr>u_CreatedAt := 9\<rparr>)"
    using ex_sign_up by blast
  ultimately have "site_step ex_host ex_site (SignUp ''ann'' ''a@x'' ''secret12'') (with_users db ex_site)"
    by (intro site_step.sign_up [of ex_host "[]"]) simp
  from site_run.step [OF site_run.start this]
  have run: "site_run ex_host ex_site [(ex_site, SignUp ''ann'' ''a@x'' ''secret12'')] (with_users db ex_site)" by simp
  have apart: "names_apart (\<lambda>x. x) (site_users ex_site)"
    by (auto simp: names_apart_def users_tbl_def ex_site_def site_users_def ex_users_def pg_table_def ex_row_def split: if_splits)
  have none: "users_tbl (site_users ex_site) 3 = None"
    by (simp add: users_tbl_def ex_site_def site_users_def ex_users_def pg_table_def ex_row_def)
  have "site_users (with_users db ex_site) = db" by simp
  note all = accounts_join_under_free_names [OF ex_host_wired ex_site_deployed run apart, unfolded this]
  from conjunct2 [OF all] u none
  have "happened ([] @ [(ex_site, SignUp ''ann'' ''a@x'' ''secret12'')]) (\<lambda>past s1 ev. \<exists>v. joins ex_host (\<lambda>x. x) s1 ev v
      \<and> u_Username v = u_Username (ex_row 3 ''ann'' ''a@x'' ''secret12''\<lparr>u_CreatedAt := 9\<rparr>)
      \<and> u_Email v = u_Email (ex_row 3 ''ann'' ''a@x'' ''secret12''\<lparr>u_CreatedAt := 9\<rparr>))"
    unfolding append_Nil by blast
  then have "\<exists>v. joins ex_host (\<lambda>x. x) ex_site (SignUp ''ann'' ''a@x'' ''secret12'') v" unfolding happened_snoc by auto
  with run conjunct1 [OF all] show ?thesis by (intro exI [of _ "with_users db ex_site"]) simp
qed

text \<open>
  Under a resolver that looks at no more of an account than \<open>core.User\<close> has, so at no password stamp,
  nothing but a change of role or the clock ends a session: a request that was admitted before a
  password was changed or reset is admitted after it.
\<close>

lemma sessions_survive_password_changes:
  assumes "wired H lower" "users_inv (site_users s)" "site_step H s ev s'"
    and same: "\<forall>db db' i. ToCore (users_tbl db i) = ToCore (users_tbl db' i) \<longrightarrow> h_resolve H db i = h_resolve H db' i"
    and "\<forall>actor i. ev \<noteq> SetsRole actor i" "site_now s' = site_now s"
    and "passes (Require (site_now s) (site_auth H s) r) c"
  shows "passes (Require (site_now s') (site_auth H s') r) c"
proof -
  from assms(7) obtain cl v where cl: "Read (g_sess c) = Some cl" "valid_claims (site_now s) (site_auth H s) c cl v" "r \<le> cu_Role v"
    unfolding Require_passes_iff by blast
  then obtain changed where "h_resolve H (site_users s) (UserID cl) = (Some v, changed, True)"
    by (auto simp: valid_claims_def site_auth_def)
  with assms(1) have core: "ToCore (users_tbl (site_users s) (UserID cl)) = Some v" unfolding wired_def by blast
  then obtain u where u: "users_tbl (site_users s) (UserID cl) = Some u" "ToCore (Some u) = Some v"
    by (cases "users_tbl (site_users s) (UserID cl)") auto
  from site_step_effect [OF assms(1-3)] have "rows_move H lower s ev (site_users s) (site_users s')" by blast
  from rows_moveD(1) [OF this u(1)] obtain w where w: "users_tbl (site_users s') (UserID cl) = Some w" "moves H lower s ev u w" by blast
  have "\<not> sets_role ev i" for i using assms(5) by (cases ev) auto
  with w(2) u(2) have "ToCore (Some w) = Some v" by (simp add: moves_def)
  with w(1) core have "ToCore (users_tbl (site_users s') (UserID cl)) = ToCore (users_tbl (site_users s) (UserID cl))" by simp
  with same have "h_resolve H (site_users s') (UserID cl) = h_resolve H (site_users s) (UserID cl)" by blast
  with cl(2) have "valid_claims (site_now s') (site_auth H s') c cl v"
    by (simp add: valid_claims_def site_auth_def assms(6))
  with cl(1,3) show ?thesis unfolding Require_passes_iff by blast
qed

end
