(* ===== verification/Spec2Isabelle.thy ===== *)
theory Spec2Isabelle
  imports Webauth Authtoken Ratelimit Cache Sitemap LintSql Jobtrigger Events Jobsettings Captcha Apikey
    Maintenance Heartbeat Notify Loginlog Account Adminusers Profile Schema Pages Shown
    Site
begin

text \<open>
  A verification library for loon-baseline, the host baseline of the loon plugin framework: the Go
  packages a host imports for sign-in, sessions, rate limiting, caching, background jobs, operations
  pages and site maps, and the repository's SQL linter.

  The program. A host wires the packages together. \<open>password\<close> hashes, \<open>users\<close> stores accounts,
  \<open>authflow\<close> registers, authenticates and changes passwords over both, \<open>authtoken\<close> adds emailed
  single-use tokens, \<open>session\<close> stamps the cookie session, \<open>webauth\<close> gates requests by it, \<open>account\<close>,
  \<open>adminusers\<close> and \<open>profile\<close> are the pages over them, \<open>loginlog\<close> audits attempts. \<open>ratelimit\<close>, \<open>captcha\<close>
  and \<open>maintenance\<close> are further gates. \<open>cache\<close> carries \<open>sitemap\<close>; \<open>jobtrigger\<close>, \<open>jobsettings\<close> and
  \<open>heartbeat\<close> connect web processes with workers; \<open>events\<close> and \<open>notify\<close> distribute within a process;
  \<open>apikey\<close> hands out keys. \<open>scripts/lint-sql\<close> is a command-line tool.

  Theories (each opens with what it holds; definitions keep the names of the source, with a prefix
  where two packages share a name):
  \<^item> GoBase, GoNum, GoCrypto, GoText, GoStrings, GoUrl: the parts of Go's language and standard
    library that the code uses, executable: byte strings, errors as values (\<open>gerr\<close>), 64-bit
    integers and binary64 rounding, parsing and printing of numbers, SHA-256, HMAC, hex and base64,
    XML and UTF-8 text, path cleaning, form encoding, dates.
  \<^item> Gin: the request context, as the parts of a request a handler reads and a log of the calls it
    makes; the framework's sessions as maps saved at the end of a request. Views: pages of the host
    framework, HTML escaping.
  \<^item> Pg: a Postgres table as rows, a serial counter, a clock and a physical order, with a script that says how
    each statement ends: executed, failed, or executed with the reply lost. Every store operation is
    one or more statements; theorems without the hypothesis \<open>healthy\<close> hold for every script.
  \<^item> Session, Webauth, Password, Users, Authflow, Authtoken: the sign-in packages of those names.
    Account, Adminusers, Profile, Loginlog: the pages and the audit over them.
  \<^item> Ratelimit, Cache, Sitemap, Captcha, Apikey, Maintenance, Heartbeat, Jobtrigger, Jobsettings,
    Events, Notify: the packages of those names, each with its in-memory and its Postgres or Redis
    store where it has both. LintSql: \<open>scripts/lint-sql/main.go\<close>.
  \<^item> Schema: the \<open>Migrate\<close> functions of all stores, statement by statement, over the database's
    catalogue. Pages: the template files of the pages, as the text html/template writes.
    Shown: what a user finds on these pages after a sign-in attempt or a notification, and what the
    role form of the users page does when a browser sends it as the page shows it.
  \<^item> Site: a running site, with the sign-in packages wired together over one users table and one token
    table, as a step relation on requests: sign-ins, gates, the account form, the administrators' forms,
    resets and verifications, copied session cookies, outages and clocks.

  State. A struct is a record, a package's \<open>Store\<close> interface a record of operations over a state type,
  and an operation a function from a state to an error or result and a state (\<open>('s, 'a) call\<close>). A
  handler maps a context (and the store's state) to the context after it. A goroutine that waits on a
  ticker and its context (\<open>StartPoller\<close>, \<open>StartRefresh\<close>, \<open>StartReporter\<close>) is a function over the
  list of events it meets, in which anything that other processes do to the store can be
  interleaved; an operation under a mutex is one step. Where many requests share a table, \<open>Authtoken\<close>
  and \<open>Apikey\<close> have step relations with reachable states (a step is a statement), and \<open>Site\<close> has one
  for all the sign-in packages together (a step is a request, with statements that may fail in between; its
  sessions are the maps the site has signed, any of which a request may carry).

  Interfaces. Every store that a client relies on has a locale with the laws it promises, failures
  included: \<open>users_store\<close>, \<open>token_store\<close>, \<open>counter\<close>, \<open>cache\<close>, \<open>job_queue\<close>, \<open>settings_store\<close>,
  \<open>apikey_store\<close>, \<open>state_store\<close>, \<open>heartbeat_store\<close>, \<open>inbox\<close>, \<open>login_log\<close> (and extensions for stores that
  answer: \<open>sure_queue\<close>, \<open>sure_heartbeat_store\<close>). The clients' lemmas are proved inside it
  and each locale is interpreted on every store of the repository, so the properties of the flows
  rest on interpretations of the modelled code.

  What the lemmas show. Sign-in: who is let in, what is written, that tokens are used at most once, that
  gates admit exactly the valid sessions, and below that signing in leads through the gate; over a
  whole run of a site, that nobody is admitted as an account without a sign-in to it, and that no account
  changes but by its owner, a mailed token or an administrator, and that accounts join under free names. Limits: at
  most \<open>Limit\<close> admissions per window, fail-open, agreement of the Redis script with the memory counter.
  Data: refinement of maps (caches, settings, keys), equality of the two queues, what a crawler finds
  from the index of a site map. Operations: a fleet of workers starts a job no more often than it was
  requested, a reporting process stays listed, a maintenance toggle reaches every replica, a
  notification and a failed sign-in are on the page of the user they concern, an attempt is audited. Deployment: the migrations converge whatever their
  order and failures, to tables that take every statement of the stores. Pages: no value adds markup or a script link.
  The linter: an unreported call whose query is built in the call passes constant text.

  Bounds and termination. Recursion is structural or has a measure; there is no fuel. Loops that the
  code runs until cancelled run over a finite list of events. \<open>Count\<close> of a site-map source is taken to be
  below \<open>2^63 - 50000\<close>, times and durations to be within Go's range where they are added; elsewhere the
  wrap-around of \<open>int64\<close> is written out (\<open>i64\<close>).

  Not modelled. bcrypt, Redis, the HTTP client, JSON, the cookie stores, \<open>go/parser\<close>, the file system
  and the random source, which are parameters with their documented behaviour as named hypotheses; the
  rows of a table while a migration runs (a column added to it gets its default); the rounding of instants to
  microseconds by Postgres and its refusal of text with NUL bytes other than as a failed statement;
  time that passes within an operation: the in-memory cache and counter read the clock before they take
  their lock and are modelled with the reading at the locked step, the cache's clock stands still during a
  run of \<open>Generate\<close> (a run longer than the TTL of its page counts is outside the model), and the keys a
  SCAN of Redis yields are fixed before the deletions of \<open>DeletePrefix\<close>;
  panics inside callbacks of the host, except where \<open>Emit\<close> meets them; the printing of the linter.
\<close>

section \<open>Signing in, across the components\<close>

text \<open>
  C4. Signing in, end to end. Whatever the database does: when \<open>Authenticate\<close> returns a user, the flow's
  \<open>Issue\<close> stamps the session and the client comes back with it, then \<open>Require\<close> lets the request on exactly
  while the login is within the session's lifetime, the account's role is high enough and the host's
  resolver reports the account with \<open>ok\<close> and no positive password stamp; the handlers behind it see, as
  the current user, the very account whose stored hash accepted the password. The resolver is the host's:
  all that is taken of it is that an account it reports with \<open>ok\<close> is the one the table holds, so it may
  refuse accounts (as the disabled ones) and report any stamp. As the flow stamps 0, a resolver with a
  positive stamp makes \<open>Require\<close> refuse the session the flow has just issued. The address of the client plays no
  part, since the flow stamps an empty one.
\<close>

theorem sign_in_reaches_the_gate:
  assumes "users_inv db" "f_Users f = PGStore lower" "Authenticate B salt f ident pw db = (Inr u, db')"
    and "flow_Issue t0 u s = (None, s')" "g_sess c = next_request s'"
    and honest: "\<forall>i v changed. a_Resolve a i = (Some v, changed, True) \<longrightarrow> ToCore (users_tbl db' i) = Some v"
    and "u_ID u \<noteq> 0" "0 < Unix t0" "Unix t0 \<le> t1" "t1 < 2 ^ 63"
  shows "users_tbl db (u_ID u) = Some u \<and> fst (Verify B (f_Hasher f) (u_PasswordHash u) pw)
    \<and> (passes (Require t1 a r) c \<longleftrightarrow>
         t1 - Unix t0 \<le> dur_int Second (MaxAgeD (a_Session a)) \<and> r \<le> u_Role u
         \<and> (\<exists>changed. a_Resolve a (u_ID u) = (ToCore (Some u), changed, True) \<and> changed \<le> 0))
    \<and> (passes (Require t1 a r) c \<longrightarrow> Current t1 a (Require t1 a r c) = (ToCore (Some u), True, Require t1 a r c))"
proof -
  note A = pg_users.Authenticate_granted [OF assms(1-3)]
  have "users_tbl db' (u_ID u) = Some u \<or> (\<exists>h. users_tbl db' (u_ID u) = Some (u\<lparr>u_PasswordHash := h\<rparr>))"
    using A by auto
  then have stored: "ToCore (users_tbl db' (u_ID u)) = ToCore (Some u)" by (elim disjE exE) simp_all
  have fault: "s_fault s = None"
    using assms(4) Issue_fault [of s _ t0 "u_ID u" "[]" 0] by (cases "s_fault s") (simp_all add: flow_Issue_def)
  have s': "s' = snd (Issue t0 (u_ID u) [] 0 s)" using assms(4) by (simp add: flow_Issue_def)
  have cl: "Read (g_sess c) = Some \<lparr>UserID = u_ID u, LoginAt = Unix t0, LoginIP = [], PasswordChangedAt = 0\<rparr>" (is "_ = Some ?cl")
    using Issue_saved [OF fault, of t0 "u_ID u" "[]" 0] assms(7) by (simp add: assms(5) s' Read_next_request Read_Issue)
  let ?u = "\<lparr>cu_ID = u_ID u, cu_Username = u_Username u, cu_Email = u_Email u, cu_Role = u_Role u, cu_CreatedAt = u_CreatedAt u\<rparr>"
  let ?reported = "\<exists>changed. a_Resolve a (u_ID u) = (Some ?u, changed, True) \<and> changed \<le> 0"
  have age: "i64 (t1 - Unix t0) = t1 - Unix t0" using assms(8-10) by (simp add: i64_ok_def)
  have core: "v = ?u" if "a_Resolve a (u_ID u) = (Some v, changed, True)" for v changed
    using honest that stored by fastforce
  have valid: "valid_claims t1 a c ?cl v \<longleftrightarrow> t1 - Unix t0 \<le> dur_int Second (MaxAgeD (a_Session a)) \<and> v = ?u \<and> ?reported" for v
    using assms(8) age core by (fastforce simp: valid_claims_def)
  then have p: "passes (Require t1 a r) c \<longleftrightarrow>
      t1 - Unix t0 \<le> dur_int Second (MaxAgeD (a_Session a)) \<and> r \<le> u_Role u \<and> ?reported"
    unfolding Require_passes_iff cl by auto
  have "Current t1 a (Require t1 a r c) = (Some ?u, True, Require t1 a r c)" if "passes (Require t1 a r) c"
  proof -
    have "resolve t1 a c = (Some ?u, failNone, c)" using that p valid by (intro resolve_granted [OF cl]) simp
    then show ?thesis using that p by (simp add: Require_granted Current_def)
  qed
  with A p show ?thesis by simp
qed

theorem sign_in_reaches_the_gate_witness:
  "let s' = snd (flow_Issue 63835596800000000000 (ex_row 1 ''bob'' ''b@x'' ''secret12'') empty_sess);
       a = (ex_auth RoleUser 0)\<lparr>a_Resolve := ex_resolver ex_users\<rparr>;
       c = fresh_ctx (next_request s')
   in passes (Require 1700604800 a RoleUser) c \<and> \<not> passes (Require 1700604801 a RoleUser) c
      \<and> \<not> passes (Require 1700604800 a RoleMod) c"
proof -
  let ?u = "ex_row 1 ''bob'' ''b@x'' ''secret12''"
  let ?a = "(ex_auth RoleUser 0)\<lparr>a_Resolve := ex_resolver ex_users\<rparr>"
  define s' where "s' = snd (flow_Issue 63835596800000000000 ?u empty_sess)"
  have run: "Authenticate plain_bcrypt [] ex_flow ''bob'' ''secret12'' ex_users = (Inr ?u, ex_users)"
    by (simp add: Authenticate_def pg_find_user [where lower = "\<lambda>x. x"])
      (simp add: ex_users_def pg_table_def pg_scan_def next_stmt_def ex_row_def named_def ex_flow_def
        Verify_def Check_def peppered_def plain_bcrypt_def)
  have iss: "flow_Issue 63835596800000000000 ?u empty_sess = (None, s')"
    using Issue_saved [of empty_sess 63835596800000000000 "u_ID ?u" "[]" 0]
    by (simp add: s'_def flow_Issue_def empty_sess_def prod_eq_iff)
  have unix: "Unix 63835596800000000000 = 1700000000" by (simp add: Unix_def unix_epoch_def)
  have life: "dur_int Second (MaxAgeD (a_Session ?a)) = 604800" by (rule MaxAgeD_default) (simp add: ex_auth_def)
  have c: "g_sess (fresh_ctx (next_request s')) = next_request s'" by (simp add: fresh_ctx_def)
  have honest: "\<forall>i v changed. a_Resolve ?a i = (Some v, changed, True) \<longrightarrow> ToCore (users_tbl ex_users i) = Some v"
    by (simp add: ex_resolver_def)
  have reported: "a_Resolve ?a (u_ID ?u) = (ToCore (Some ?u), 0, True)"
    by (simp add: ex_resolver_def users_tbl_def ex_users_def pg_table_def ex_row_def)
  have u: "u_ID ?u \<noteq> 0" "u_Role ?u = RoleUser" by (simp_all add: ex_row_def)
  note gate = sign_in_reaches_the_gate [OF ex_users_inv(1,3) run iss c honest u(1), unfolded unix life u(2)]
  show ?thesis unfolding Let_def s'_def [symmetric]
    using reported gate [of 1700604800 RoleUser] gate [of 1700604801 RoleUser] gate [of 1700604800 RoleMod] by simp
qed

end
